(* ===== verification/Prelude.thy ===== *)
theory Prelude
  imports Main "HOL-Library.Word"
begin

text \<open>
  Shared vocabulary of the development: the fixed-width integers of the C++ code, the
  results of operations that can touch memory out of range, lemmas on 32-bit sequence
  numbers (unsigned counters compared through a cast to \<open>int\<close>), on list slices and
  overwrites (arrays, \<open>memcpy\<close>, \<open>memmove\<close>), and the generic notion of reachable
  states with its invariant interface.
\<close>

unbundle bit_operations_syntax

section \<open>Machine types and faults\<close>

type_synonym u8 = "8 word"
type_synonym u16 = "16 word"
type_synonym u32 = "32 word"
type_synonym u64 = "64 word"

text \<open>
  What C++ leaves undefined is a value here: an access outside an array and the use of a
  null pointer.  An operation that can do either returns a sum, with the fault on the left.
\<close>

datatype fault = OutOfBounds | NullPointer

type_synonym 'a checked = "fault + 'a"

abbreviation ok :: "'a \<Rightarrow> 'a checked" where
  "ok x \<equiv> Inr x"

text \<open>
  Rewriting rules that turn the unsigned value of an arithmetic expression on words into
  arithmetic on natural numbers, and unfolding rules of the model's small definitions.
\<close>

named_theorems unat_simps
named_theorems model_defs

declare unat_word_ariths [unat_simps] unat_sub_if' [unat_simps] word_less_nat_alt [unat_simps]
  word_le_nat_alt [unat_simps]

section \<open>Unsigned and signed readings\<close>

lemma unat_u8_less: "unat (x :: u8) < 256"
  using unsigned_less [of x, where 'a = nat] by simp

lemma unat_u16_less: "unat (x :: u16) < 65536"
  using unsigned_less [of x, where 'a = nat] by simp

lemma unat_u32_less: "unat (x :: u32) < 4294967296"
  using unsigned_less [of x, where 'a = nat] by simp

lemma unat_ucast_16_32 [simp]: "unat (ucast (s :: u16) :: u32) = unat s"
proof -
  have "unat s < 65536" by (rule unat_u16_less)
  then have "unat s < 2 ^ 32" by simp
  then show ?thesis by (simp add: unsigned_ucast_eq take_bit_nat_eq_self)
qed

lemma unat_of_nat_u32 [simp]: "n < 4294967296 \<Longrightarrow> unat (of_nat n :: u32) = n"
  by (simp add: unat_of_nat)

lemma odd_div_half:
  assumes "n < 4294967296"
  shows "odd (n div 2147483648) \<longleftrightarrow> \<not> (n :: nat) < 2147483648"
proof (cases "n < 2147483648")
  case True
  then show ?thesis by simp
next
  case False
  with assms have "n div 2147483648 = 1" by (intro div_nat_eqI) auto
  with False show ?thesis by simp
qed

text \<open>The cast of a 32-bit unsigned value to \<open>int\<close>, as the code's comparisons use it.\<close>

lemma sint_u32:
  "sint (x :: u32) =
     (if unat x < 2147483648 then int (unat x) else int (unat x) - 4294967296)"
proof -
  have sg: "sint x = take_bit 32 (uint x) - 4294967296 * of_bool (bit (uint x) 31)"
    by (simp add: sint_uint signed_take_bit_eq_take_bit_minus)
  have tb: "take_bit 32 (uint x) = int (unat x)"
    by (simp add: bintr_uint)
  have "bit (uint x) 31 \<longleftrightarrow> odd (int (unat x) div 2147483648)"
    unfolding bit_iff_odd by simp
  also have "\<dots> \<longleftrightarrow> odd (unat x div 2147483648)"
    using of_nat_div [of "unat x" 2147483648, where 'a = int]
    by (metis even_of_nat of_nat_numeral)
  also have "\<dots> \<longleftrightarrow> \<not> unat x < 2147483648"
    by (rule odd_div_half, rule unat_u32_less)
  finally show ?thesis
    using sg tb by simp
qed

lemma sint_u32_neg: "sint (x :: u32) < 0 \<longleftrightarrow> 2147483648 \<le> unat x"
proof -
  have "int (unat x) < 4294967296"
    using unat_u32_less [of x] by linarith
  then show ?thesis
    by (auto simp only: sint_u32 split: if_splits)
qed

lemma sint_u32_nonneg: "0 \<le> sint (x :: u32) \<longleftrightarrow> unat x < 2147483648"
  using sint_u32_neg [of x] by linarith

lemma sint_u32_pos: "0 < sint (x :: u32) \<longleftrightarrow> x \<noteq> 0 \<and> unat x < 2147483648"
proof -
  have "0 < sint x \<longleftrightarrow> 0 \<le> sint x \<and> sint x \<noteq> 0" by linarith
  also have "sint x \<noteq> 0 \<longleftrightarrow> x \<noteq> 0"
  proof -
    have "x = 0 \<longleftrightarrow> unat x = 0" by (simp add: unat_eq_0)
    then show ?thesis
      using unat_u32_less [of x] unfolding sint_u32 by (auto simp only: split: if_splits)
  qed
  finally show ?thesis by (auto simp: sint_u32_nonneg)
qed

section \<open>Rounding sizes\<close>

text \<open>
  \<open>(size + 7) & -8\<close>, computed in \<open>int\<close> on a 16-bit size: the size rounded up to
  a multiple of eight bytes.
\<close>

definition round8 :: "u16 \<Rightarrow> u32" where
  "round8 s = (ucast s + 7) AND (- 8)"

lemma unat_round8: "unat (round8 s) = 8 * ((unat s + 7) div 8)"
proof -
  have m: "(- 8 :: u32) = NOT (mask 3)"
    by (simp add: mask_eq_exp_minus_1)
  have p: "x AND NOT (mask 3) = push_bit 3 (drop_bit 3 x)" for x :: u32
    by (rule bit_word_eqI) (auto simp: bit_simps)
  have s: "unat s < 65536" by (rule unat_u16_less)
  define y where "y = (ucast s + 7 :: u32)"
  have y: "unat y = unat s + 7"
    using s by (simp add: y_def unat_word_ariths)
  have "round8 s = 8 * (y div 8)"
    unfolding round8_def m p y_def by (simp add: push_bit_eq_mult drop_bit_eq_div mult.commute)
  then have "unat (round8 s) = (8 * (unat y div 8)) mod 4294967296"
    by (simp add: unat_word_ariths unat_div mod_mult_right_eq)
  moreover have "8 * (unat y div 8) < 4294967296"
    using s y by simp
  ultimately show ?thesis by (simp add: y)
qed

lemma round8_le: "unat (round8 s) \<le> unat s + 7" and round8_ge: "unat s \<le> unat (round8 s)"
  by (simp_all add: unat_round8)

lemma round8_eq_0_iff [simp]: "round8 s = 0 \<longleftrightarrow> s = 0"
proof -
  have "round8 s = 0 \<longleftrightarrow> unat (round8 s) = 0" by (simp add: unat_eq_0)
  also have "\<dots> \<longleftrightarrow> unat s = 0" unfolding unat_round8 by simp arith
  finally show ?thesis by (simp add: unat_eq_0)
qed

section \<open>Segments and overwrites\<close>

text \<open>
  \<open>seg i j xs\<close> (a segment) are the elements at the positions from \<open>i\<close> up to, not including,
  \<open>j\<close>; \<open>blit ys i xs\<close> overwrites \<open>xs\<close> from position \<open>i\<close> with \<open>ys\<close>, as
  \<open>memcpy\<close> and \<open>memmove\<close> do with a source that has already been read.
\<close>

definition seg :: "nat \<Rightarrow> nat \<Rightarrow> 'a list \<Rightarrow> 'a list" where
  "seg i j xs = take (j - i) (drop i xs)"

definition blit :: "'a list \<Rightarrow> nat \<Rightarrow> 'a list \<Rightarrow> 'a list" where
  "blit ys i xs = take i xs @ ys @ drop (i + length ys) xs"

lemma length_seg [simp]: "length (seg i j xs) = min (j - i) (length xs - i)"
  by (simp add: seg_def)

lemma seg_empty [simp]: "j \<le> i \<Longrightarrow> seg i j xs = []"
  by (simp add: seg_def)

lemma nth_seg: "i + k < j \<Longrightarrow> j \<le> length xs \<Longrightarrow> seg i j xs ! k = xs ! (i + k)"
  by (simp add: seg_def)

lemma seg_append:
  assumes "i \<le> j" "j \<le> k"
  shows "seg i j xs @ seg j k xs = seg i k xs"
proof -
  have "seg i k xs = take ((j - i) + (k - j)) (drop i xs)"
    using assms by (simp add: seg_def)
  also have "\<dots> = seg i j xs @ take (k - j) (drop (j - i) (drop i xs))"
    by (simp only: take_add seg_def)
  also have "drop (j - i) (drop i xs) = drop j xs"
    using assms by simp
  finally show ?thesis by (simp add: seg_def)
qed

lemma seg_Cons: "i < j \<Longrightarrow> i < length xs \<Longrightarrow> seg i j xs = xs ! i # seg (Suc i) j xs"
  by (simp add: seg_def Cons_nth_drop_Suc [symmetric] take_Cons' Suc_diff_Suc)

lemma drop_seg: "drop n (seg i j xs) = seg (i + n) j xs"
  by (simp add: seg_def drop_take add.commute)

lemma take_seg: "take n (seg i j xs) = seg i (min j (i + n)) xs"
  by (rule nth_equalityI) (auto simp: seg_def)

lemma seg_of_seg: "i + b \<le> j \<Longrightarrow> seg a b (seg i j xs) = seg (i + a) (i + b) xs"
  by (simp add: seg_def drop_take min_def add.commute)

lemma seg_all [simp]: "seg 0 (length xs) xs = xs"
  by (simp add: seg_def)

lemma length_blit [simp]: "i + length ys \<le> length xs \<Longrightarrow> length (blit ys i xs) = length xs"
  by (simp add: blit_def)

lemma seg_cong:
  assumes "length xs = length ys" and "\<And>k. i \<le> k \<Longrightarrow> k < j \<Longrightarrow> k < length xs \<Longrightarrow> xs ! k = ys ! k"
  shows "seg i j xs = seg i j ys"
  by (rule nth_equalityI) (use assms in \<open>auto simp: seg_def\<close>)

lemma nth_blit:
  "i + length ys \<le> length xs \<Longrightarrow> k < length xs \<Longrightarrow>
     blit ys i xs ! k = (if i \<le> k \<and> k < i + length ys then ys ! (k - i) else xs ! k)"
  by (auto simp: blit_def nth_append)

lemma seg_blit_before:
  "i + length ys \<le> length xs \<Longrightarrow> j \<le> i \<Longrightarrow> seg k j (blit ys i xs) = seg k j xs"
  by (rule seg_cong) (auto simp: nth_blit)

lemma seg_blit_same:
  "i + length ys \<le> length xs \<Longrightarrow> seg i (i + length ys) (blit ys i xs) = ys"
  by (simp add: blit_def seg_def)

lemma seg_blit_after:
  "i + length ys \<le> j \<Longrightarrow> i + length ys \<le> length xs \<Longrightarrow> seg j k (blit ys i xs) = seg j k xs"
  by (simp add: blit_def seg_def)

lemma seg_update_before: "i < j \<Longrightarrow> seg j k (xs[i := x]) = seg j k xs"
  by (simp add: seg_def)

lemma seg_update_after: "j \<le> i \<Longrightarrow> seg k j (xs[i := x]) = seg k j xs"
  by (rule seg_cong) auto

lemma blit_Nil [simp]: "blit [] i xs = xs"
  by (simp add: blit_def)

section \<open>Sequence numbers\<close>

text \<open>
  A sequence number counts modulo \<open>2 ^ 32\<close>.  The distance from \<open>a\<close> to \<open>b\<close> is
  \<open>unat (b - a)\<close>; the code compares two numbers by the sign of the difference read as
  \<open>int\<close>, which is right as long as the distance is below \<open>2 ^ 31\<close>.
\<close>

definition seq_dist :: "u32 \<Rightarrow> u32 \<Rightarrow> nat" where
  "seq_dist a b = unat (b - a)"

lemma seq_dist_self [simp]: "seq_dist a a = 0"
  by (simp add: seq_dist_def)

lemma seq_dist_eq_0 [simp]: "seq_dist a b = 0 \<longleftrightarrow> a = b"
  by (auto simp: seq_dist_def unat_eq_0)

lemma seq_dist_add [simp]: "n < 4294967296 \<Longrightarrow> seq_dist a (a + of_nat n) = n"
  by (simp add: seq_dist_def)

lemma seq_dist_less: "seq_dist a b < 4294967296"
  unfolding seq_dist_def by (rule unat_u32_less)

lemma seq_dist_Suc:
  assumes "a \<noteq> b"
  shows "seq_dist a b = Suc (seq_dist (a + 1) b)"
proof -
  have "b - a \<noteq> 0" using assms by simp
  then have "unat (b - a - 1) = unat (b - a) - 1" by (rule unat_minus_one)
  moreover have "unat (b - a) \<noteq> 0" using assms by (simp add: unat_eq_0)
  ultimately show ?thesis by (simp add: seq_dist_def algebra_simps)
qed

lemma seq_add_dist: "a + of_nat (seq_dist a b) = b"
  by (simp add: seq_dist_def)

section \<open>Reachable states and invariants\<close>

text \<open>
  The states a transition system reaches, and the interface an invariant of it implements:
  it holds at the start and every step keeps it.
\<close>

inductive reach :: "('s \<Rightarrow> bool) \<Rightarrow> ('s \<Rightarrow> 's \<Rightarrow> bool) \<Rightarrow> 's \<Rightarrow> bool"
  for start step
where
  reach_start: "start s \<Longrightarrow> reach start step s"
| reach_step: "reach start step s \<Longrightarrow> step s t \<Longrightarrow> reach start step t"

locale state_invariant =
  fixes start :: "'s \<Rightarrow> bool" and step :: "'s \<Rightarrow> 's \<Rightarrow> bool" and inv :: "'s \<Rightarrow> bool"
  assumes inv_start: "start s \<Longrightarrow> inv s"
    and inv_step: "inv s \<Longrightarrow> step s t \<Longrightarrow> inv t"
begin

lemma inv_reach: "reach start step s \<Longrightarrow> inv s"
  by (induction rule: reach.induct) (blast intro: inv_start inv_step)+

lemma inv_steps: "step\<^sup>*\<^sup>* s t \<Longrightarrow> inv s \<Longrightarrow> inv t"
  by (induction rule: rtranclp_induct) (blast intro: inv_step)+

lemma reach_steps: "step\<^sup>*\<^sup>* s t \<Longrightarrow> reach start step s \<Longrightarrow> reach start step t"
  by (induction rule: rtranclp_induct) (blast intro: reach_step)+

end

end
