(* ===== verification/MsgHeader.thy ===== *)
theory MsgHeader
  imports Prelude
begin

text \<open>
  Model of \<^verbatim>\<open>msg_header.h\<close>: the byte swaps, the class \<open>Endian\<close>, the struct \<open>MsgHeader\<close>
  with its byte order conversion, and the layout of a header in the memory of a little- or
  big-endian host (what \<open>reinterpret_cast\<close> between \<open>MsgHeader*\<close> and \<open>char*\<close>
  exposes).  The lemmas show that every conversion undoes itself and that the bytes a host
  puts on the wire do not depend on the host.
\<close>

section \<open>Byte swaps\<close>

definition bswap16 :: "u16 \<Rightarrow> u16" where
  "bswap16 x = push_bit 8 (x AND 0x00FF) OR drop_bit 8 (x AND 0xFF00)"

definition bswap32 :: "u32 \<Rightarrow> u32" where
  "bswap32 x =
     push_bit 24 (x AND 0x000000FF) OR
     push_bit 8 (x AND 0x0000FF00) OR
     drop_bit 8 (x AND 0x00FF0000) OR
     drop_bit 24 (x AND 0xFF000000)"

definition bswap64 :: "u64 \<Rightarrow> u64" where
  "bswap64 x =
     push_bit 56 (x AND 0x00000000000000FF) OR
     push_bit 40 (x AND 0x000000000000FF00) OR
     push_bit 24 (x AND 0x0000000000FF0000) OR
     push_bit 8 (x AND 0x00000000FF000000) OR
     drop_bit 8 (x AND 0x000000FF00000000) OR
     drop_bit 24 (x AND 0x0000FF0000000000) OR
     drop_bit 40 (x AND 0x00FF000000000000) OR
     drop_bit 56 (x AND 0xFF00000000000000)"

text \<open>
  \<open>Endian<ToLittle>\<close>: the template argument \<open>ToLittle\<close> (the byte order on the wire) and
  the constant \<open>is_little_endian\<close> (the byte order of the host).
\<close>

record byte_order =
  ToLittle :: bool
  is_little_endian :: bool

definition Convert16 :: "byte_order \<Rightarrow> u16 \<Rightarrow> u16" where
  "Convert16 E v = (if ToLittle E = is_little_endian E then v else bswap16 v)"

definition Convert32 :: "byte_order \<Rightarrow> u32 \<Rightarrow> u32" where
  "Convert32 E v = (if ToLittle E = is_little_endian E then v else bswap32 v)"

definition Convert64 :: "byte_order \<Rightarrow> u64 \<Rightarrow> u64" where
  "Convert64 E v = (if ToLittle E = is_little_endian E then v else bswap64 v)"

text \<open>The overload for signed integers: convert the unsigned representation and cast back.\<close>

definition ConvertSigned32 :: "byte_order \<Rightarrow> int \<Rightarrow> int" where
  "ConvertSigned32 E v = sint (Convert32 E (word_of_int v))"

text \<open>The swaps, bit by bit.\<close>

lemma byte_mask: "(0xFF :: 'a::len word) = mask 8"
  by (simp add: mask_eq_exp_minus_1)

lemma byte_masks16: "(0xFF00 :: u16) = push_bit 8 (mask 8)"
  by (simp add: mask_eq_exp_minus_1 push_bit_eq_mult)

lemma byte_masks32:
  "(0xFF00 :: u32) = push_bit 8 (mask 8)" "(0xFF0000 :: u32) = push_bit 16 (mask 8)"
  "(0xFF000000 :: u32) = push_bit 24 (mask 8)"
  by (simp_all add: mask_eq_exp_minus_1 push_bit_eq_mult)

lemma byte_masks64:
  "(0xFF00 :: u64) = push_bit 8 (mask 8)" "(0xFF0000 :: u64) = push_bit 16 (mask 8)"
  "(0xFF000000 :: u64) = push_bit 24 (mask 8)" "(0xFF00000000 :: u64) = push_bit 32 (mask 8)"
  "(0xFF0000000000 :: u64) = push_bit 40 (mask 8)"
  "(0xFF000000000000 :: u64) = push_bit 48 (mask 8)"
  "(0xFF00000000000000 :: u64) = push_bit 56 (mask 8)"
  by (simp_all add: mask_eq_exp_minus_1 push_bit_eq_mult)

lemma bit_bswap16: "bit (bswap16 x) n \<longleftrightarrow> n < 16 \<and> bit x (if n < 8 then n + 8 else n - 8)"
  unfolding bswap16_def byte_mask byte_masks16
  by (auto simp: bit_simps add.commute)

lemma bit_bswap32:
  "bit (bswap32 x) n \<longleftrightarrow>
     n < 32 \<and> bit x (if n < 8 then n + 24 else if n < 16 then n + 8
                     else if n < 24 then n - 8 else n - 24)"
  unfolding bswap32_def byte_mask byte_masks32
  by (auto simp: bit_simps add.commute)

lemma bit_push_byte:
  "bit (push_bit k (x AND push_bit j (mask 8)) :: u64) n \<longleftrightarrow>
     k + j \<le> n \<and> n < k + j + 8 \<and> n < 64 \<and> bit x (n - k)"
  by (auto simp: bit_simps)

lemma bit_drop_byte:
  "bit (drop_bit k (x AND push_bit j (mask 8)) :: u64) n \<longleftrightarrow>
     j \<le> n + k \<and> n + k < j + 8 \<and> n + k < 64 \<and> bit x (n + k)"
  by (auto simp: bit_simps add.commute)

text \<open>Bit \<open>m\<close> of byte \<open>k\<close> comes from bit \<open>m\<close> of byte \<open>7 - k\<close>.\<close>

lemma bit_bswap64:
  assumes "m < 8"
  shows "bit (bswap64 x) (8 * k + m) \<longleftrightarrow> k < 8 \<and> bit x (8 * (7 - k) + m)"
proof -
  have m: "(0xFF :: u64) = push_bit 0 (mask 8)" by (simp add: byte_mask)
  consider "k = 0" | "k = 1" | "k = 2" | "k = 3" | "k = 4" | "k = 5" | "k = 6" | "k = 7" | "8 \<le> k"
    by linarith
  then show ?thesis
    using assms unfolding bswap64_def m byte_masks64 bit_or_iff bit_push_byte bit_drop_byte
    by cases (simp_all add: add.commute)
qed

lemma bswap16_bswap16 [simp]: "bswap16 (bswap16 x) = x"
  by (rule bit_word_eqI) (auto simp: bit_bswap16)

lemma bswap32_bswap32 [simp]: "bswap32 (bswap32 x) = x"
  by (rule bit_word_eqI) (auto simp: bit_bswap32)

lemma bswap64_bswap64 [simp]: "bswap64 (bswap64 x) = x"
proof (rule bit_word_eqI)
  fix n assume n: "n < LENGTH(64)"
  obtain k m where km: "n = 8 * k + m" "m < 8"
    by (metis mult_div_mod_eq mod_less_divisor zero_less_numeral)
  with n have "k < 8" "7 - k < 8" by simp_all
  then show "bit (bswap64 (bswap64 x)) n \<longleftrightarrow> bit x n"
    by (simp add: km bit_bswap64)
qed

section \<open>Conversion as an involution\<close>

text \<open>
  Every in-place conversion of the code is used twice, once by the sender and once by the
  receiver (and once more by the client to undo its own conversion), so each one relies on
  undoing itself.  The interface below states that law and what follows from it; every
  conversion of the model implements it.
\<close>

locale involution =
  fixes conv :: "'a \<Rightarrow> 'a"
  assumes conv_conv: "conv (conv x) = x"
begin

lemma conv_inject: "conv x = conv y \<longleftrightarrow> x = y"
  by (metis conv_conv)

lemma conv_flip: "conv x = y \<longleftrightarrow> x = conv y"
  by (metis conv_conv)

lemma bij_conv: "bij conv"
  by (rule o_bij [of conv]) (simp_all add: fun_eq_iff conv_conv)

lemma map_conv: "map conv (map conv xs) = xs"
  by (simp add: map_idI conv_conv)

end

interpretation swap16: involution bswap16
  by unfold_locales simp

interpretation swap32: involution bswap32
  by unfold_locales simp

interpretation swap64: involution bswap64
  by unfold_locales simp

interpretation conv16: involution "Convert16 E" for E
  by unfold_locales (simp add: Convert16_def)

interpretation conv32: involution "Convert32 E" for E
  by unfold_locales (simp add: Convert32_def)

interpretation conv64: involution "Convert64 E" for E
  by unfold_locales (simp add: Convert64_def)

lemma Convert32_0 [simp]: "Convert32 E 0 = 0"
  by (simp add: Convert32_def bswap32_def)

lemma Convert16_0 [simp]: "Convert16 E 0 = 0"
  by (simp add: Convert16_def bswap16_def)

lemma Convert16_eq_0_iff [simp]: "Convert16 E x = 0 \<longleftrightarrow> x = 0"
  by (metis Convert16_0 conv16.conv_conv)

section \<open>Message headers\<close>

text \<open>\<open>struct MsgHeader\<close>; the field \<open>size\<close> is named \<open>hdr_size\<close> here.\<close>

record msg_header =
  hdr_size :: u16
  msg_type :: u16
  ack_seq :: u32

definition ConvertByteOrder :: "byte_order \<Rightarrow> msg_header \<Rightarrow> msg_header" where
  "ConvertByteOrder E h =
     \<lparr>hdr_size = Convert16 E (hdr_size h), msg_type = Convert16 E (msg_type h),
      ack_seq = Convert32 E (ack_seq h)\<rparr>"

lemma ConvertByteOrder_sel [simp]:
  "hdr_size (ConvertByteOrder E h) = Convert16 E (hdr_size h)"
  "msg_type (ConvertByteOrder E h) = Convert16 E (msg_type h)"
  "ack_seq (ConvertByteOrder E h) = Convert32 E (ack_seq h)"
  by (simp_all add: ConvertByteOrder_def)

interpretation hdr: involution "ConvertByteOrder E" for E
  by unfold_locales
     (simp add: ConvertByteOrder_def conv16.conv_conv conv32.conv_conv)

definition sizeof_MsgHeader :: nat where
  "sizeof_MsgHeader = 8"

text \<open>\<open>struct HeartbeatMsg\<close>: a bare header whose type is 0.\<close>

definition HeartbeatMsg_type :: u16 where
  "HeartbeatMsg_type = 0"

section \<open>Headers in memory\<close>

text \<open>
  The bytes of an integer at rising addresses on a host, and the integer a host reads from
  bytes.
\<close>

definition mem16 :: "byte_order \<Rightarrow> u16 \<Rightarrow> u8 list" where
  "mem16 E x =
     (let le = [ucast x, ucast (drop_bit 8 x)]
      in if is_little_endian E then le else rev le)"

definition mem32 :: "byte_order \<Rightarrow> u32 \<Rightarrow> u8 list" where
  "mem32 E x =
     (let le = [ucast x, ucast (drop_bit 8 x), ucast (drop_bit 16 x), ucast (drop_bit 24 x)]
      in if is_little_endian E then le else rev le)"

fun le16 :: "u8 list \<Rightarrow> u16" where
  "le16 [a, b] = ucast a OR push_bit 8 (ucast b)"
| "le16 _ = 0"

fun le32 :: "u8 list \<Rightarrow> u32" where
  "le32 [a, b, c, d] =
     ucast a OR push_bit 8 (ucast b) OR push_bit 16 (ucast c) OR push_bit 24 (ucast d)"
| "le32 _ = 0"

definition load16 :: "byte_order \<Rightarrow> u8 list \<Rightarrow> u16" where
  "load16 E bs = le16 (if is_little_endian E then bs else rev bs)"

definition load32 :: "byte_order \<Rightarrow> u8 list \<Rightarrow> u32" where
  "load32 E bs = le32 (if is_little_endian E then bs else rev bs)"

text \<open>The eight bytes of a header, and the header a pointer to eight bytes denotes.\<close>

definition header_bytes :: "byte_order \<Rightarrow> msg_header \<Rightarrow> u8 list" where
  "header_bytes E h = mem16 E (hdr_size h) @ mem16 E (msg_type h) @ mem32 E (ack_seq h)"

definition load_header :: "byte_order \<Rightarrow> u8 list \<Rightarrow> msg_header" where
  "load_header E bs =
     \<lparr>hdr_size = load16 E (take 2 bs), msg_type = load16 E (take 2 (drop 2 bs)),
      ack_seq = load32 E (take 4 (drop 4 bs))\<rparr>"

lemma length_mem16 [simp]: "length (mem16 E x) = 2"
  by (simp add: mem16_def Let_def)

lemma length_mem32 [simp]: "length (mem32 E x) = 4"
  by (simp add: mem32_def Let_def)

lemma length_header_bytes [simp]: "length (header_bytes E h) = 8"
  by (simp add: header_bytes_def)

lemma le16_bytes: "le16 [ucast x, ucast (drop_bit 8 x)] = x"
  by (rule bit_word_eqI) (auto simp: bit_simps)

lemma le32_bytes:
  "le32 [ucast x, ucast (drop_bit 8 x), ucast (drop_bit 16 x), ucast (drop_bit 24 x)] = x"
proof (rule bit_word_eqI)
  fix n assume "n < LENGTH(32)"
  then consider "n < 8" | "8 \<le> n" "n < 16" | "16 \<le> n" "n < 24" | "24 \<le> n" "n < 32"
    by (simp, linarith)
  then show "bit (le32 [ucast x, ucast (drop_bit 8 x), ucast (drop_bit 16 x),
      ucast (drop_bit 24 x)]) n \<longleftrightarrow> bit x n"
    by cases (auto simp: bit_simps)
qed

lemma load16_mem16 [simp]: "load16 E (mem16 E x) = x"
  by (simp add: load16_def mem16_def Let_def le16_bytes del: le16.simps)

lemma load32_mem32 [simp]: "load32 E (mem32 E x) = x"
  by (simp add: load32_def mem32_def Let_def le32_bytes del: le32.simps)

lemma load_header_bytes [simp]: "load_header E (header_bytes E h @ bs) = h"
  by (simp add: load_header_def header_bytes_def)

lemma load_header_take: "8 \<le> n \<Longrightarrow> load_header E (take n bs) = load_header E bs"
  by (simp add: load_header_def drop_take min_def)

text \<open>
  The bytes of a converted integer: the swap reverses them, so what is in memory is the
  wire order \<open>ToLittle\<close> on every host.
\<close>

lemma mem16_bswap: "mem16 E (bswap16 x) = rev (mem16 E x)"
  by (auto simp: mem16_def Let_def bit_simps bit_bswap16 add.commute intro!: bit_word_eqI)

lemma mem32_bswap: "mem32 E (bswap32 x) = rev (mem32 E x)"
  by (auto simp: mem32_def Let_def bit_simps bit_bswap32 add.commute intro!: bit_word_eqI)

text \<open>The wire format: the bytes a host whose order is the wire's order would store.\<close>

definition wire_order :: "byte_order \<Rightarrow> byte_order" where
  "wire_order E = \<lparr>ToLittle = ToLittle E, is_little_endian = ToLittle E\<rparr>"

lemma mem16_Convert16: "mem16 E (Convert16 E x) = mem16 (wire_order E) x"
  by (cases "is_little_endian E"; cases "ToLittle E")
     (simp_all add: Convert16_def wire_order_def mem16_bswap, simp_all add: mem16_def Let_def)

lemma mem32_Convert32: "mem32 E (Convert32 E x) = mem32 (wire_order E) x"
  by (cases "is_little_endian E"; cases "ToLittle E")
     (simp_all add: Convert32_def wire_order_def mem32_bswap, simp_all add: mem32_def Let_def)

lemma header_bytes_wire: "header_bytes E (ConvertByteOrder E h) = header_bytes (wire_order E) h"
  by (simp add: header_bytes_def mem16_Convert16 mem32_Convert32)

lemma load_header_wire:
  assumes "ToLittle A = ToLittle B"
  shows "ConvertByteOrder B (load_header B (header_bytes A (ConvertByteOrder A h) @ bs)) = h"
proof -
  have "header_bytes A (ConvertByteOrder A h) = header_bytes B (ConvertByteOrder B h)"
    using assms by (simp add: header_bytes_wire wire_order_def)
  then show ?thesis by (simp add: hdr.conv_conv)
qed

text \<open>
  C25. Two hosts that agree on \<open>ToLittleEndian\<close> understand each other's headers, whatever
  their own byte orders are: both store the same eight bytes for a header, and the receiver
  reads and converts back exactly the header the sender converted and stored.
\<close>

theorem header_wire_roundtrip:
  "header_bytes \<lparr>ToLittle = w, is_little_endian = a\<rparr>
       (ConvertByteOrder \<lparr>ToLittle = w, is_little_endian = a\<rparr> h) =
     header_bytes \<lparr>ToLittle = w, is_little_endian = b\<rparr>
       (ConvertByteOrder \<lparr>ToLittle = w, is_little_endian = b\<rparr> h)
   \<and> ConvertByteOrder \<lparr>ToLittle = w, is_little_endian = b\<rparr>
       (load_header \<lparr>ToLittle = w, is_little_endian = b\<rparr>
          (header_bytes \<lparr>ToLittle = w, is_little_endian = a\<rparr>
             (ConvertByteOrder \<lparr>ToLittle = w, is_little_endian = a\<rparr> h) @ body)) = h"
  using load_header_wire [of "\<lparr>ToLittle = w, is_little_endian = a\<rparr>" "\<lparr>ToLittle = w, is_little_endian = b\<rparr>"]
  by (simp add: header_bytes_wire wire_order_def)

end
