(* ===== verification/PTCPQueue.thy ===== *)
theory PTCPQueue
  imports MsgHeader
begin

text \<open>
  Model of \<^verbatim>\<open>ptcp_queue.h\<close>: the single-threaded persistent send queue of a TCP connection,
  an array of eight-byte blocks with a read, a send and a write index, the sequence number
  of the oldest unacknowledged message and the local acknowledgement number.  An index is a
  32-bit word, as in the code; a pointer into the array is its index; \<open>nullptr\<close> is
  \<open>None\<close>.  The template arguments \<open>Bytes\<close> and \<open>ToLittleEndian\<close> are the arguments
  \<open>Bytes\<close> and \<open>E\<close> of the operations.
\<close>

section \<open>State\<close>

record ptcpq =
  blk :: "msg_header list"
  write_idx :: u32
  read_idx :: u32
  send_idx :: u32
  read_seq_num :: u32
  ack_seq_num :: u32

definition ptcpq_BLK_CNT :: "u32 \<Rightarrow> u32" where
  "ptcpq_BLK_CNT Bytes = Bytes div 8"

definition zero_header :: msg_header where
  "zero_header = \<lparr>hdr_size = 0, msg_type = 0, ack_seq = 0\<rparr>"

text \<open>
  The object a placement \<open>new\<close> leaves behind: the indices and numbers are 0, the blocks
  keep what the memory held.  A file that has just been created is all zero.
\<close>

definition ptcpq_new :: "msg_header list \<Rightarrow> ptcpq" where
  "ptcpq_new mem =
     \<lparr>blk = mem, write_idx = 0, read_idx = 0, send_idx = 0, read_seq_num = 0, ack_seq_num = 0\<rparr>"

section \<open>Operations\<close>

text \<open>The number of blocks of a message: \<open>(size + sizeof(MsgHeader) - 1) / sizeof(MsgHeader)\<close>.\<close>

definition blk_size :: "u16 \<Rightarrow> u32" where
  "blk_size sz = (ucast sz + 8 - 1) div 8"

text \<open>The three statements that move the live blocks to the front of the array.\<close>

definition ptcpq_compact :: "ptcpq \<Rightarrow> ptcpq checked" where
  "ptcpq_compact q =
     (let r = unat (read_idx q); n = unat (write_idx q - read_idx q) in
      if r + n \<le> length (blk q) then
        ok (q\<lparr>blk := blit (seg r (r + n) (blk q)) 0 (blk q),
              write_idx := write_idx q - read_idx q,
              send_idx := send_idx q - read_idx q,
              read_idx := 0\<rparr>)
      else Inl OutOfBounds)"

definition ptcpq_set_size :: "u16 \<Rightarrow> ptcpq \<Rightarrow> (u32 option \<times> ptcpq) checked" where
  "ptcpq_set_size sz q =
     (let w = unat (write_idx q) in
      if w < length (blk q) then
        ok (Some (write_idx q), q\<lparr>blk := (blk q)[w := (blk q ! w)\<lparr>hdr_size := sz\<rparr>]\<rparr>)
      else Inl OutOfBounds)"

definition ptcpq_Alloc :: "u32 \<Rightarrow> u16 \<Rightarrow> ptcpq \<Rightarrow> (u32 option \<times> ptcpq) checked" where
  "ptcpq_Alloc Bytes user_size q =
     (let sz = user_size + 8;
          blk_sz = blk_size sz;
          avail_sz = ptcpq_BLK_CNT Bytes - write_idx q
      in if avail_sz < blk_sz then
           if avail_sz + read_idx q < blk_sz then ok (None, q)
           else case ptcpq_compact q of
                  Inl e \<Rightarrow> Inl e
                | Inr q1 \<Rightarrow> ptcpq_set_size sz q1
         else ptcpq_set_size sz q)"

definition ptcpq_Push :: "byte_order \<Rightarrow> ptcpq \<Rightarrow> ptcpq checked" where
  "ptcpq_Push E q =
     (let w = unat (write_idx q) in
      if w < length (blk q) then
        let header = blk q ! w;
            blk_sz = blk_size (hdr_size header);
            header = ConvertByteOrder E (header\<lparr>ack_seq := ack_seq_num q\<rparr>)
        in ok (q\<lparr>blk := (blk q)[w := header], write_idx := write_idx q + blk_sz\<rparr>)
      else Inl OutOfBounds)"

text \<open>\<open>GetSendable\<close>: the number of blocks (an \<open>int\<close>) and the index they start at.\<close>

definition ptcpq_GetSendable :: "ptcpq \<Rightarrow> int \<times> u32" where
  "ptcpq_GetSendable q = (sint (write_idx q - send_idx q), send_idx q)"

definition ptcpq_Sendout :: "int \<Rightarrow> ptcpq \<Rightarrow> ptcpq" where
  "ptcpq_Sendout blk_sz q = q\<lparr>send_idx := send_idx q + word_of_int blk_sz\<rparr>"

text \<open>
  The \<open>do ... while\<close> loop of \<open>Ack\<close>.  It runs at most \<open>2 ^ 32\<close> times, since the sequence
  number reaches \<open>ack_seq\<close> by counting up.
\<close>

function ptcpq_ack_loop :: "byte_order \<Rightarrow> u32 \<Rightarrow> ptcpq \<Rightarrow> ptcpq checked" where
  "ptcpq_ack_loop E ack q =
     (if unat (read_idx q) < length (blk q) then
        let sz = Convert16 E (hdr_size (blk q ! unat (read_idx q)));
            q1 = q\<lparr>read_idx := read_idx q + blk_size sz, read_seq_num := read_seq_num q + 1\<rparr>
        in if read_seq_num q1 \<noteq> ack then ptcpq_ack_loop E ack q1 else ok q1
      else Inl OutOfBounds)"
  by pat_completeness auto
termination
  by (relation "measure (\<lambda>(E, ack, q). seq_dist (read_seq_num q + 1) ack)")
     (auto simp: seq_dist_Suc)

declare ptcpq_ack_loop.simps [simp del]

definition ptcpq_Ack :: "byte_order \<Rightarrow> u32 \<Rightarrow> ptcpq \<Rightarrow> ptcpq checked" where
  "ptcpq_Ack E ack q =
     (if sint (ack - read_seq_num q) \<le> 0 then ok q
      else case ptcpq_ack_loop E ack q of
             Inl e \<Rightarrow> Inl e
           | Inr q1 \<Rightarrow>
               if read_idx q1 = write_idx q1
               then ok (q1\<lparr>read_idx := 0, write_idx := 0, send_idx := 0\<rparr>)
               else ok q1)"

definition ptcpq_LoginAck :: "byte_order \<Rightarrow> u32 \<Rightarrow> ptcpq \<Rightarrow> ptcpq checked" where
  "ptcpq_LoginAck E ack q =
     (case ptcpq_Ack E ack q of
        Inl e \<Rightarrow> Inl e
      | Inr q1 \<Rightarrow> ok (q1\<lparr>send_idx := read_idx q1\<rparr>))"

text \<open>\<open>MyAck\<close> returns a reference; the callers read it or increment it.\<close>

definition ptcpq_MyAck :: "ptcpq \<Rightarrow> u32" where
  "ptcpq_MyAck q = ack_seq_num q"

definition ptcpq_inc_MyAck :: "ptcpq \<Rightarrow> ptcpq" where
  "ptcpq_inc_MyAck q = q\<lparr>ack_seq_num := ack_seq_num q + 1\<rparr>"

text \<open>
  \<open>SanityCheckAndGetSeq\<close> scans a file that may be corrupt, and its loop need not end: a
  header of size 0 does not advance the index.  \<open>None\<close> is a scan that never ends,
  \<open>Some (Inl e)\<close> an access outside the array, \<open>Some (Inr None)\<close> the result false and
  \<open>Some (Inr (Some (seq_start, seq_end)))\<close> the result true with the two numbers.
\<close>

partial_function (option) ptcpq_sanity_loop ::
  "byte_order \<Rightarrow> ptcpq \<Rightarrow> u32 \<Rightarrow> u32 \<Rightarrow> (u32 \<times> u32) option checked option"
where
  "ptcpq_sanity_loop E q idx end_seq =
     (if idx < write_idx q then
        if unat idx < length (blk q) then
          let header = ConvertByteOrder E (blk q ! unat idx) in
          if sint (ack_seq_num q - ack_seq header) < 0 then Some (ok None)
          else ptcpq_sanity_loop E q (idx + blk_size (hdr_size header)) (end_seq + 1)
        else Some (Inl OutOfBounds)
      else if idx \<noteq> write_idx q then Some (ok None)
      else Some (ok (Some (read_seq_num q, end_seq))))"

declare ptcpq_sanity_loop.simps [code]

definition ptcpq_SanityCheckAndGetSeq ::
  "byte_order \<Rightarrow> ptcpq \<Rightarrow> (u32 \<times> u32) option checked option"
where
  "ptcpq_SanityCheckAndGetSeq E q = ptcpq_sanity_loop E q (read_idx q) (read_seq_num q)"

text \<open>
  What the user does between \<open>Alloc\<close> and \<open>Push\<close>: set the type and write the body behind
  the header (the body seen as blocks of eight bytes).
\<close>

definition ptcpq_fill :: "u16 \<Rightarrow> msg_header list \<Rightarrow> ptcpq \<Rightarrow> ptcpq checked" where
  "ptcpq_fill t body q =
     (let w = unat (write_idx q) in
      if w < length (blk q) \<and> w + 1 + length body \<le> length (blk q) then
        ok (q\<lparr>blk := blit body (w + 1) ((blk q)[w := (blk q ! w)\<lparr>msg_type := t\<rparr>])\<rparr>)
      else Inl OutOfBounds)"

text \<open>Allocate, fill and push one message; false when \<open>Alloc\<close> returned \<open>nullptr\<close>.\<close>

definition ptcpq_post ::
  "u32 \<Rightarrow> byte_order \<Rightarrow> u16 \<Rightarrow> u16 \<Rightarrow> msg_header list \<Rightarrow> ptcpq \<Rightarrow> (bool \<times> ptcpq) checked"
where
  "ptcpq_post Bytes E user_size t body q =
     (case ptcpq_Alloc Bytes user_size q of
        Inl e \<Rightarrow> Inl e
      | Inr (None, q1) \<Rightarrow> ok (False, q1)
      | Inr (Some p, q1) \<Rightarrow>
          (case ptcpq_fill t body q1 of
             Inl e \<Rightarrow> Inl e
           | Inr q2 \<Rightarrow> (case ptcpq_Push E q2 of Inl e \<Rightarrow> Inl e | Inr q3 \<Rightarrow> ok (True, q3))))"

section \<open>Abstraction: the list of unacknowledged messages\<close>

text \<open>
  A message is its header, in host byte order, and the blocks of its body.  \<open>nblk\<close> is the
  number of blocks a header announces.  The live blocks are the encodings of the pending
  messages, one after the other; \<open>parse_blocks\<close> recovers the messages.
\<close>

type_synonym pmsg = "msg_header \<times> msg_header list"

definition nblk :: "msg_header \<Rightarrow> nat" where
  "nblk h = (unat (hdr_size h) + 7) div 8"

fun wf_msg :: "pmsg \<Rightarrow> bool" where
  "wf_msg (h, body) \<longleftrightarrow> nblk h = Suc (length body)"

fun enc_msg :: "byte_order \<Rightarrow> pmsg \<Rightarrow> msg_header list" where
  "enc_msg E (h, body) = ConvertByteOrder E h # body"

definition enc_msgs :: "byte_order \<Rightarrow> pmsg list \<Rightarrow> msg_header list" where
  "enc_msgs E ms = concat (map (enc_msg E) ms)"

function parse_blocks :: "byte_order \<Rightarrow> msg_header list \<Rightarrow> pmsg list option" where
  "parse_blocks E [] = Some []"
| "parse_blocks E (b # bs) =
     (let h = ConvertByteOrder E b; n = nblk h in
      if n = 0 \<or> length bs < n - 1 then None
      else map_option (Cons (h, take (n - 1) bs)) (parse_blocks E (drop (n - 1) bs)))"
  by pat_completeness auto
termination
  by (relation "measure (\<lambda>(E, bs). length bs)") auto

declare parse_blocks.simps(2) [simp del]

section \<open>Encoding and parsing\<close>

lemma unat_blk_size [unat_simps]: "unat (blk_size s) = (unat s + 7) div 8"
proof -
  define y where "y = (ucast s + 8 - 1 :: u32)"
  have "unat s < 65536" by (rule unat_u16_less)
  then have "unat y = unat s + 7" by (simp add: y_def unat_word_ariths)
  then show ?thesis
    by (simp add: blk_size_def unat_div flip: y_def)
qed

lemma nblk_blk_size: "nblk h = unat (blk_size (hdr_size h))"
  by (simp add: nblk_def unat_blk_size)

lemma nblk_le: "nblk h \<le> 8192"
  using unat_u16_less [of "hdr_size h"] by (simp add: nblk_def)

lemma nblk_eq_0_iff: "nblk h = 0 \<longleftrightarrow> hdr_size h = 0"
  by (simp add: nblk_def div_eq_0_iff unat_eq_0 flip: unat_eq_0)

lemma length_enc_msg [simp]: "wf_msg m \<Longrightarrow> length (enc_msg E m) = nblk (fst m)"
  by (cases m) simp

lemma enc_msgs_simps [simp]:
  "enc_msgs E [] = []" "enc_msgs E (m # ms) = enc_msg E m @ enc_msgs E ms"
  "enc_msgs E (ms @ ns) = enc_msgs E ms @ enc_msgs E ns"
  by (simp_all add: enc_msgs_def)

text \<open>The number of blocks a list of messages takes.\<close>

definition nblks :: "pmsg list \<Rightarrow> nat" where
  "nblks ms = (\<Sum>m\<leftarrow>ms. nblk (fst m))"

lemma nblks_simps [simp]:
  "nblks [] = 0" "nblks (m # ms) = nblk (fst m) + nblks ms" "nblks (ms @ ns) = nblks ms + nblks ns"
  by (simp_all add: nblks_def)

lemma length_enc_msgs [simp]: "list_all wf_msg ms \<Longrightarrow> length (enc_msgs E ms) = nblks ms"
  by (induction ms) auto

lemma parse_blocks_Cons:
  assumes "wf_msg (h, body)"
  shows "parse_blocks E (ConvertByteOrder E h # body @ bs) =
    map_option (Cons (h, body)) (parse_blocks E bs)"
  using assms by (simp add: parse_blocks.simps(2) hdr.conv_conv Let_def)

lemma parse_enc: "list_all wf_msg ms \<Longrightarrow> parse_blocks E (enc_msgs E ms) = Some ms"
proof (induction ms)
  case (Cons m ms)
  then show ?case by (cases m) (simp add: parse_blocks_Cons)
qed simp

lemma parse_sound:
  "parse_blocks E bs = Some ms \<Longrightarrow> bs = enc_msgs E ms \<and> list_all wf_msg ms"
proof (induction E bs arbitrary: ms rule: parse_blocks.induct)
  case (2 E b bs)
  define h where "h = ConvertByteOrder E b"
  from 2(2) obtain ns where n: "nblk h \<noteq> 0" "nblk h - 1 \<le> length bs"
    and ns: "parse_blocks E (drop (nblk h - 1) bs) = Some ns"
    and ms: "ms = (h, take (nblk h - 1) bs) # ns"
    by (auto simp: parse_blocks.simps(2) Let_def h_def split: if_splits)
  have "drop (nblk h - 1) bs = enc_msgs E ns \<and> list_all wf_msg ns"
    using 2(1) [of h "nblk h" ns] n ns by (simp add: h_def)
  moreover have "take (nblk h - 1) bs @ drop (nblk h - 1) bs = bs" by simp
  ultimately show ?case
    using n by (simp add: ms h_def hdr.conv_conv)
qed simp

lemma parse_iff:
  "parse_blocks E bs = Some ms \<longleftrightarrow> bs = enc_msgs E ms \<and> list_all wf_msg ms"
  using parse_sound parse_enc by blast

section \<open>The invariant\<close>

definition live :: "ptcpq \<Rightarrow> msg_header list" where
  "live q = seg (unat (read_idx q)) (unat (write_idx q)) (blk q)"

definition pending :: "byte_order \<Rightarrow> ptcpq \<Rightarrow> pmsg list" where
  "pending E q = (case parse_blocks E (live q) of None \<Rightarrow> [] | Some ms \<Rightarrow> ms)"

text \<open>
  The comment in the class (\<open>read_idx_ <= send_idx_ <= write_idx_\<close>), the bound of the array
  and the fact that the live blocks are whole messages.
\<close>

definition ptcpq_inv :: "u32 \<Rightarrow> byte_order \<Rightarrow> ptcpq \<Rightarrow> bool" where
  "ptcpq_inv Bytes E q \<longleftrightarrow>
     length (blk q) = unat (ptcpq_BLK_CNT Bytes) \<and>
     unat (read_idx q) \<le> unat (send_idx q) \<and>
     unat (send_idx q) \<le> unat (write_idx q) \<and>
     unat (write_idx q) \<le> length (blk q) \<and>
     parse_blocks E (live q) \<noteq> None"

lemma BLK_CNT_bound: "unat (ptcpq_BLK_CNT Bytes) < 536870912"
  using unat_u32_less [of Bytes] by (simp add: ptcpq_BLK_CNT_def unat_div)

lemma ptcpq_invD:
  assumes "ptcpq_inv Bytes E q"
  shows "length (blk q) = unat (ptcpq_BLK_CNT Bytes)"
    and "unat (read_idx q) \<le> unat (send_idx q)"
    and "unat (send_idx q) \<le> unat (write_idx q)"
    and "unat (write_idx q) \<le> length (blk q)"
    and "live q = enc_msgs E (pending E q)"
    and "list_all wf_msg (pending E q)"
  using assms parse_sound by (auto simp: ptcpq_inv_def pending_def)

lemma ptcpq_invI:
  assumes "length (blk q) = unat (ptcpq_BLK_CNT Bytes)"
    and "unat (read_idx q) \<le> unat (send_idx q)"
    and "unat (send_idx q) \<le> unat (write_idx q)"
    and "unat (write_idx q) \<le> length (blk q)"
    and "live q = enc_msgs E ms" and "list_all wf_msg ms"
  shows "ptcpq_inv Bytes E q" and "pending E q = ms"
  using assms by (simp_all add: ptcpq_inv_def pending_def parse_enc)

lemma pending_nblks:
  assumes "ptcpq_inv Bytes E q"
  shows "nblks (pending E q) = unat (write_idx q) - unat (read_idx q)"
proof -
  note inv = ptcpq_invD [OF assms]
  have "nblks (pending E q) = length (live q)"
    using inv by simp
  then show ?thesis using inv by (simp add: live_def)
qed

lemma ptcpq_bounds:
  assumes "ptcpq_inv Bytes E q"
  shows "length (blk q) < 536870912" "unat (write_idx q) < 536870912"
    "unat (read_idx q) \<le> unat (write_idx q)" "unat (read_idx q) \<le> length (blk q)"
  using ptcpq_invD [OF assms] BLK_CNT_bound [of Bytes] by linarith+

lemma ptcpq_new_inv:
  assumes "length mem = unat (ptcpq_BLK_CNT Bytes)"
  shows "ptcpq_inv Bytes E (ptcpq_new mem)" and "pending E (ptcpq_new mem) = []"
  using assms
  by (auto intro!: ptcpq_invI [where ms = "[]"] simp: ptcpq_new_def live_def)

section \<open>Posting a message\<close>

text \<open>What none of the steps of posting changes: the numbers and the amount sent.\<close>

definition same_session :: "ptcpq \<Rightarrow> ptcpq \<Rightarrow> bool" where
  "same_session q q1 \<longleftrightarrow>
     read_seq_num q1 = read_seq_num q \<and> ack_seq_num q1 = ack_seq_num q \<and>
     unat (send_idx q1) - unat (read_idx q1) = unat (send_idx q) - unat (read_idx q) \<and>
     length (blk q1) = length (blk q)"

lemma unat_diff: "unat b \<le> unat a \<Longrightarrow> unat (a - b :: u32) = unat a - unat b"
  by (simp add: unat_sub_if')

lemma compact_ok:
  assumes inv: "ptcpq_inv Bytes E q"
  obtains q1 where "ptcpq_compact q = ok q1" "ptcpq_inv Bytes E q1"
    "pending E q1 = pending E q" "same_session q q1"
    "unat (read_idx q1) = 0" "unat (write_idx q1) = unat (write_idx q) - unat (read_idx q)"
proof -
  note D = ptcpq_invD [OF inv] ptcpq_bounds [OF inv]
  let ?r = "unat (read_idx q)" and ?w = "unat (write_idx q)" and ?s = "unat (send_idx q)"
  have w: "unat (write_idx q - read_idx q) = ?w - ?r" and s: "unat (send_idx q - read_idx q) = ?s - ?r"
    using D by (simp_all add: unat_diff)
  define q1 where "q1 = q\<lparr>blk := blit (seg ?r ?w (blk q)) 0 (blk q),
    write_idx := write_idx q - read_idx q, send_idx := send_idx q - read_idx q, read_idx := 0\<rparr>"
  have eq: "ptcpq_compact q = ok q1"
    using D by (simp add: ptcpq_compact_def Let_def w q1_def)
  have len: "length (seg ?r ?w (blk q)) = ?w - ?r"
    using D by simp
  have "live q1 = live q"
    using D seg_blit_same [of 0 "seg ?r ?w (blk q)" "blk q"] len
    by (simp add: live_def q1_def w)
  with D have "live q1 = enc_msgs E (pending E q)" by simp
  moreover have "length (blk q1) = length (blk q)"
    using D len by (simp add: q1_def)
  ultimately have "ptcpq_inv Bytes E q1" "pending E q1 = pending E q"
    using D by (auto intro!: ptcpq_invI simp: q1_def w s)
  then show thesis
    using that [OF eq] D \<open>length (blk q1) = length (blk q)\<close>
    by (simp add: same_session_def q1_def w s)
qed

lemma set_size_ok:
  assumes inv: "ptcpq_inv Bytes E q" and w: "unat (write_idx q) < length (blk q)"
  obtains q1 where "ptcpq_set_size sz q = ok (Some (write_idx q1), q1)" "ptcpq_inv Bytes E q1"
    "pending E q1 = pending E q" "same_session q q1" "write_idx q1 = write_idx q"
    "read_idx q1 = read_idx q" "hdr_size (blk q1 ! unat (write_idx q1)) = sz"
proof -
  note D = ptcpq_invD [OF inv]
  let ?w = "unat (write_idx q)"
  define q1 where "q1 = q\<lparr>blk := (blk q)[?w := (blk q ! ?w)\<lparr>hdr_size := sz\<rparr>]\<rparr>"
  have eq: "ptcpq_set_size sz q = ok (Some (write_idx q1), q1)"
    using w by (simp add: ptcpq_set_size_def Let_def q1_def)
  have "live q1 = live q"
    by (simp add: live_def q1_def seg_update_after)
  then have "ptcpq_inv Bytes E q1" "pending E q1 = pending E q"
    using D by (auto intro!: ptcpq_invI simp: q1_def)
  then show thesis
    using that [OF eq] w by (simp add: same_session_def q1_def)
qed

lemma unat_user_size:
  assumes "unat user_size \<le> 65527"
  shows "unat (user_size + 8 :: u16) = unat user_size + 8"
  using assms by (simp add: unat_word_ariths)

text \<open>
  \<open>Alloc\<close> succeeds exactly when the message fits into the array beside the pending ones,
  and then leaves room for it at the write index.
\<close>

definition msg_blocks :: "u16 \<Rightarrow> nat" where
  "msg_blocks user_size = unat (blk_size (user_size + 8))"

definition ptcpq_free :: "ptcpq \<Rightarrow> nat" where
  "ptcpq_free q = length (blk q) - (unat (write_idx q) - unat (read_idx q))"

lemma same_session_trans: "same_session a b \<Longrightarrow> same_session b c \<Longrightarrow> same_session a c"
  by (simp add: same_session_def)

lemma Alloc_null_iff:
  assumes inv: "ptcpq_inv Bytes E q"
  shows "ptcpq_Alloc Bytes us q = ok (None, q) \<longleftrightarrow> ptcpq_free q < msg_blocks us"
    and "ptcpq_free q < msg_blocks us \<Longrightarrow> ptcpq_Alloc Bytes us q = ok (None, q)"
proof -
  note D = ptcpq_invD [OF inv] ptcpq_bounds [OF inv]
  let ?a = "ptcpq_BLK_CNT Bytes - write_idx q" and ?n = "blk_size (us + 8)"
  have a: "unat ?a = length (blk q) - unat (write_idx q)"
    using D by (simp add: unat_diff)
  have ar: "unat (?a + read_idx q) = ptcpq_free q"
    using D by (simp add: unat_word_ariths a ptcpq_free_def)
  have ne: "ptcpq_set_size s x \<noteq> ok (None, y)" for s x y
    by (auto simp: ptcpq_set_size_def Let_def split: if_splits)
  show "ptcpq_Alloc Bytes us q = ok (None, q) \<longleftrightarrow> ptcpq_free q < msg_blocks us"
    using D a ar ne
    by (auto simp: ptcpq_Alloc_def Let_def word_less_nat_alt msg_blocks_def ptcpq_free_def
        split: sum.splits)
  then show "ptcpq_free q < msg_blocks us \<Longrightarrow> ptcpq_Alloc Bytes us q = ok (None, q)" by simp
qed

lemma Alloc_ok:
  assumes inv: "ptcpq_inv Bytes E q" and us: "unat us \<le> 65527"
    and room: "msg_blocks us \<le> ptcpq_free q"
  obtains q1 where "ptcpq_Alloc Bytes us q = ok (Some (write_idx q1), q1)"
    "ptcpq_inv Bytes E q1" "pending E q1 = pending E q" "same_session q q1"
    "unat (write_idx q1) + msg_blocks us \<le> length (blk q1)"
    "hdr_size (blk q1 ! unat (write_idx q1)) = us + 8"
proof -
  note D = ptcpq_invD [OF inv] ptcpq_bounds [OF inv]
  let ?a = "ptcpq_BLK_CNT Bytes - write_idx q" and ?n = "blk_size (us + 8)"
  have a: "unat ?a = length (blk q) - unat (write_idx q)"
    using D by (simp add: unat_diff)
  have ar: "unat (?a + read_idx q) = ptcpq_free q"
    using D by (simp add: unat_word_ariths a ptcpq_free_def)
  have pos: "0 < msg_blocks us"
    using us by (simp add: msg_blocks_def unat_blk_size unat_user_size)
  show thesis
  proof (cases "?a < ?n")
    case True
    obtain q0 where q0: "ptcpq_compact q = ok q0" "ptcpq_inv Bytes E q0"
        "pending E q0 = pending E q" "same_session q q0" "unat (read_idx q0) = 0"
        "unat (write_idx q0) = unat (write_idx q) - unat (read_idx q)"
      by (rule compact_ok [OF inv])
    have room0: "unat (write_idx q0) + msg_blocks us \<le> length (blk q0)"
      using q0 room D by (simp add: same_session_def ptcpq_free_def)
    with pos have "unat (write_idx q0) < length (blk q0)" by linarith
    then obtain q1 where q1: "ptcpq_set_size (us + 8) q0 = ok (Some (write_idx q1), q1)"
        "ptcpq_inv Bytes E q1" "pending E q1 = pending E q0" "same_session q0 q1"
        "write_idx q1 = write_idx q0" "hdr_size (blk q1 ! unat (write_idx q1)) = us + 8"
      by (rule set_size_ok [OF q0(2)]) blast
    have "\<not> ?a + read_idx q < ?n"
      using ar room by (simp add: word_less_nat_alt msg_blocks_def)
    then have "ptcpq_Alloc Bytes us q = ok (Some (write_idx q1), q1)"
      using True q0(1) q1(1) by (simp add: ptcpq_Alloc_def Let_def)
    then show thesis
      using that q0 q1 room0 same_session_trans [OF q0(4) q1(4)]
      by (simp add: same_session_def)
  next
    case False
    then have room0: "unat (write_idx q) + msg_blocks us \<le> length (blk q)"
      using a D by (simp add: word_less_nat_alt msg_blocks_def)
    with pos have "unat (write_idx q) < length (blk q)" by linarith
    then obtain q1 where q1: "ptcpq_set_size (us + 8) q = ok (Some (write_idx q1), q1)"
        "ptcpq_inv Bytes E q1" "pending E q1 = pending E q" "same_session q q1"
        "write_idx q1 = write_idx q" "hdr_size (blk q1 ! unat (write_idx q1)) = us + 8"
      by (rule set_size_ok [OF inv]) blast
    have "ptcpq_Alloc Bytes us q = ok (Some (write_idx q1), q1)"
      using False q1(1) by (simp add: ptcpq_Alloc_def Let_def)
    then show thesis
      using that q1 room0 by (simp add: same_session_def)
  qed
qed

lemma fill_ok:
  assumes inv: "ptcpq_inv Bytes E q"
    and room: "unat (write_idx q) + Suc (length body) \<le> length (blk q)"
  obtains q1 where "ptcpq_fill t body q = ok q1" "ptcpq_inv Bytes E q1"
    "pending E q1 = pending E q" "same_session q q1" "write_idx q1 = write_idx q"
    "hdr_size (blk q1 ! unat (write_idx q1)) = hdr_size (blk q ! unat (write_idx q))"
    "msg_type (blk q1 ! unat (write_idx q1)) = t"
    "seg (Suc (unat (write_idx q1))) (Suc (unat (write_idx q1)) + length body) (blk q1) = body"
proof -
  note D = ptcpq_invD [OF inv]
  let ?w = "unat (write_idx q)"
  let ?b = "(blk q)[?w := (blk q ! ?w)\<lparr>msg_type := t\<rparr>]"
  define q1 where "q1 = q\<lparr>blk := blit body (Suc ?w) ?b\<rparr>"
  have eq: "ptcpq_fill t body q = ok q1"
    using room by (simp add: ptcpq_fill_def Let_def q1_def)
  have "live q1 = live q"
    using room by (simp add: live_def q1_def seg_blit_before seg_update_after)
  then have "ptcpq_inv Bytes E q1" "pending E q1 = pending E q"
    using D room by (auto intro!: ptcpq_invI simp: q1_def)
  moreover have "blk q1 ! ?w = (blk q ! ?w)\<lparr>msg_type := t\<rparr>"
    using room by (simp add: q1_def nth_blit)
  moreover have "seg (Suc ?w) (Suc ?w + length body) (blk q1) = body"
    using room seg_blit_same [of "Suc ?w" body ?b] by (simp add: q1_def)
  ultimately show thesis
    using that [OF eq] room by (simp add: same_session_def q1_def)
qed

lemma Push_ok:
  assumes inv: "ptcpq_inv Bytes E q"
    and room: "unat (write_idx q) + Suc (length body) \<le> length (blk q)"
    and n: "nblk (blk q ! unat (write_idx q)) = Suc (length body)"
    and body: "seg (Suc (unat (write_idx q))) (Suc (unat (write_idx q)) + length body) (blk q) = body"
  obtains q1 where "ptcpq_Push E q = ok q1" "ptcpq_inv Bytes E q1"
    "pending E q1 = pending E q @
       [((blk q ! unat (write_idx q))\<lparr>ack_seq := ack_seq_num q\<rparr>, body)]"
    "same_session q q1"
proof -
  note D = ptcpq_invD [OF inv] ptcpq_bounds [OF inv]
  let ?w = "unat (write_idx q)" and ?r = "unat (read_idx q)"
  define h where "h = (blk q ! ?w)\<lparr>ack_seq := ack_seq_num q\<rparr>"
  define q1 where "q1 = q\<lparr>blk := (blk q)[?w := ConvertByteOrder E h],
    write_idx := write_idx q + blk_size (hdr_size h)\<rparr>"
  have eq: "ptcpq_Push E q = ok q1"
    using room by (simp add: ptcpq_Push_def Let_def q1_def h_def)
  have sz: "unat (blk_size (hdr_size h)) = Suc (length body)" and wf: "wf_msg (h, body)"
    using n by (simp_all add: h_def nblk_blk_size)
  have w1: "unat (write_idx q1) = ?w + Suc (length body)"
    using D room by (simp add: q1_def unat_word_ariths sz)
  have tail: "seg (Suc ?w) (Suc ?w + length body) (blk q1) = body"
    using body by (simp add: q1_def seg_update_before)
  have "seg ?w (?w + Suc (length body)) (blk q1) = ConvertByteOrder E h # body"
    using room tail seg_Cons [of ?w "?w + Suc (length body)" "blk q1"] by (simp add: q1_def)
  then have "live q1 = live q @ enc_msg E (h, body)"
    using D seg_append [of ?r ?w "?w + Suc (length body)" "blk q1"]
    by (simp add: live_def w1) (simp add: q1_def seg_update_after)
  then have "ptcpq_inv Bytes E q1" "pending E q1 = pending E q @ [(h, body)]"
    using D w1 wf room
    by (auto intro!: ptcpq_invI [where ms = "pending E q @ [(h, body)]"] simp: q1_def)
  then show thesis
    using that [OF eq] by (simp add: same_session_def h_def q1_def)
qed

lemma post_null:
  assumes "ptcpq_inv Bytes E q" and "ptcpq_free q < msg_blocks us"
  shows "ptcpq_post Bytes E us t body q = ok (False, q)"
  using Alloc_null_iff(2) [OF assms] by (simp add: ptcpq_post_def)

lemma post_ok:
  assumes inv: "ptcpq_inv Bytes E q" and us: "unat us \<le> 65527"
    and room: "msg_blocks us \<le> ptcpq_free q" and body: "msg_blocks us = Suc (length body)"
  obtains q1 where "ptcpq_post Bytes E us t body q = ok (True, q1)" "ptcpq_inv Bytes E q1"
    "pending E q1 = pending E q @
       [(\<lparr>hdr_size = us + 8, msg_type = t, ack_seq = ack_seq_num q\<rparr>, body)]"
    "same_session q q1"
proof -
  obtain q1 where q1: "ptcpq_Alloc Bytes us q = ok (Some (write_idx q1), q1)"
      "ptcpq_inv Bytes E q1" "pending E q1 = pending E q" "same_session q q1"
      "unat (write_idx q1) + msg_blocks us \<le> length (blk q1)"
      "hdr_size (blk q1 ! unat (write_idx q1)) = us + 8"
    by (rule Alloc_ok [OF inv us room])
  obtain q2 where q2: "ptcpq_fill t body q1 = ok q2" "ptcpq_inv Bytes E q2"
      "pending E q2 = pending E q1" "same_session q1 q2" "write_idx q2 = write_idx q1"
      "hdr_size (blk q2 ! unat (write_idx q2)) = hdr_size (blk q1 ! unat (write_idx q1))"
      "msg_type (blk q2 ! unat (write_idx q2)) = t"
      "seg (Suc (unat (write_idx q2))) (Suc (unat (write_idx q2)) + length body) (blk q2) = body"
    by (rule fill_ok [OF q1(2) q1(5) [unfolded body]])
  have len: "length (blk q2) = length (blk q1)" using q2(4) by (simp add: same_session_def)
  have n: "nblk (blk q2 ! unat (write_idx q2)) = Suc (length body)"
    using body by (simp add: nblk_blk_size q2(6) q1(6) msg_blocks_def)
  obtain q3 where q3: "ptcpq_Push E q2 = ok q3" "ptcpq_inv Bytes E q3"
      "pending E q3 = pending E q2 @
         [((blk q2 ! unat (write_idx q2))\<lparr>ack_seq := ack_seq_num q2\<rparr>, body)]" "same_session q2 q3"
    by (rule Push_ok [OF q2(2) _ n q2(8)]) (use q1(5) body len q2(5) in simp)
  have h: "(blk q2 ! unat (write_idx q2))\<lparr>ack_seq := ack_seq_num q2\<rparr> =
      \<lparr>hdr_size = us + 8, msg_type = t, ack_seq = ack_seq_num q\<rparr>"
    using q2(6,7) q1(4,6) q2(4) by (simp add: same_session_def)
  have "same_session q q3"
    using q1(4) q2(4) q3(4) by (blast intro: same_session_trans)
  moreover have "ptcpq_post Bytes E us t body q = ok (True, q3)"
    using q1(1) q2(1) q3(1) by (simp add: ptcpq_post_def)
  ultimately show thesis
    using that q3(2,3) q2(3) q1(3) h by metis
qed

section \<open>Acknowledging\<close>

text \<open>
  One turn of the loop drops the oldest pending message.  \<open>advance\<close> is the state after
  \<open>k\<close> turns.
\<close>

definition advance :: "pmsg list \<Rightarrow> nat \<Rightarrow> ptcpq \<Rightarrow> ptcpq" where
  "advance ms k q = q\<lparr>read_idx := read_idx q + of_nat (nblks (take k ms)),
     read_seq_num := read_seq_num q + of_nat k\<rparr>"

text \<open>
  The loop does not touch the send index, which may fall behind the read index until
  \<open>LoginAck\<close> sets it; so its lemmas use the part of the invariant without that index.
\<close>

definition well_stored :: "byte_order \<Rightarrow> ptcpq \<Rightarrow> pmsg list \<Rightarrow> bool" where
  "well_stored E q ms \<longleftrightarrow>
     length (blk q) < 536870912 \<and> unat (read_idx q) \<le> unat (write_idx q) \<and>
     unat (write_idx q) \<le> length (blk q) \<and> live q = enc_msgs E ms \<and> list_all wf_msg ms"

lemma ptcpq_inv_well_stored: "ptcpq_inv Bytes E q \<Longrightarrow> well_stored E q (pending E q)"
  using ptcpq_invD [of Bytes E q] ptcpq_bounds [of Bytes E q] by (simp add: well_stored_def)

lemma well_stored_pending: "well_stored E q ms \<Longrightarrow> pending E q = ms"
  by (simp add: well_stored_def pending_def parse_enc)

lemma well_stored_nblks:
  assumes "well_stored E q ms"
  shows "nblks ms = unat (write_idx q) - unat (read_idx q)"
proof -
  have "length (live q) = nblks ms" using assms by (simp add: well_stored_def)
  moreover have "length (live q) = unat (write_idx q) - unat (read_idx q)"
  proof -
    have "unat (read_idx q) \<le> unat (write_idx q)" "unat (write_idx q) \<le> length (blk q)"
      using assms by (simp_all add: well_stored_def)
    then show ?thesis unfolding live_def by simp
  qed
  ultimately show ?thesis by simp
qed

lemma ack_turn:
  assumes st: "well_stored E q ((h, body) # ms)"
  defines "q1 \<equiv> q\<lparr>read_idx := read_idx q + blk_size (hdr_size h), read_seq_num := read_seq_num q + 1\<rparr>"
  shows "unat (read_idx q) < length (blk q)"
    and "Convert16 E (hdr_size (blk q ! unat (read_idx q))) = hdr_size h"
    and "unat (read_idx q1) = unat (read_idx q) + nblk h"
    and "well_stored E q1 ms"
proof -
  let ?r = "unat (read_idx q)" and ?w = "unat (write_idx q)"
  have live: "live q = ConvertByteOrder E h # body @ enc_msgs E ms" and wf: "nblk h = Suc (length body)"
    and le: "?r \<le> ?w" "?w \<le> length (blk q)" and small: "length (blk q) < 536870912"
    using st by (simp_all add: well_stored_def)
  have "?r < ?w"
    using live by (metis live_def list.distinct(1) not_le seg_empty)
  then show r: "?r < length (blk q)" using le by linarith
  have "blk q ! ?r = ConvertByteOrder E h"
    using live seg_Cons [of ?r ?w "blk q"] \<open>?r < ?w\<close> r by (simp add: live_def)
  then show "Convert16 E (hdr_size (blk q ! ?r)) = hdr_size h"
    by (simp add: conv16.conv_conv)
  have "nblks ((h, body) # ms) = ?w - ?r" by (rule well_stored_nblks [OF st])
  then have n: "nblk h \<le> ?w - ?r" by simp
  then show r1: "unat (read_idx q1) = ?r + nblk h"
    using \<open>?r < ?w\<close> le small by (simp add: q1_def unat_word_ariths nblk_blk_size)
  have "live q1 = drop (nblk h) (live q)"
    by (simp add: live_def r1 drop_seg) (simp add: q1_def)
  then show "well_stored E q1 ms"
    using live wf st r1 n \<open>?r < ?w\<close> by (simp add: well_stored_def) (simp add: q1_def)
qed

lemma of_nat_nblk: "of_nat (nblk h) = blk_size (hdr_size h)"
  by (simp add: nblk_blk_size)

lemma of_nat_u32_eq_0_iff: "n < 4294967296 \<Longrightarrow> (of_nat n :: u32) = 0 \<longleftrightarrow> n = 0"
proof -
  assume n: "n < 4294967296"
  have "(of_nat n :: u32) = 0 \<longleftrightarrow> unat (of_nat n :: u32) = 0" by (simp only: unat_eq_0)
  with n show ?thesis by simp
qed

lemma advance_Suc:
  "advance ((h, body) # ms) (Suc k) q =
     advance ms k (q\<lparr>read_idx := read_idx q + blk_size (hdr_size h),
                    read_seq_num := read_seq_num q + 1\<rparr>)"
  by (simp add: advance_def of_nat_nblk add.assoc)

lemma ack_loop_ok:
  assumes "well_stored E q ms" and "k < length ms" and "Suc k < 4294967296"
  shows "ptcpq_ack_loop E (read_seq_num q + of_nat (Suc k)) q = ok (advance ms (Suc k) q) \<and>
    well_stored E (advance ms (Suc k) q) (drop (Suc k) ms) \<and>
    unat (read_idx (advance ms (Suc k) q)) = unat (read_idx q) + nblks (take (Suc k) ms)"
  using assms
proof (induction k arbitrary: q ms)
  case 0
  then obtain h body ns where ms: "ms = (h, body) # ns" by (cases ms) auto
  note T = ack_turn [OF "0.prems"(1) [unfolded ms]]
  show ?case
    using T unfolding ms advance_Suc
    by (subst ptcpq_ack_loop.simps) (simp add: Let_def, simp add: advance_def)
next
  case (Suc k)
  then obtain h body ns where ms: "ms = (h, body) # ns" by (cases ms) auto
  define q1 where
    "q1 = q\<lparr>read_idx := read_idx q + blk_size (hdr_size h), read_seq_num := read_seq_num q + 1\<rparr>"
  note T = ack_turn [OF Suc.prems(1) [unfolded ms], folded q1_def]
  have IH: "ptcpq_ack_loop E (read_seq_num q1 + of_nat (Suc k)) q1 = ok (advance ns (Suc k) q1) \<and>
    well_stored E (advance ns (Suc k) q1) (drop (Suc k) ns) \<and>
    unat (read_idx (advance ns (Suc k) q1)) = unat (read_idx q1) + nblks (take (Suc k) ns)"
    by (rule Suc.IH [OF T(4)]) (use Suc.prems ms in simp_all)
  have ack: "read_seq_num q1 + of_nat (Suc k) = read_seq_num q + of_nat (Suc (Suc k))"
    by (simp add: q1_def)
  have "(of_nat (Suc k) :: u32) \<noteq> 0"
    using Suc.prems(3) of_nat_u32_eq_0_iff [of "Suc k"] by linarith
  then have ne: "read_seq_num q1 \<noteq> read_seq_num q + of_nat (Suc (Suc k))"
    unfolding ack [symmetric] by simp
  have "ptcpq_ack_loop E (read_seq_num q + of_nat (Suc (Suc k))) q =
      ptcpq_ack_loop E (read_seq_num q1 + of_nat (Suc k)) q1"
    using T(1,2) ne unfolding ack
    by (subst ptcpq_ack_loop.simps) (simp add: Let_def q1_def)
  then show ?case
    using IH T(3) unfolding ms advance_Suc q1_def [symmetric] by simp
qed

text \<open>
  \<open>Ack\<close> ignores a number that is not newer than the oldest pending message, and
  otherwise drops the messages below it.
\<close>

lemma Ack_ignored:
  assumes "ack = read_seq_num q \<or> 2147483648 \<le> seq_dist (read_seq_num q) ack"
  shows "ptcpq_Ack E ack q = ok q"
  using assms sint_u32_pos [of "ack - read_seq_num q"]
  by (auto simp: ptcpq_Ack_def seq_dist_def)

definition same_blocks :: "ptcpq \<Rightarrow> ptcpq \<Rightarrow> bool" where
  "same_blocks q q1 \<longleftrightarrow> blk q1 = blk q \<and> ack_seq_num q1 = ack_seq_num q"

lemma Ack_ok:
  assumes st: "well_stored E q ms" and k: "seq_dist (read_seq_num q) ack = Suc k"
    and len: "k < length ms" and half: "Suc k < 2147483648"
  obtains q1 where "ptcpq_Ack E ack q = ok q1" "well_stored E q1 (drop (Suc k) ms)"
    "read_seq_num q1 = ack" "same_blocks q q1"
    "send_idx q1 = send_idx q \<and> write_idx q1 = write_idx q \<and>
       unat (read_idx q1) = unat (read_idx q) + nblks (take (Suc k) ms) \<or>
     send_idx q1 = 0 \<and> write_idx q1 = 0 \<and> read_idx q1 = 0"
proof -
  let ?q = "advance ms (Suc k) q"
  have ack: "ack = read_seq_num q + of_nat (Suc k)"
    using seq_add_dist [of "read_seq_num q" ack] by (simp only: k)
  have L: "ptcpq_ack_loop E ack q = ok ?q" "well_stored E ?q (drop (Suc k) ms)"
      "unat (read_idx ?q) = unat (read_idx q) + nblks (take (Suc k) ms)"
    using ack_loop_ok [OF st len] half unfolding ack by simp_all
  have pos: "\<not> sint (ack - read_seq_num q) \<le> 0"
    using k half sint_u32_pos [of "ack - read_seq_num q"] by (auto simp: seq_dist_def)
  have frame: "read_seq_num ?q = ack" "same_blocks q ?q" "send_idx ?q = send_idx q"
      "write_idx ?q = write_idx q"
    by (simp_all add: advance_def ack same_blocks_def)
  show thesis
  proof (cases "read_idx ?q = write_idx ?q")
    case False
    then have "ptcpq_Ack E ack q = ok ?q" using pos L(1) by (simp add: ptcpq_Ack_def)
    then show thesis using that L frame by blast
  next
    case True
    let ?q0 = "?q\<lparr>read_idx := 0, write_idx := 0, send_idx := 0\<rparr>"
    have "ptcpq_Ack E ack q = ok ?q0" using True pos L(1) by (simp add: ptcpq_Ack_def)
    moreover have "drop (Suc k) ms = []"
    proof -
      have "nblks (drop (Suc k) ms) = 0"
        using well_stored_nblks [OF L(2)] True by simp
      moreover have "list_all wf_msg (drop (Suc k) ms)" using L(2) by (simp add: well_stored_def)
      ultimately show ?thesis by (cases "drop (Suc k) ms") auto
    qed
    then have "well_stored E ?q0 (drop (Suc k) ms)"
      using L(2) by (simp add: well_stored_def live_def)
    ultimately show thesis
      using that frame by (simp add: same_blocks_def)
  qed
qed

text \<open>
  During a connection an acknowledgement covers messages that have been sent, and the whole
  invariant is kept.
\<close>

lemma Ack_inv:
  assumes inv: "ptcpq_inv Bytes E q" and k: "seq_dist (read_seq_num q) ack = k"
    and len: "k \<le> length (pending E q)" and half: "k < 2147483648"
    and sent: "unat (read_idx q) + nblks (take k (pending E q)) \<le> unat (send_idx q)"
  obtains q1 where "ptcpq_Ack E ack q = ok q1" "ptcpq_inv Bytes E q1"
    "pending E q1 = drop k (pending E q)" "read_seq_num q1 = ack" "same_blocks q q1"
proof (cases k)
  case 0
  then have "ack = read_seq_num q" using k by simp
  then have "ptcpq_Ack E ack q = ok q" by (intro Ack_ignored) simp
  then show thesis
    using that inv 0 \<open>ack = read_seq_num q\<close> by (simp add: same_blocks_def)
next
  case (Suc j)
  note st = ptcpq_inv_well_stored [OF inv] and D = ptcpq_invD [OF inv]
  obtain q1 where q1: "ptcpq_Ack E ack q = ok q1" "well_stored E q1 (drop (Suc j) (pending E q))"
      "read_seq_num q1 = ack" "same_blocks q q1"
      "send_idx q1 = send_idx q \<and> write_idx q1 = write_idx q \<and>
         unat (read_idx q1) = unat (read_idx q) + nblks (take (Suc j) (pending E q)) \<or>
       send_idx q1 = 0 \<and> write_idx q1 = 0 \<and> read_idx q1 = 0"
    by (rule Ack_ok [OF st]) (use k len half Suc in auto)
  have "ptcpq_inv Bytes E q1"
    by (rule ptcpq_invI(1) [where ms = "drop k (pending E q)"])
       (use q1 D sent Suc in \<open>auto simp: well_stored_def same_blocks_def\<close>)
  then show thesis
    using that q1 Suc by (simp add: well_stored_pending)
qed

text \<open>
  At login the peer's number is checked against the queue first, so it lies in range; what
  it has not acknowledged is marked unsent again.
\<close>

lemma LoginAck_ok:
  assumes inv: "ptcpq_inv Bytes E q" and k: "seq_dist (read_seq_num q) ack = k"
    and len: "k \<le> length (pending E q)" and half: "k < 2147483648"
  obtains q1 where "ptcpq_LoginAck E ack q = ok q1" "ptcpq_inv Bytes E q1"
    "pending E q1 = drop k (pending E q)" "read_seq_num q1 = ack" "same_blocks q q1"
    "send_idx q1 = read_idx q1"
proof -
  note st = ptcpq_inv_well_stored [OF inv] and D = ptcpq_invD [OF inv]
  obtain q0 where q0: "ptcpq_Ack E ack q = ok q0" "well_stored E q0 (drop k (pending E q))"
      "read_seq_num q0 = ack" "same_blocks q q0"
  proof (cases k)
    case 0
    then have "ack = read_seq_num q" using k by simp
    then have "ptcpq_Ack E ack q = ok q" by (intro Ack_ignored) simp
    with \<open>ack = read_seq_num q\<close> 0 st that show thesis by (simp add: same_blocks_def)
  next
    case (Suc j)
    show thesis
      by (rule Ack_ok [OF st]) (use k len half Suc that in auto)
  qed
  define q1 where "q1 = q0\<lparr>send_idx := read_idx q0\<rparr>"
  have eq: "ptcpq_LoginAck E ack q = ok q1"
    using q0 by (simp add: ptcpq_LoginAck_def q1_def)
  have st1: "well_stored E q1 (drop k (pending E q))"
    using q0(2) by (simp add: well_stored_def q1_def live_def)
  have "ptcpq_inv Bytes E q1"
    by (rule ptcpq_invI(1) [where ms = "drop k (pending E q)"])
       (use st1 q0 D in \<open>auto simp: well_stored_def same_blocks_def q1_def\<close>)
  then show thesis
    using that [OF eq] q0 well_stored_pending [OF st1] by (simp add: same_blocks_def q1_def)
qed

lemma Sendout_inv:
  assumes inv: "ptcpq_inv Bytes E q" and "n \<le> unat (write_idx q) - unat (send_idx q)"
  shows "ptcpq_inv Bytes E (ptcpq_Sendout (int n) q)"
    and "pending E (ptcpq_Sendout (int n) q) = pending E q"
    and "unat (send_idx (ptcpq_Sendout (int n) q)) = unat (send_idx q) + n"
proof -
  note D = ptcpq_invD [OF inv] ptcpq_bounds [OF inv]
  have n: "unat (send_idx q + of_nat n) = unat (send_idx q) + n"
    using assms(2) D by (simp add: unat_word_ariths unat_of_nat)
  have "live (ptcpq_Sendout (int n) q) = live q"
    by (simp add: live_def ptcpq_Sendout_def)
  then show "ptcpq_inv Bytes E (ptcpq_Sendout (int n) q)"
    and "pending E (ptcpq_Sendout (int n) q) = pending E q"
    and "unat (send_idx (ptcpq_Sendout (int n) q)) = unat (send_idx q) + n"
    using D assms(2) by (auto intro!: ptcpq_invI simp: ptcpq_Sendout_def n)
qed

lemma GetSendable_ok:
  assumes inv: "ptcpq_inv Bytes E q"
  shows "ptcpq_GetSendable q = (int (unat (write_idx q) - unat (send_idx q)), send_idx q)"
proof -
  note D = ptcpq_invD [OF inv] ptcpq_bounds [OF inv]
  have d: "unat (write_idx q - send_idx q) = unat (write_idx q) - unat (send_idx q)"
    using D by (simp add: unat_diff)
  then have "unat (write_idx q - send_idx q) < 2147483648" using D by linarith
  then show ?thesis
    unfolding ptcpq_GetSendable_def sint_u32 d [symmetric] by simp
qed

section \<open>The sanity check\<close>

definition acks_ok :: "u32 \<Rightarrow> pmsg list \<Rightarrow> bool" where
  "acks_ok my_ack ms \<longleftrightarrow> list_all (\<lambda>m. 0 \<le> sint (my_ack - ack_seq (fst m))) ms"

lemma sanity_loop_ok:
  assumes "seg (unat idx) (unat (write_idx q)) (blk q) = enc_msgs E ms" "list_all wf_msg ms"
    and "unat idx \<le> unat (write_idx q)" "unat (write_idx q) \<le> length (blk q)"
    and "length (blk q) < 536870912"
  shows "ptcpq_sanity_loop E q idx e =
    Some (ok (if acks_ok (ack_seq_num q) ms then Some (read_seq_num q, e + of_nat (length ms))
              else None))"
  using assms
proof (induction ms arbitrary: idx e)
  case Nil
  have "length (seg (unat idx) (unat (write_idx q)) (blk q)) = unat (write_idx q) - unat idx"
    using Nil.prems(4) by simp
  then have "unat idx = unat (write_idx q)" using Nil.prems(1,3) by simp
  then have "idx = write_idx q" by (simp add: word_unat_eq_iff)
  then show ?case
    by (subst ptcpq_sanity_loop.simps) (simp add: acks_ok_def)
next
  case (Cons m ms)
  obtain h body where m: "m = (h, body)" by (cases m)
  let ?i = "unat idx" and ?w = "unat (write_idx q)"
  have len: "length (seg ?i ?w (blk q)) = ?w - ?i"
    using Cons.prems(4) by simp
  have wf: "nblk h = Suc (length body)" using Cons.prems(2) m by simp
  have n: "?i + nblk h \<le> ?w" and lt: "?i < ?w"
    using len wf Cons.prems(2,3) unfolding Cons.prems(1) m by auto
  have hd: "blk q ! ?i = ConvertByteOrder E h"
    using Cons.prems(1,4) lt m seg_Cons [of ?i ?w "blk q"] by simp
  from n have i1: "unat (idx + blk_size (hdr_size h)) = ?i + nblk h"
    using Cons.prems by (simp add: unat_word_ariths nblk_blk_size)
  have "seg (?i + nblk h) ?w (blk q) = drop (nblk h) (seg ?i ?w (blk q))"
    by (simp add: drop_seg)
  also have "\<dots> = enc_msgs E ms" using Cons.prems(1) m wf by simp
  finally have IH: "ptcpq_sanity_loop E q (idx + blk_size (hdr_size h)) (e + 1) =
    Some (ok (if acks_ok (ack_seq_num q) ms
              then Some (read_seq_num q, e + 1 + of_nat (length ms)) else None))"
    using Cons.prems n by (intro Cons.IH) (simp_all add: i1)
  show ?case
    using lt Cons.prems(4) IH m
    by (subst ptcpq_sanity_loop.simps)
       (auto simp: word_less_nat_alt hd hdr.conv_conv acks_ok_def add.assoc Let_def not_less)
qed

text \<open>
  A header of size 0 that the scan reaches keeps it where it is for ever; every other
  header advances it.
\<close>

definition stuck_at :: "byte_order \<Rightarrow> ptcpq \<Rightarrow> u32 \<Rightarrow> bool" where
  "stuck_at E q idx \<longleftrightarrow>
     idx < write_idx q \<and> unat idx < length (blk q) \<and> hdr_size (blk q ! unat idx) = 0 \<and>
     0 \<le> sint (ack_seq_num q - Convert32 E (ack_seq (blk q ! unat idx)))"

lemma blk_size_0 [simp]: "blk_size 0 = 0"
proof -
  have "unat (blk_size 0) = 0" by (simp add: unat_blk_size)
  then show ?thesis by (simp add: unat_eq_0)
qed

lemma sanity_loop_not_stuck:
  assumes "ptcpq_sanity_loop E q idx e = Some r"
  shows "\<not> stuck_at E q idx"
proof (rule ptcpq_sanity_loop.raw_induct
    [where P = "\<lambda>E q idx e r. \<not> stuck_at E q idx", OF _ assms])
  fix f E q idx e r
  assume IH: "\<And>E q idx e r. f E q idx e = Some r \<Longrightarrow> \<not> stuck_at E q idx"
    and eq: "(if idx < write_idx q then
        if unat idx < length (blk q) then
          let header = ConvertByteOrder E (blk q ! unat idx) in
          if sint (ack_seq_num q - ack_seq header) < 0 then Some (ok None)
          else f E q (idx + blk_size (hdr_size header)) (e + 1)
        else Some (Inl OutOfBounds)
      else if idx \<noteq> write_idx q then Some (ok None)
      else Some (ok (Some (read_seq_num q, e)))) = Some r"
  show "\<not> stuck_at E q idx"
  proof
    assume "stuck_at E q idx"
    with eq have "f E q idx (e + 1) = Some r"
      by (simp add: stuck_at_def Let_def)
    then have "\<not> stuck_at E q idx" by (rule IH)
    with \<open>stuck_at E q idx\<close> show False by simp
  qed
qed

lemma sanity_loop_sound:
  assumes "ptcpq_sanity_loop E q idx e = Some r"
  shows "\<forall>s e'. r = ok (Some (s, e')) \<longrightarrow> unat (write_idx q) \<le> length (blk q) \<longrightarrow>
    length (blk q) < 536870912 \<longrightarrow>
    (\<exists>ms. unat idx \<le> unat (write_idx q) \<and>
       seg (unat idx) (unat (write_idx q)) (blk q) = enc_msgs E ms \<and> list_all wf_msg ms \<and>
       acks_ok (ack_seq_num q) ms \<and> s = read_seq_num q \<and> e' = e + of_nat (length ms)) \<and>
    \<not> stuck_at E q idx" (is "?P E q idx e r")
proof (rule ptcpq_sanity_loop.raw_induct [where P = ?P, OF _ assms])
  fix f E q idx e r
  assume IH: "\<And>E q idx e r. f E q idx e = Some r \<Longrightarrow> ?P E q idx e r"
    and eq: "(if idx < write_idx q then
        if unat idx < length (blk q) then
          let header = ConvertByteOrder E (blk q ! unat idx) in
          if sint (ack_seq_num q - ack_seq header) < 0 then Some (ok None)
          else f E q (idx + blk_size (hdr_size header)) (e + 1)
        else Some (Inl OutOfBounds)
      else if idx \<noteq> write_idx q then Some (ok None)
      else Some (ok (Some (read_seq_num q, e)))) = Some r"
  show "?P E q idx e r"
  proof (intro allI impI)
    fix s e' assume r: "r = ok (Some (s, e'))"
      and w: "unat (write_idx q) \<le> length (blk q)" and small: "length (blk q) < 536870912"
    let ?i = "unat idx" and ?w = "unat (write_idx q)"
    define h where "h = ConvertByteOrder E (blk q ! ?i)"
    show "(\<exists>ms. ?i \<le> ?w \<and> seg ?i ?w (blk q) = enc_msgs E ms \<and> list_all wf_msg ms \<and>
       acks_ok (ack_seq_num q) ms \<and> s = read_seq_num q \<and> e' = e + of_nat (length ms)) \<and>
      \<not> stuck_at E q idx"
    proof (cases "idx < write_idx q")
      case False
      with eq r have "idx = write_idx q" "s = read_seq_num q" "e' = e"
        by (auto split: if_splits)
      then show ?thesis
        by (auto intro!: exI [of _ "[]"] simp: acks_ok_def stuck_at_def)
    next
      case True
      then have lt: "?i < ?w" "?i < length (blk q)" using w by (simp_all add: word_less_nat_alt)
      with True eq r have ack: "0 \<le> sint (ack_seq_num q - ack_seq h)"
        and rec: "f E q (idx + blk_size (hdr_size h)) (e + 1) = Some (ok (Some (s, e')))"
        by (auto simp: Let_def h_def split: if_splits)
      have i1: "unat (idx + blk_size (hdr_size h)) = ?i + nblk h"
        using lt w small nblk_le [of h] by (simp add: unat_word_ariths nblk_blk_size)
      obtain ms where ms: "?i + nblk h \<le> ?w" "seg (?i + nblk h) ?w (blk q) = enc_msgs E ms"
          "list_all wf_msg ms" "acks_ok (ack_seq_num q) ms" "s = read_seq_num q"
          "e' = e + 1 + of_nat (length ms)" "\<not> stuck_at E q (idx + blk_size (hdr_size h))"
        using IH [OF rec] w small unfolding i1 by blast
      have n0: "nblk h \<noteq> 0"
      proof
        assume "nblk h = 0"
        then have "hdr_size (blk q ! ?i) = 0" by (simp add: nblk_eq_0_iff h_def)
        then have "stuck_at E q idx" using True lt ack by (simp add: stuck_at_def h_def)
        moreover have "hdr_size h = 0" using \<open>nblk h = 0\<close> by (simp add: nblk_eq_0_iff)
        ultimately show False using ms(7) by simp
      qed
      define body where "body = seg (Suc ?i) (?i + nblk h) (blk q)"
      have wf: "wf_msg (h, body)" using n0 ms(1) w lt by (simp add: body_def)
      have "seg ?i ?w (blk q) = blk q ! ?i # body @ enc_msgs E ms"
        using seg_Cons [of ?i "?i + nblk h" "blk q"] seg_append [of ?i "?i + nblk h" ?w "blk q"]
          ms(1,2) n0 lt by (simp add: body_def)
      also have "\<dots> = enc_msgs E ((h, body) # ms)"
        by (simp add: h_def hdr.conv_conv)
      finally have "seg ?i ?w (blk q) = enc_msgs E ((h, body) # ms)" .
      moreover have "\<not> stuck_at E q idx"
        using n0 by (auto simp: stuck_at_def nblk_eq_0_iff h_def)
      ultimately show ?thesis
        using ms wf ack lt by (intro conjI exI [of _ "(h, body) # ms"]) (simp_all add: acks_ok_def)
    qed
  qed
qed

text \<open>Where no header of the array has size 0, the scan ends.\<close>

lemma sanity_loop_ends:
  assumes "\<forall>b \<in> set (blk q). hdr_size b \<noteq> 0" and "length (blk q) < 536870912"
  shows "\<exists>r. ptcpq_sanity_loop E q idx e = Some r"
proof (induction "length (blk q) - unat idx" arbitrary: idx e rule: less_induct)
  case less
  show ?case
  proof (cases "idx < write_idx q \<and> unat idx < length (blk q)")
    case False
    then show ?thesis by (subst ptcpq_sanity_loop.simps) auto
  next
    case True
    define h where "h = ConvertByteOrder E (blk q ! unat idx)"
    have "hdr_size (blk q ! unat idx) \<noteq> 0" using assms(1) True by simp
    then have "nblk h \<noteq> 0" by (simp add: nblk_eq_0_iff h_def)
    moreover have "unat (idx + blk_size (hdr_size h)) = unat idx + nblk h"
      using True assms(2) nblk_le [of h] by (simp add: unat_word_ariths nblk_blk_size)
    moreover from calculation have
      "length (blk q) - unat (idx + blk_size (hdr_size h)) < length (blk q) - unat idx"
      using True by linarith
    ultimately obtain r where "ptcpq_sanity_loop E q (idx + blk_size (hdr_size h)) (e + 1) = Some r"
      using less [of "idx + blk_size (hdr_size h)" "e + 1"] by auto
    then show ?thesis
      using True by (subst ptcpq_sanity_loop.simps) (auto simp: Let_def h_def)
  qed
qed

section \<open>The interface of a persistent queue\<close>

text \<open>
  What the connection layer relies on: a queue of messages that are numbered consecutively
  from \<open>base\<close>; posting appends, acknowledging up to \<open>base + k\<close> drops \<open>k\<close> messages.
\<close>

datatype 'm qevent = Posted 'm | Acked nat

inductive qrun ::
  "('m \<Rightarrow> 'q \<Rightarrow> 'q option) \<Rightarrow> (u32 \<Rightarrow> 'q \<Rightarrow> 'q option) \<Rightarrow> ('q \<Rightarrow> 'm list) \<Rightarrow> ('q \<Rightarrow> u32) \<Rightarrow>
   'q \<Rightarrow> 'm qevent list \<Rightarrow> 'q \<Rightarrow> bool"
  for post ack msgs base q
where
  qrun_nil: "qrun post ack msgs base q [] q"
| qrun_post: "qrun post ack msgs base q es q1 \<Longrightarrow> post m q1 = Some q2 \<Longrightarrow>
     qrun post ack msgs base q (es @ [Posted m]) q2"
| qrun_ack: "qrun post ack msgs base q es q1 \<Longrightarrow> k \<le> length (msgs q1) \<Longrightarrow> k < 2147483648 \<Longrightarrow>
     ack (base q1 + of_nat k) q1 = Some q2 \<Longrightarrow>
     qrun post ack msgs base q (es @ [Acked k]) q2"

fun posted :: "'m qevent list \<Rightarrow> 'm list" where
  "posted [] = []"
| "posted (Posted m # es) = m # posted es"
| "posted (Acked k # es) = posted es"

fun acked :: "'m qevent list \<Rightarrow> nat" where
  "acked [] = 0"
| "acked (Posted m # es) = acked es"
| "acked (Acked k # es) = k + acked es"

lemma posted_append [simp]: "posted (es @ fs) = posted es @ posted fs"
  by (induction es rule: posted.induct) auto

lemma acked_append [simp]: "acked (es @ fs) = acked es + acked fs"
  by (induction es rule: acked.induct) auto

locale persistent_queue =
  fixes inv :: "'q \<Rightarrow> bool" and msgs :: "'q \<Rightarrow> 'm list" and base :: "'q \<Rightarrow> u32"
    and post :: "'m \<Rightarrow> 'q \<Rightarrow> 'q option" and ack :: "u32 \<Rightarrow> 'q \<Rightarrow> 'q option"
  assumes post_inv: "inv q \<Longrightarrow> post m q = Some q1 \<Longrightarrow> inv q1"
    and post_msgs: "inv q \<Longrightarrow> post m q = Some q1 \<Longrightarrow> msgs q1 = msgs q @ [m]"
    and post_base: "inv q \<Longrightarrow> post m q = Some q1 \<Longrightarrow> base q1 = base q"
    and ack_total: "inv q \<Longrightarrow> k \<le> length (msgs q) \<Longrightarrow> k < 2147483648 \<Longrightarrow>
      \<exists>q1. ack (base q + of_nat k) q = Some q1 \<and> inv q1 \<and> msgs q1 = drop k (msgs q) \<and>
        base q1 = base q + of_nat k"
begin

lemma ack_drop:
  assumes "inv q" "k \<le> length (msgs q)" "k < 2147483648" "ack (base q + of_nat k) q = Some q1"
  shows "inv q1" and "msgs q1 = drop k (msgs q)" and "base q1 = base q + of_nat k"
  using ack_total [OF assms(1-3)] assms(4) by auto

text \<open>
  After any run, the messages in the queue are those posted and not acknowledged, in the
  order they were posted, and their numbers go on from where the acknowledgements stopped.
\<close>

lemma run_history:
  assumes "qrun post ack msgs base q es q1" and "inv q"
  shows "inv q1 \<and> msgs q1 = drop (acked es) (msgs q @ posted es) \<and>
    base q1 = base q + of_nat (acked es) \<and> acked es \<le> length (msgs q) + length (posted es)"
  using assms
proof (induction rule: qrun.induct)
  case (qrun_post es q1 m q2)
  then show ?case using post_inv post_msgs post_base by fastforce
next
  case (qrun_ack es q1 k q2)
  let ?all = "msgs q @ posted es"
  have IH: "inv q1" "msgs q1 = drop (acked es) ?all" "base q1 = base q + of_nat (acked es)"
      "acked es \<le> length ?all"
    using qrun_ack.IH [OF qrun_ack.prems] by simp_all
  note D = ack_drop [OF IH(1) qrun_ack(2-4)]
  have "msgs q2 = drop (acked es + k) ?all"
    using D(2) by (simp only: IH(2) drop_drop add.commute)
  moreover have "acked es + k \<le> length ?all"
    using qrun_ack(2) IH(4) unfolding IH(2) length_drop by linarith
  ultimately show ?case
    using D(1,3) IH(3) by (simp add: ac_simps del: drop_append)
qed simp

lemma run_next_seq:
  assumes "qrun post ack msgs base q es q1" and "inv q"
  shows "base q1 + of_nat (length (msgs q1)) =
    base q + of_nat (length (msgs q) + length (posted es))"
proof -
  note H = run_history [OF assms]
  then have "length (msgs q1) + acked es = length (msgs q) + length (posted es)" by auto
  then have "(of_nat (length (msgs q1)) + of_nat (acked es) :: u32) =
      of_nat (length (msgs q) + length (posted es))"
    by (simp only: of_nat_add [symmetric])
  then show ?thesis
    using H by (simp add: ac_simps)
qed

end

text \<open>
  The code's queue implements it: a message is the size the user asked for, the type and
  the body; acknowledging is \<open>LoginAck\<close>.
\<close>

type_synonym umsg = "u16 \<times> u16 \<times> msg_header list"

definition payload :: "pmsg \<Rightarrow> umsg" where
  "payload m = (hdr_size (fst m) - 8, msg_type (fst m), snd m)"

definition ptcpq_try_post :: "u32 \<Rightarrow> byte_order \<Rightarrow> umsg \<Rightarrow> ptcpq \<Rightarrow> ptcpq option" where
  "ptcpq_try_post Bytes E m q =
     (case m of (us, t, body) \<Rightarrow>
        if unat us \<le> 65527 \<and> Suc (length body) = msg_blocks us then
          (case ptcpq_post Bytes E us t body q of Inr (True, q1) \<Rightarrow> Some q1 | _ \<Rightarrow> None)
        else None)"

definition ptcpq_login_ack :: "byte_order \<Rightarrow> u32 \<Rightarrow> ptcpq \<Rightarrow> ptcpq option" where
  "ptcpq_login_ack E ack q = (case ptcpq_LoginAck E ack q of Inl _ \<Rightarrow> None | Inr q1 \<Rightarrow> Some q1)"

lemma try_post_cases:
  assumes inv: "ptcpq_inv Bytes E q" and eq: "ptcpq_try_post Bytes E m q = Some q1"
  shows "ptcpq_inv Bytes E q1" and "map payload (pending E q1) = map payload (pending E q) @ [m]"
    and "read_seq_num q1 = read_seq_num q"
proof -
  obtain us t body where m: "m = (us, t, body)" by (cases m)
  have us: "unat us \<le> 65527" and body: "msg_blocks us = Suc (length body)"
    and post: "ptcpq_post Bytes E us t body q = ok (True, q1)"
    using eq by (auto simp: m ptcpq_try_post_def split: if_splits sum.splits prod.splits bool.splits)
  have room: "msg_blocks us \<le> ptcpq_free q"
    using post_null [OF inv, of us t body] post by (cases "ptcpq_free q < msg_blocks us") auto
  obtain q2 where "ptcpq_post Bytes E us t body q = ok (True, q2)" "ptcpq_inv Bytes E q2"
      "pending E q2 = pending E q @
         [(\<lparr>hdr_size = us + 8, msg_type = t, ack_seq = ack_seq_num q\<rparr>, body)]"
      "same_session q q2"
    by (rule post_ok [OF inv us room body])
  then show "ptcpq_inv Bytes E q1" "read_seq_num q1 = read_seq_num q"
    and "map payload (pending E q1) = map payload (pending E q) @ [m]"
    using post by (simp_all add: m payload_def same_session_def)
qed

interpretation ptcp: persistent_queue "ptcpq_inv Bytes E" "\<lambda>q. map payload (pending E q)"
    read_seq_num "ptcpq_try_post Bytes E" "ptcpq_login_ack E" for Bytes E
proof unfold_locales
  fix q q1 m
  assume "ptcpq_inv Bytes E q" "ptcpq_try_post Bytes E m q = Some q1"
  from try_post_cases [OF this] show "ptcpq_inv Bytes E q1"
    "map payload (pending E q1) = map payload (pending E q) @ [m]"
    "read_seq_num q1 = read_seq_num q" .
next
  fix q k
  assume inv: "ptcpq_inv Bytes E q" and k: "k \<le> length (map payload (pending E q))" "k < 2147483648"
  obtain q1 where "ptcpq_LoginAck E (read_seq_num q + of_nat k) q = ok q1" "ptcpq_inv Bytes E q1"
      "pending E q1 = drop k (pending E q)" "read_seq_num q1 = read_seq_num q + of_nat k"
    by (rule LoginAck_ok [OF inv, of "read_seq_num q + of_nat k" k]) (use k in simp_all)
  then show "\<exists>q1. ptcpq_login_ack E (read_seq_num q + of_nat k) q = Some q1 \<and> ptcpq_inv Bytes E q1 \<and>
      map payload (pending E q1) = drop k (map payload (pending E q)) \<and>
      read_seq_num q1 = read_seq_num q + of_nat k"
    by (simp add: ptcpq_login_ack_def drop_map)
qed

section \<open>Properties\<close>

text \<open>
  A queue of eight blocks used to exhibit the hypotheses below: a two-block message and a
  one-block message, both sent, numbered across the wrap-around of the sequence number.
\<close>

definition le_host :: byte_order where
  "le_host = \<lparr>ToLittle = True, is_little_endian = True\<rparr>"

definition sample_msgs :: "pmsg list" where
  "sample_msgs =
     [(\<lparr>hdr_size = 16, msg_type = 5, ack_seq = 3\<rparr>, [zero_header]),
      (\<lparr>hdr_size = 8, msg_type = 6, ack_seq = 3\<rparr>, [])]"

definition sample_queue :: ptcpq where
  "sample_queue =
     \<lparr>blk = enc_msgs le_host sample_msgs @ replicate 5 zero_header,
      write_idx = 3, read_idx = 0, send_idx = 3,
      read_seq_num = 4294967295, ack_seq_num = 3\<rparr>"

lemma sample_wf: "list_all wf_msg sample_msgs"
  by (simp add: sample_msgs_def nblk_def)

lemma sample_nblks: "nblks sample_msgs = 3"
  by (simp add: sample_msgs_def nblk_def)

lemma sample_inv: "ptcpq_inv 64 le_host sample_queue"
  and sample_pending: "pending le_host sample_queue = sample_msgs"
proof -
  have len: "length (enc_msgs le_host sample_msgs) = 3"
    by (simp add: sample_wf sample_nblks)
  have live: "live sample_queue = enc_msgs le_host sample_msgs"
    by (simp add: live_def sample_queue_def seg_def len)
  have I: "ptcpq_inv 64 le_host sample_queue \<and> pending le_host sample_queue = sample_msgs"
    by (intro conjI; rule ptcpq_invI [where Bytes = 64, OF _ _ _ _ live sample_wf];
        simp add: sample_queue_def len ptcpq_BLK_CNT_def)
  then show "ptcpq_inv 64 le_host sample_queue" by simp
  from I show "pending le_host sample_queue = sample_msgs" by simp
qed

lemma sample_seq: "seq_dist (read_seq_num sample_queue) 0 = 1" "read_seq_num sample_queue = 4294967295"
    "unat (send_idx sample_queue) = 3" "unat (read_idx sample_queue) = 0"
    "ack_seq_num sample_queue = 3" "unat (write_idx sample_queue) = 3"
  by (simp_all add: sample_queue_def seq_dist_def)

lemma sample_free: "ptcpq_free sample_queue = 5"
  by (simp add: ptcpq_free_def sample_queue_def sample_wf sample_nblks)

text \<open>
  C10. Posting a message (\<open>Alloc\<close>, writing type and body, \<open>Push\<close>) appends exactly
  that message, stamped with its size and the current acknowledgement number, to the
  pending messages and changes no number; when the array has too few free blocks it
  returns false and changes nothing.  The live blocks may be moved to the front on the way.
\<close>

theorem ptcpq_post_appends:
  assumes "ptcpq_inv Bytes E q" and "unat us \<le> 65527" and "Suc (length body) = msg_blocks us"
  shows "if msg_blocks us \<le> ptcpq_free q
    then \<exists>q1. ptcpq_post Bytes E us t body q = ok (True, q1) \<and> ptcpq_inv Bytes E q1 \<and>
      pending E q1 = pending E q @
        [(\<lparr>hdr_size = us + 8, msg_type = t, ack_seq = ack_seq_num q\<rparr>, body)] \<and>
      same_session q q1
    else ptcpq_post Bytes E us t body q = ok (False, q)"
proof (cases "msg_blocks us \<le> ptcpq_free q")
  case True
  obtain q1 where "ptcpq_post Bytes E us t body q = ok (True, q1)" "ptcpq_inv Bytes E q1"
      "pending E q1 = pending E q @
         [(\<lparr>hdr_size = us + 8, msg_type = t, ack_seq = ack_seq_num q\<rparr>, body)]" "same_session q q1"
    by (rule post_ok [OF assms(1,2) True assms(3) [symmetric]])
  with True show ?thesis by auto
next
  case False
  then show ?thesis using post_null [OF assms(1)] by simp
qed

theorem ptcpq_post_appends_witness:
  "\<exists>q1. ptcpq_post 64 le_host 20 7 [zero_header, zero_header, zero_header] sample_queue = ok (True, q1) \<and>
     pending le_host q1 = sample_msgs @
       [(\<lparr>hdr_size = 28, msg_type = 7, ack_seq = 3\<rparr>, [zero_header, zero_header, zero_header])]"
  using ptcpq_post_appends [OF sample_inv, of 20 "[zero_header, zero_header, zero_header]" 7]
  by (auto simp: sample_free sample_pending sample_seq msg_blocks_def unat_blk_size)

text \<open>
  \<open>Alloc\<close> returns the null pointer exactly when the message needs more blocks than
  are free in the whole array (before the read index and after the write index together).
\<close>

theorem ptcpq_Alloc_null_iff_full:
  assumes "ptcpq_inv Bytes E q"
  shows "ptcpq_Alloc Bytes us q = ok (None, q) \<longleftrightarrow> ptcpq_free q < msg_blocks us"
  by (rule Alloc_null_iff [OF assms])

theorem ptcpq_Alloc_null_iff_full_witness:
  "ptcpq_Alloc 64 40 sample_queue = ok (None, sample_queue)
   \<and> ptcpq_Alloc 64 32 sample_queue \<noteq> ok (None, sample_queue)"
  using ptcpq_Alloc_null_iff_full [OF sample_inv, of 40] ptcpq_Alloc_null_iff_full [OF sample_inv, of 32]
  by (simp add: sample_free msg_blocks_def unat_blk_size)

text \<open>
  An acknowledgement that names \<open>k\<close> further messages, all of them sent, drops exactly
  the \<open>k\<close> oldest pending messages and becomes the number of the next one, also when the
  sequence number wraps around; the blocks and the own acknowledgement stay as they are.
\<close>

theorem ptcpq_Ack_drops:
  assumes "ptcpq_inv Bytes E q" and "seq_dist (read_seq_num q) ack = k"
    and "k \<le> length (pending E q)" and "k < 2147483648"
    and "unat (read_idx q) + nblks (take k (pending E q)) \<le> unat (send_idx q)"
  shows "\<exists>q1. ptcpq_Ack E ack q = ok q1 \<and> ptcpq_inv Bytes E q1 \<and>
    pending E q1 = drop k (pending E q) \<and> read_seq_num q1 = ack \<and> same_blocks q q1"
  by (rule Ack_inv [OF assms]) blast

theorem ptcpq_Ack_drops_witness:
  "\<exists>q1. ptcpq_Ack le_host 0 sample_queue = ok q1 \<and> read_seq_num q1 = 0 \<and>
     pending le_host q1 = [(\<lparr>hdr_size = 8, msg_type = 6, ack_seq = 3\<rparr>, [])]"
  using ptcpq_Ack_drops [OF sample_inv sample_seq(1)]
  by (simp add: sample_pending sample_seq sample_nblks sample_msgs_def nblk_def) blast

text \<open>
  Acknowledgements that are old (equal to the number of the oldest pending message, or
  behind it by up to \<open>2 ^ 31\<close>) change nothing, so acknowledgements may be repeated and
  may arrive late.
\<close>

theorem ptcpq_Ack_ignores_old:
  "n \<le> 2147483648 \<Longrightarrow> ptcpq_Ack E (read_seq_num q - of_nat n) q = ok q"
proof (rule Ack_ignored)
  assume n: "n \<le> 2147483648"
  show "read_seq_num q - of_nat n = read_seq_num q \<or>
      2147483648 \<le> seq_dist (read_seq_num q) (read_seq_num q - of_nat n)"
  proof (cases "n = 0")
    case False
    then have "unat (0 - of_nat n :: u32) = 4294967296 - n"
      using n unat_of_nat_u32 [of n] unfolding unat_sub_if' by simp
    with n have "2147483648 \<le> unat (0 - of_nat n :: u32)" by linarith
    then show ?thesis by (simp add: seq_dist_def)
  qed simp
qed

theorem ptcpq_Ack_ignores_old_witness:
  "ptcpq_Ack le_host 4294967290 sample_queue = ok sample_queue"
  using ptcpq_Ack_ignores_old [of 5 le_host sample_queue] by (simp add: sample_seq)

text \<open>
  At login the peer's number releases the messages it has, and everything else pending
  is marked as not sent, so it will be sent again from its first block.
\<close>

theorem ptcpq_LoginAck_resends:
  assumes "ptcpq_inv Bytes E q" and "seq_dist (read_seq_num q) ack = k"
    and "k \<le> length (pending E q)" and "k < 2147483648"
  shows "\<exists>q1. ptcpq_LoginAck E ack q = ok q1 \<and> ptcpq_inv Bytes E q1 \<and>
    pending E q1 = drop k (pending E q) \<and> read_seq_num q1 = ack \<and>
    ptcpq_GetSendable q1 = (int (nblks (drop k (pending E q))), read_idx q1)"
proof -
  obtain q1 where q1: "ptcpq_LoginAck E ack q = ok q1" "ptcpq_inv Bytes E q1"
      "pending E q1 = drop k (pending E q)" "read_seq_num q1 = ack" "send_idx q1 = read_idx q1"
    by (rule LoginAck_ok [OF assms]) blast
  then show ?thesis
    using GetSendable_ok [OF q1(2)] pending_nblks [OF q1(2)] by simp
qed

theorem ptcpq_LoginAck_resends_witness:
  "\<exists>q1. ptcpq_LoginAck le_host 4294967295 sample_queue = ok q1 \<and> ptcpq_GetSendable q1 = (3, read_idx q1)"
  using ptcpq_LoginAck_resends [OF sample_inv, of 4294967295 0]
  by (auto simp: sample_pending sample_seq sample_nblks)



text \<open>
  The sanity check never returns on a file in which the first live header has size 0
  and an acceptable acknowledgement number: the scan stays at that header for ever, so the
  corruption it is there to detect hangs the login instead.
\<close>

theorem ptcpq_sanity_hangs_on_zero_size:
  assumes "stuck_at E q (read_idx q)"
  shows "ptcpq_SanityCheckAndGetSeq E q = None"
  using assms sanity_loop_not_stuck [of E q "read_idx q" "read_seq_num q"]
  by (cases "ptcpq_sanity_loop E q (read_idx q) (read_seq_num q)")
     (auto simp: ptcpq_SanityCheckAndGetSeq_def)

theorem ptcpq_sanity_hangs_on_zero_size_witness:
  "ptcpq_SanityCheckAndGetSeq le_host
     ((ptcpq_new (replicate 4 zero_header))\<lparr>write_idx := 1\<rparr>) = None"
  by (rule ptcpq_sanity_hangs_on_zero_size)
     (simp add: stuck_at_def ptcpq_new_def zero_header_def)

text \<open>
  Without a header of size 0 in the array the sanity check always returns, whatever else
  the file holds.
\<close>

theorem ptcpq_sanity_terminates:
  assumes "\<forall>b \<in> set (blk q). hdr_size b \<noteq> 0" and "length (blk q) < 536870912"
  shows "\<exists>r. ptcpq_SanityCheckAndGetSeq E q = Some r"
  unfolding ptcpq_SanityCheckAndGetSeq_def by (rule sanity_loop_ends [OF assms])

theorem ptcpq_sanity_terminates_witness:
  "\<exists>r. ptcpq_SanityCheckAndGetSeq le_host
     ((ptcpq_new [\<lparr>hdr_size = 9, msg_type = 1, ack_seq = 0\<rparr>])\<lparr>write_idx := 1\<rparr>) = Some r"
  by (rule ptcpq_sanity_terminates) (simp_all add: ptcpq_new_def)

text \<open>
  C6. Recovery across any number of reconnects: after any run of posts and login
  acknowledgements from a well-formed queue, the pending messages are exactly those posted
  and not acknowledged, in the order they were posted, and the number after the last one
  counts every message ever posted.
\<close>

theorem ptcpq_run_history:
  assumes "qrun (ptcpq_try_post Bytes E) (ptcpq_login_ack E) (\<lambda>q. map payload (pending E q))
      read_seq_num q es q1"
    and "ptcpq_inv Bytes E q"
  shows "ptcpq_inv Bytes E q1 \<and>
    map payload (pending E q1) = drop (acked es) (map payload (pending E q) @ posted es) \<and>
    read_seq_num q1 = read_seq_num q + of_nat (acked es) \<and>
    read_seq_num q1 + of_nat (length (pending E q1)) =
      read_seq_num q + of_nat (length (pending E q) + length (posted es))"
  using ptcp.run_history [OF assms] ptcp.run_next_seq [OF assms] unfolding length_map by blast

theorem ptcpq_run_history_witness:
  "\<exists>q1. map payload (pending le_host q1) = [(0, 6, []), (8, 9, [zero_header])] \<and> read_seq_num q1 = 0"
proof -
  let ?run = "qrun (ptcpq_try_post 64 le_host) (ptcpq_login_ack le_host)
    (\<lambda>q. map payload (pending le_host q)) read_seq_num sample_queue"
  let ?m = "(8, 9, [zero_header]) :: umsg"
  have "msg_blocks 8 = 2" by (simp add: msg_blocks_def unat_blk_size)
  then obtain q1 where "ptcpq_post 64 le_host 8 9 [zero_header] sample_queue = ok (True, q1)"
    using post_ok [OF sample_inv, of 8 "[zero_header]" 9] by (auto simp: sample_free)
  then have post: "ptcpq_try_post 64 le_host ?m sample_queue = Some q1"
    using \<open>msg_blocks 8 = 2\<close> by (simp add: ptcpq_try_post_def)
  note q1 = try_post_cases [OF sample_inv post]
  obtain q2 where ack: "ptcpq_login_ack le_host (read_seq_num q1 + of_nat 1) q1 = Some q2"
    using ptcp.ack_total [OF q1(1), of 1] q1(2) by auto
  have "?run ([] @ [Posted ?m]) q1"
    by (rule qrun_post, rule qrun_nil, rule post)
  then have "?run (([] @ [Posted ?m]) @ [Acked 1]) q2"
    by (rule qrun_ack) (simp add: q1(2), simp, rule ack)
  from ptcpq_run_history [OF this sample_inv]
  show ?thesis
    by (intro exI [of _ q2]) (simp add: sample_pending sample_msgs_def payload_def sample_seq)
qed

text \<open>
  \<open>Alloc\<close> adds the header to the size in 16 bits: for a requested size above 65527 the
  sum wraps to less than eight, and instead of failing \<open>Alloc\<close> returns a place for which at
  most one block is reserved (none at 65528), with a size field smaller than a header.
\<close>

theorem ptcpq_Alloc_size_wraps:
  assumes "ptcpq_inv Bytes E q" and "65527 < unat us" and "unat (write_idx q) < length (blk q)"
  shows "ptcpq_Alloc Bytes us q =
    ok (Some (write_idx q), q\<lparr>blk := (blk q)[unat (write_idx q) :=
      (blk q ! unat (write_idx q))\<lparr>hdr_size := of_nat (unat us - 65528)\<rparr>]\<rparr>) \<and>
    msg_blocks us \<le> 1"
proof -
  have us: "unat us < 65536" by (rule unat_u16_less)
  have sz: "unat (us + 8) = unat us - 65528"
  proof -
    have "(unat us + 8) mod 65536 = unat us + 8 - 65536"
      using assms(2) us by (subst le_mod_geq) simp_all
    then show ?thesis using assms(2) by (simp add: unat_word_ariths)
  qed
  have eq: "us + 8 = of_nat (unat us - 65528)"
    by (simp flip: sz)
  have b: "unat (blk_size (us + 8)) \<le> 1" using us by (simp add: unat_blk_size sz)
  have "unat (ptcpq_BLK_CNT Bytes - write_idx q) = length (blk q) - unat (write_idx q)"
    using assms(3) ptcpq_invD(1) [OF assms(1)] by (simp add: unat_sub_if')
  then have "\<not> ptcpq_BLK_CNT Bytes - write_idx q < blk_size (us + 8)"
    using b assms(3) by (simp add: word_less_nat_alt)
  then show ?thesis
    using assms(3) b by (simp add: ptcpq_Alloc_def Let_def ptcpq_set_size_def msg_blocks_def flip: eq)
qed

theorem ptcpq_Alloc_size_wraps_witness:
  "ptcpq_Alloc 64 65535 sample_queue =
     ok (Some 3, sample_queue\<lparr>blk := (blk sample_queue)[3 := zero_header\<lparr>hdr_size := 7\<rparr>]\<rparr>)"
proof -
  have n: "blk sample_queue ! 3 = zero_header" "length (blk sample_queue) = 8" "write_idx sample_queue = 3"
    by (simp_all add: sample_queue_def nth_append sample_wf sample_nblks)
  then show ?thesis
    using ptcpq_Alloc_size_wraps [OF sample_inv, of 65535] by simp
qed

end
