(* ===== verification/SPSCVarQueue.thy ===== *)
theory SPSCVarQueue
  imports MsgHeader
begin

text \<open>
  Model of \<^verbatim>\<open>spsc_varq.h\<close>: the single-producer single-consumer queue of variable-size
  messages in shared memory.  It is a ring of 64-byte blocks addressed by 32-bit counters
  that only grow and wrap around; a message occupies consecutive blocks and never crosses
  the end of the ring: where it would, the producer leaves a header of size 0 (a rewind
  mark) and starts again at block 0.  The type variable stands for the 56 bytes of a block
  behind the place of a header.
\<close>

section \<open>State\<close>

record 'p block =
  header :: msg_header
  rest :: 'p

record 'p shmq =
  q_blk :: "'p block list"
  q_write_idx :: u32
  q_write_idx_atom :: u32
  q_read_idx_cach :: u32
  q_read_idx :: u32

definition shmq_BLK_CNT :: "u32 \<Rightarrow> u32" where
  "shmq_BLK_CNT Bytes = Bytes div 64"

text \<open>The \<open>static_assert\<close> of the class: the number of blocks is a power of two.\<close>

definition shmq_static_assert :: "u32 \<Rightarrow> bool" where
  "shmq_static_assert Bytes \<longleftrightarrow>
     shmq_BLK_CNT Bytes \<noteq> 0 \<and> shmq_BLK_CNT Bytes AND (shmq_BLK_CNT Bytes - 1) = 0"

text \<open>A placement \<open>new\<close> resets the counters and leaves the blocks.\<close>

definition shmq_new :: "'p block list \<Rightarrow> 'p shmq" where
  "shmq_new mem =
     \<lparr>q_blk = mem, q_write_idx = 0, q_write_idx_atom = 0, q_read_idx_cach = 0, q_read_idx = 0\<rparr>"

section \<open>Operations\<close>

definition shm_blk_size :: "u16 \<Rightarrow> u32" where
  "shm_blk_size sz = (ucast sz + 64 - 1) div 64"

text \<open>The block a counter addresses, as an index into the array.\<close>

definition slot :: "u32 \<Rightarrow> u32 \<Rightarrow> nat" where
  "slot Bytes idx = unat (idx mod shmq_BLK_CNT Bytes)"

definition shmq_set_size :: "nat \<Rightarrow> u16 \<Rightarrow> 'p shmq \<Rightarrow> 'p shmq" where
  "shmq_set_size i sz q =
     q\<lparr>q_blk := (q_blk q)[i := (q_blk q ! i)\<lparr>header := (header (q_blk q ! i))\<lparr>hdr_size := sz\<rparr>\<rparr>]\<rparr>"

definition shmq_Alloc :: "u32 \<Rightarrow> u16 \<Rightarrow> 'p shmq \<Rightarrow> nat option \<times> 'p shmq" where
  "shmq_Alloc Bytes user_size q =
     (let sz = user_size + 8;
          blk_sz = shm_blk_size sz;
          padding_sz = shmq_BLK_CNT Bytes - (q_write_idx q mod shmq_BLK_CNT Bytes);
          rewind = padding_sz < blk_sz;
          min_read_idx =
            q_write_idx q + blk_sz + (if rewind then padding_sz else 0) - shmq_BLK_CNT Bytes;
          q1 = (if sint (q_read_idx_cach q - min_read_idx) < 0
                then q\<lparr>q_read_idx_cach := q_read_idx q\<rparr> else q)
      in if sint (q_read_idx_cach q1 - min_read_idx) < 0 then (None, q1)
         else
           let q2 = (if rewind
                     then (shmq_set_size (slot Bytes (q_write_idx q1)) 0 q1)
                            \<lparr>q_write_idx := q_write_idx q1 + padding_sz\<rparr>
                     else q1);
               j = slot Bytes (q_write_idx q2)
           in (Some j, shmq_set_size j sz q2))"

definition shmq_Push :: "u32 \<Rightarrow> 'p shmq \<Rightarrow> 'p shmq" where
  "shmq_Push Bytes q =
     (let blk_sz = shm_blk_size (hdr_size (header (q_blk q ! slot Bytes (q_write_idx q))));
          w = q_write_idx q + blk_sz
      in q\<lparr>q_write_idx := w, q_write_idx_atom := w\<rparr>)"

text \<open>
  \<open>Front\<close> loads the shared write counter once; \<open>shmq_front_at\<close> is the rest of it, for the
  value loaded.
\<close>

definition shmq_front_at :: "u32 \<Rightarrow> u32 \<Rightarrow> 'p shmq \<Rightarrow> nat option \<times> 'p shmq" where
  "shmq_front_at Bytes curr_write_idx q =
     (let curr_read_idx = q_read_idx q in
      if curr_read_idx = curr_write_idx then (None, q)
      else if hdr_size (header (q_blk q ! slot Bytes curr_read_idx)) = 0 then
        let curr_read_idx =
              curr_read_idx + (shmq_BLK_CNT Bytes - (curr_read_idx mod shmq_BLK_CNT Bytes));
            q1 = q\<lparr>q_read_idx := curr_read_idx\<rparr>
        in if curr_read_idx = curr_write_idx then (None, q1)
           else (Some (slot Bytes curr_read_idx), q1)
      else (Some (slot Bytes curr_read_idx), q))"

definition shmq_Front :: "u32 \<Rightarrow> 'p shmq \<Rightarrow> nat option \<times> 'p shmq" where
  "shmq_Front Bytes q = shmq_front_at Bytes (q_write_idx_atom q) q"

definition shmq_Pop :: "u32 \<Rightarrow> 'p shmq \<Rightarrow> 'p shmq" where
  "shmq_Pop Bytes q =
     (let blk_sz = shm_blk_size (hdr_size (header (q_blk q ! slot Bytes (q_read_idx q))))
      in q\<lparr>q_read_idx := q_read_idx q + blk_sz\<rparr>)"

text \<open>
  What the user writes between \<open>Alloc\<close> and \<open>Push\<close>: the type and the body, which is the
  rest of the first block and the following blocks.
\<close>

definition shmq_fill :: "u32 \<Rightarrow> u16 \<Rightarrow> 'p \<Rightarrow> 'p block list \<Rightarrow> 'p shmq \<Rightarrow> 'p shmq" where
  "shmq_fill Bytes t body1 body q =
     (let j = slot Bytes (q_write_idx q);
          b = q_blk q ! j
      in q\<lparr>q_blk := blit (\<lparr>header = (header b)\<lparr>msg_type := t\<rparr>, rest = body1\<rparr> # body) j (q_blk q)\<rparr>)"

section \<open>Abstraction: the messages in the ring\<close>

text \<open>The number of blocks of a message and the messages found in \<open>d\<close> blocks from slot \<open>p\<close>.\<close>

definition sblks :: "'p block \<Rightarrow> nat" where
  "sblks b = (unat (hdr_size (header b)) + 63) div 64"

function ring_msgs :: "nat \<Rightarrow> 'p block list \<Rightarrow> nat \<Rightarrow> nat \<Rightarrow> 'p block list list option" where
  "ring_msgs B bs p d =
     (if d = 0 then Some []
      else if B \<le> p then None
      else if hdr_size (header (bs ! p)) = 0 then
        if B - p \<le> d then ring_msgs B bs 0 (d - (B - p)) else None
      else let n = sblks (bs ! p) in
        if n \<noteq> 0 \<and> n \<le> d \<and> p + n \<le> B
        then map_option (Cons (seg p (p + n) bs)) (ring_msgs B bs ((p + n) mod B) (d - n))
        else None)"
  by pat_completeness auto
termination
  by (relation "measure (\<lambda>(B, bs, p, d). d)") auto

declare ring_msgs.simps [simp del]

section \<open>Counters and slots\<close>

lemma nat_and_pred_zero: "n \<noteq> 0 \<Longrightarrow> (n :: nat) AND (n - 1) = 0 \<Longrightarrow> \<exists>k. n = 2 ^ k"
proof (induction n rule: less_induct)
  case (less n)
  show ?case
  proof (cases "even n")
    case True
    then obtain m where m: "n = 2 * m" by (elim evenE)
    have "m \<noteq> 0" using less.prems(1) m by simp
    have "n AND (n - 1) = of_bool (odd n \<and> odd (n - 1)) + 2 * ((n div 2) AND ((n - 1) div 2))"
      by (rule and_rec)
    also have "(n - 1) div 2 = m - 1" using m \<open>m \<noteq> 0\<close> by simp
    finally have "m AND (m - 1) = 0" using less.prems(2) m by simp
    then obtain k where "m = 2 ^ k" using less.IH [of m] m \<open>m \<noteq> 0\<close> by auto
    then have "n = 2 ^ Suc k" using m by simp
    then show ?thesis ..
  next
    case False
    then obtain m where m: "n = 2 * m + 1" by (elim oddE)
    have "n AND (n - 1) = of_bool (odd n \<and> odd (n - 1)) + 2 * ((n div 2) AND ((n - 1) div 2))"
      by (rule and_rec)
    also have "\<dots> = 2 * m" using m by simp
    finally have "n = 2 ^ 0" using less.prems(2) m by simp
    then show ?thesis ..
  qed
qed

definition ring_size :: "u32 \<Rightarrow> nat" where
  "ring_size Bytes = unat (shmq_BLK_CNT Bytes)"

lemma ring_size_bound: "ring_size Bytes < 67108864"
  using unat_u32_less [of Bytes] by (simp add: ring_size_def shmq_BLK_CNT_def unat_div)

lemma ring_size_pow2:
  assumes "shmq_static_assert Bytes"
  shows "\<exists>k. ring_size Bytes = 2 ^ k"
proof (rule nat_and_pred_zero)
  let ?b = "shmq_BLK_CNT Bytes"
  have "?b \<noteq> 0" using assms by (simp add: shmq_static_assert_def)
  then show "ring_size Bytes \<noteq> 0" by (simp add: ring_size_def unat_eq_0)
  have "unat (?b AND (?b - 1)) = 0" using assms by (simp add: shmq_static_assert_def)
  then have "unat ?b AND unat (?b - 1) = 0" by (simp add: unsigned_and_eq)
  then show "ring_size Bytes AND (ring_size Bytes - 1) = 0"
    using unat_minus_one [OF \<open>?b \<noteq> 0\<close>] by (simp add: ring_size_def)
qed

lemma ring_size_pos: "shmq_static_assert Bytes \<Longrightarrow> 0 < ring_size Bytes"
  using ring_size_pow2 [of Bytes] by auto

lemma ring_size_dvd:
  assumes "shmq_static_assert Bytes"
  shows "ring_size Bytes dvd 4294967296"
proof -
  obtain k where k: "ring_size Bytes = 2 ^ k" using ring_size_pow2 [OF assms] ..
  then have "(2::nat) ^ k < 2 ^ 32" using ring_size_bound [of Bytes] by simp
  then have "k \<le> 32" by (metis less_imp_le_nat power_less_imp_less_exp one_less_numeral_iff semiring_norm(76))
  then have "(2::nat) ^ k dvd 2 ^ 32" by (rule le_imp_power_dvd)
  then show ?thesis using k by simp
qed

lemma slot_unat: "slot Bytes idx = unat idx mod ring_size Bytes"
  by (simp add: slot_def ring_size_def unat_mod)

lemma slot_less: "shmq_static_assert Bytes \<Longrightarrow> slot Bytes idx < ring_size Bytes"
  using ring_size_pos [of Bytes] by (simp add: slot_unat)

text \<open>Because the ring size divides \<open>2 ^ 32\<close>, slots go on smoothly when a counter wraps.\<close>

lemma slot_add:
  assumes "shmq_static_assert Bytes"
  shows "slot Bytes (a + b) = (slot Bytes a + unat b) mod ring_size Bytes"
proof -
  have "unat (a + b) mod ring_size Bytes = (unat a + unat b) mod ring_size Bytes"
    using ring_size_dvd [OF assms] by (simp add: unat_word_ariths mod_mod_cancel)
  then show ?thesis by (simp add: slot_unat mod_add_left_eq)
qed

lemma unat_shm_blk_size: "unat (shm_blk_size s) = (unat s + 63) div 64"
proof -
  define y where "y = (ucast s + 64 - 1 :: u32)"
  have "unat s < 65536" by (rule unat_u16_less)
  then have "unat y = unat s + 63" by (simp add: y_def unat_word_ariths)
  then show ?thesis by (simp add: shm_blk_size_def unat_div flip: y_def)
qed

lemma unat_padding:
  assumes "shmq_static_assert Bytes"
  shows "unat (shmq_BLK_CNT Bytes - (w mod shmq_BLK_CNT Bytes)) = ring_size Bytes - slot Bytes w"
  using slot_less [OF assms, of w]
  by (simp add: unat_sub_if' slot_def ring_size_def)

lemma slot_rewind:
  assumes "shmq_static_assert Bytes"
  shows "slot Bytes (w + (shmq_BLK_CNT Bytes - (w mod shmq_BLK_CNT Bytes))) = 0"
  using slot_less [OF assms, of w] by (simp add: slot_add [OF assms] unat_padding [OF assms])

text \<open>
  The space test of \<open>Alloc\<close>: with \<open>used\<close> blocks between the read counter the producer
  knows and its write counter, \<open>need\<close> more blocks fit exactly when the signed difference
  is not negative.
\<close>

lemma space_test:
  fixes c w :: u32 and need :: u32
  assumes used: "unat (w - c) \<le> ring_size Bytes" and need: "unat need \<le> 134217728"
  shows "sint (c - (w + need - shmq_BLK_CNT Bytes)) < 0 \<longleftrightarrow>
    ring_size Bytes < unat (w - c) + unat need"
proof -
  let ?B = "shmq_BLK_CNT Bytes" and ?s = "unat (w - c) + unat need"
  have B: "unat ?B < 67108864" using ring_size_bound [of Bytes] by (simp add: ring_size_def)
  define s where "s = (w - c) + need"
  have s: "unat s = ?s"
    using used need B by (simp add: s_def unat_word_ariths ring_size_def)
  have eq: "c - (w + need - ?B) = ?B - s" by (simp add: s_def)
  show ?thesis
  proof (cases "?s \<le> unat ?B")
    case True
    then have "unat (?B - s) = unat ?B - ?s" by (simp add: unat_sub_if' s)
    then show ?thesis unfolding eq sint_u32_neg using True B by (simp add: ring_size_def)
  next
    case False
    then have "unat (?B - s) = 4294967296 + unat ?B - ?s" by (simp add: unat_sub_if' s)
    then show ?thesis unfolding eq sint_u32_neg
      using False used need B by (simp add: ring_size_def)
  qed
qed

section \<open>Reading the ring\<close>

lemma ring_msgs_0 [simp]: "ring_msgs B bs p 0 = Some []"
  by (simp add: ring_msgs.simps)

lemma ring_msgs_stop: "0 < d \<Longrightarrow> B \<le> p \<Longrightarrow> ring_msgs B bs p d = None"
  by (subst ring_msgs.simps) simp

lemma ring_msgs_at_mark:
  "0 < d \<Longrightarrow> p < B \<Longrightarrow> hdr_size (header (bs ! p)) = 0 \<Longrightarrow>
     ring_msgs B bs p d = (if B - p \<le> d then ring_msgs B bs 0 (d - (B - p)) else None)"
  by (subst ring_msgs.simps) simp

lemma ring_msgs_at_msg:
  "0 < d \<Longrightarrow> p < B \<Longrightarrow> hdr_size (header (bs ! p)) \<noteq> 0 \<Longrightarrow> n = sblks (bs ! p) \<Longrightarrow>
     ring_msgs B bs p d =
       (if n \<noteq> 0 \<and> n \<le> d \<and> p + n \<le> B
        then map_option (Cons (seg p (p + n) bs)) (ring_msgs B bs ((p + n) mod B) (d - n))
        else None)"
  by (subst ring_msgs.simps) (simp add: Let_def)

lemma ring_msgs_cong:
  assumes "\<And>i. i < d \<Longrightarrow> bs' ! ((p + i) mod B) = bs ! ((p + i) mod B)"
    and "length bs = B" "length bs' = B"
  shows "ring_msgs B bs' p d = ring_msgs B bs p d"
  using assms
proof (induction B bs p d rule: ring_msgs.induct)
  case (1 B bs p d)
  show ?case
  proof (cases "d = 0 \<or> B \<le> p")
    case True
    then show ?thesis by (cases "d = 0") (simp_all add: ring_msgs_stop)
  next
    case False
    then have p: "p < B" "0 < d" by simp_all
    have hd: "bs' ! p = bs ! p" using "1.prems"(1) [of 0] p by simp
    show ?thesis
    proof (cases "hdr_size (header (bs ! p)) = 0")
      case True
      have "ring_msgs B bs' 0 (d - (B - p)) = ring_msgs B bs 0 (d - (B - p))" if "B - p \<le> d"
      proof (rule "1.IH"(1))
        fix i assume "i < d - (B - p)"
        then have "bs' ! ((p + ((B - p) + i)) mod B) = bs ! ((p + ((B - p) + i)) mod B)"
          by (intro "1.prems"(1)) simp
        then show "bs' ! ((0 + i) mod B) = bs ! ((0 + i) mod B)" using p by simp
      qed (use False True that "1.prems" in auto)
      with True hd p show ?thesis by (simp add: ring_msgs_at_mark)
    next
      case nz: False
      define n where "n = sblks (bs ! p)"
      have "ring_msgs B bs' ((p + n) mod B) (d - n) = ring_msgs B bs ((p + n) mod B) (d - n)"
        if n: "n \<noteq> 0 \<and> n \<le> d \<and> p + n \<le> B"
      proof (rule "1.IH"(2) [OF _ _ nz n_def n])
        fix i assume "i < d - n"
        then have "bs' ! ((p + (n + i)) mod B) = bs ! ((p + (n + i)) mod B)"
          by (intro "1.prems"(1)) simp
        then show "bs' ! (((p + n) mod B + i) mod B) = bs ! (((p + n) mod B + i) mod B)"
          by (simp add: mod_add_left_eq add.assoc)
      qed (use False "1.prems" in auto)
      moreover have "seg p (p + n) bs' = seg p (p + n) bs" if "n \<le> d \<and> p + n \<le> B"
      proof (rule seg_cong)
        fix k assume k: "p \<le> k" "k < p + n"
        with that have "(p + (k - p)) mod B = k" by simp
        moreover have "bs' ! ((p + (k - p)) mod B) = bs ! ((p + (k - p)) mod B)"
          using that k by (intro "1.prems"(1)) linarith
        ultimately show "bs' ! k = bs ! k" by simp
      qed (use "1.prems" in simp)
      ultimately show ?thesis
        using nz hd p by (simp add: ring_msgs_at_msg [OF _ _ _ n_def] ring_msgs_at_msg [where n = n] n_def)
    qed
  qed
qed

lemma ring_msgs_append:
  assumes "ring_msgs B bs p d = Some ms" "p < B"
    and "ring_msgs B bs ((p + d) mod B) e = Some ns"
  shows "ring_msgs B bs p (d + e) = Some (ms @ ns)"
  using assms
proof (induction B bs p d arbitrary: ms rule: ring_msgs.induct)
  case (1 B bs p d)
  show ?case
  proof (cases "d = 0")
    case True
    with "1.prems" show ?thesis by simp
  next
    case d: False
    show ?thesis
    proof (cases "hdr_size (header (bs ! p)) = 0")
      case True
      then have le: "B - p \<le> d" and rec: "ring_msgs B bs 0 (d - (B - p)) = Some ms"
        using "1.prems"(1,2) d by (simp_all add: ring_msgs_at_mark split: if_splits)
      have "ring_msgs B bs 0 (d - (B - p) + e) = Some (ms @ ns)"
      proof (rule "1.IH"(1))
        have "p + d = (d - (B - p)) + B" using le "1.prems"(2) by linarith
        then have "(p + d) mod B = (0 + (d - (B - p))) mod B"
          by (simp only: mod_add_self2 add_0)
        then show "ring_msgs B bs ((0 + (d - (B - p))) mod B) e = Some ns"
          using "1.prems"(3) by simp
      qed (use d True le rec "1.prems"(2) in auto)
      then show ?thesis
        using True le d "1.prems"(2) by (simp add: ring_msgs_at_mark ac_simps)
    next
      case nz: False
      define n where "n = sblks (bs ! p)"
      obtain ms' where n: "n \<noteq> 0 \<and> n \<le> d \<and> p + n \<le> B" and ms: "ms = seg p (p + n) bs # ms'"
          and rec: "ring_msgs B bs ((p + n) mod B) (d - n) = Some ms'"
        using "1.prems"(1,2) d nz
        by (auto simp: ring_msgs_at_msg [OF _ _ _ n_def] split: if_splits)
      have "ring_msgs B bs ((p + n) mod B) (d - n + e) = Some (ms' @ ns)"
      proof (rule "1.IH"(2) [OF d _ nz n_def n rec])
        have "((p + n) mod B + (d - n)) mod B = ((p + n) + (d - n)) mod B"
          by (rule mod_add_left_eq)
        also have "(p + n) + (d - n) = p + d" using n by simp
        finally have "((p + n) mod B + (d - n)) mod B = (p + d) mod B" .
        then show "ring_msgs B bs (((p + n) mod B + (d - n)) mod B) e = Some ns"
          using "1.prems"(3) by simp
      qed (use "1.prems"(2) in auto)
      then show ?thesis
        using nz n d "1.prems"(2) ms
        by (simp add: ring_msgs_at_msg [OF _ _ _ n_def])
    qed
  qed
qed

lemma ring_msgs_msgD:
  assumes "ring_msgs B bs p d = Some ms" "0 < d" "hdr_size (header (bs ! p)) \<noteq> 0"
  obtains ms' where "ms = seg p (p + sblks (bs ! p)) bs # ms'"
    "ring_msgs B bs ((p + sblks (bs ! p)) mod B) (d - sblks (bs ! p)) = Some ms'"
    "sblks (bs ! p) \<noteq> 0" "sblks (bs ! p) \<le> d" "p + sblks (bs ! p) \<le> B"
  using assms by (subst (asm) ring_msgs.simps) (auto simp: Let_def split: if_splits)

lemma ring_msgs_rewindD:
  assumes "ring_msgs B bs p d = Some ms" "0 < d" "hdr_size (header (bs ! p)) = 0"
  shows "ring_msgs B bs 0 (d - (B - p)) = Some ms" and "B - p \<le> d" and "p < B"
  using assms by (subst (asm) ring_msgs.simps; simp split: if_splits)+

lemma ring_msgs_one:
  assumes "hdr_size (header (bs ! p)) \<noteq> 0" "p + sblks (bs ! p) \<le> B"
  shows "ring_msgs B bs p (sblks (bs ! p)) = Some [seg p (p + sblks (bs ! p)) bs]"
proof -
  have "0 < unat (hdr_size (header (bs ! p)))"
    using assms(1) by (simp add: unat_gt_0)
  then have "sblks (bs ! p) \<noteq> 0" unfolding sblks_def by linarith
  then show ?thesis using assms by (subst ring_msgs.simps) (auto simp: Let_def)
qed

lemma ring_msgs_mark:
  assumes "hdr_size (header (bs ! p)) = 0" "p < B"
  shows "ring_msgs B bs p (B - p) = Some []"
  using assms by (subst ring_msgs.simps) simp

section \<open>The invariant\<close>

text \<open>
  Seen from the consumer, the counters come in the order cached read index, read index,
  published write index, private write index, within one ring size; the published part of
  the ring consists of whole messages and rewind marks; and the producer is at the
  published index or has only just left a rewind mark there.
\<close>

definition shmq_inv :: "u32 \<Rightarrow> 'p shmq \<Rightarrow> bool" where
  "shmq_inv Bytes q \<longleftrightarrow>
     length (q_blk q) = ring_size Bytes \<and>
     unat (q_read_idx q - q_read_idx_cach q) + unat (q_write_idx_atom q - q_read_idx q)
       + unat (q_write_idx q - q_write_idx_atom q) \<le> ring_size Bytes \<and>
     ring_msgs (ring_size Bytes) (q_blk q) (slot Bytes (q_read_idx q))
       (unat (q_write_idx_atom q - q_read_idx q)) \<noteq> None \<and>
     (q_write_idx q = q_write_idx_atom q \<or>
      slot Bytes (q_write_idx q) = 0 \<and>
      unat (q_write_idx q - q_write_idx_atom q) = ring_size Bytes - slot Bytes (q_write_idx_atom q) \<and>
      hdr_size (header (q_blk q ! slot Bytes (q_write_idx_atom q))) = 0)"

definition shm_pending :: "u32 \<Rightarrow> 'p shmq \<Rightarrow> 'p block list list" where
  "shm_pending Bytes q =
     (case ring_msgs (ring_size Bytes) (q_blk q) (slot Bytes (q_read_idx q))
        (unat (q_write_idx_atom q - q_read_idx q)) of None \<Rightarrow> [] | Some ms \<Rightarrow> ms)"

lemma dist_trans:
  "unat (b - a) + unat (c - b) < 4294967296 \<Longrightarrow> unat (c - a :: u32) = unat (b - a) + unat (c - b)"
proof -
  assume "unat (b - a) + unat (c - b) < 4294967296"
  moreover have "c - a = (b - a) + (c - b)" by simp
  ultimately show ?thesis by (simp only: unat_word_ariths) simp
qed

lemma shmq_invD:
  assumes "shmq_inv Bytes q"
  shows "length (q_blk q) = ring_size Bytes"
    and "ring_msgs (ring_size Bytes) (q_blk q) (slot Bytes (q_read_idx q))
       (unat (q_write_idx_atom q - q_read_idx q)) = Some (shm_pending Bytes q)"
    and "unat (q_write_idx q - q_read_idx q) =
       unat (q_write_idx_atom q - q_read_idx q) + unat (q_write_idx q - q_write_idx_atom q)"
    and "unat (q_write_idx q - q_read_idx_cach q) =
       unat (q_read_idx q - q_read_idx_cach q) + unat (q_write_idx q - q_read_idx q)"
    and "unat (q_write_idx q - q_read_idx_cach q) \<le> ring_size Bytes"
    and "unat (q_write_idx q - q_read_idx q) \<le> ring_size Bytes"
proof -
  let ?a = "unat (q_read_idx q - q_read_idx_cach q)"
    and ?b = "unat (q_write_idx_atom q - q_read_idx q)"
    and ?c = "unat (q_write_idx q - q_write_idx_atom q)"
  have le: "?a + ?b + ?c \<le> ring_size Bytes" and small: "ring_size Bytes < 67108864"
    using assms ring_size_bound by (simp_all add: shmq_inv_def)
  show bc: "unat (q_write_idx q - q_read_idx q) = ?b + ?c"
    by (rule dist_trans) (use le small in linarith)
  show abc: "unat (q_write_idx q - q_read_idx_cach q) = ?a + unat (q_write_idx q - q_read_idx q)"
    by (rule dist_trans) (use le small bc in linarith)
  show "unat (q_write_idx q - q_read_idx_cach q) \<le> ring_size Bytes"
    and "unat (q_write_idx q - q_read_idx q) \<le> ring_size Bytes"
    using abc bc le by linarith+
qed (use assms in \<open>auto simp: shmq_inv_def shm_pending_def\<close>)

lemma shmq_new_inv:
  "length mem = ring_size Bytes \<Longrightarrow> shmq_inv Bytes (shmq_new mem) \<and> shm_pending Bytes (shmq_new mem) = []"
  by (simp add: shmq_inv_def shmq_new_def shm_pending_def)

text \<open>Slots at an offset from the read slot.\<close>

lemma slot_offset:
  assumes "shmq_static_assert Bytes"
  shows "slot Bytes w = (slot Bytes r + unat (w - r)) mod ring_size Bytes"
  using slot_add [OF assms, of r "w - r"] by simp

lemma slot_offset_ne:
  assumes sa: "shmq_static_assert Bytes" and i: "i < unat (w - r)"
    and k: "unat (w - r) + k < ring_size Bytes" "slot Bytes w + k < ring_size Bytes"
  shows "(slot Bytes r + i) mod ring_size Bytes \<noteq> slot Bytes w + k"
proof
  let ?B = "ring_size Bytes" and ?d = "unat (w - r)"
  assume eq: "(slot Bytes r + i) mod ?B = slot Bytes w + k"
  have "slot Bytes w + k = (slot Bytes w + k) mod ?B" using k(2) by simp
  also have "\<dots> = ((slot Bytes r + ?d) mod ?B + k) mod ?B"
    using slot_offset [OF sa, of w r] by simp
  also have "\<dots> = (slot Bytes r + ?d + k) mod ?B" by (rule mod_add_left_eq)
  finally have "(slot Bytes r + i) mod ?B = (slot Bytes r + (?d + k)) mod ?B"
    using eq by (simp add: add.assoc)
  then have "?B dvd (slot Bytes r + (?d + k)) - (slot Bytes r + i)"
    using i by (subst (asm) eq_commute) (simp add: mod_eq_dvd_iff_nat)
  then have "?B dvd ?d + k - i" by simp
  then show False using i k(1) nat_dvd_not_less [of "?d + k - i" ?B] by simp
qed

section \<open>The producer\<close>

text \<open>Writing outside the region between read and write index does not matter.\<close>

lemma shmq_frame:
  assumes inv: "shmq_inv Bytes q" and len: "length bs = ring_size Bytes"
    and sa: "shmq_static_assert Bytes"
    and same: "\<And>i. i < unat (q_write_idx q - q_read_idx q) \<Longrightarrow>
      bs ! ((slot Bytes (q_read_idx q) + i) mod ring_size Bytes) =
      q_blk q ! ((slot Bytes (q_read_idx q) + i) mod ring_size Bytes)"
  shows "shmq_inv Bytes (q\<lparr>q_blk := bs\<rparr>)" and "shm_pending Bytes (q\<lparr>q_blk := bs\<rparr>) = shm_pending Bytes q"
proof -
  note D = shmq_invD [OF inv]
  let ?B = "ring_size Bytes" and ?p = "slot Bytes (q_read_idx q)"
    and ?d = "unat (q_write_idx_atom q - q_read_idx q)"
  have eq: "ring_msgs ?B bs ?p ?d = ring_msgs ?B (q_blk q) ?p ?d"
    by (rule ring_msgs_cong) (use D len same in auto)
  have mark: "bs ! slot Bytes (q_write_idx_atom q) = q_blk q ! slot Bytes (q_write_idx_atom q)"
    if "q_write_idx q \<noteq> q_write_idx_atom q"
  proof -
    have "unat (q_write_idx q - q_write_idx_atom q) \<noteq> 0"
      using that by (simp add: unat_eq_0)
    then show ?thesis
      using same [of ?d] slot_offset [OF sa, of "q_write_idx_atom q" "q_read_idx q"] D(3) by simp
  qed
  show "shmq_inv Bytes (q\<lparr>q_blk := bs\<rparr>)"
    using inv len eq mark by (auto simp: shmq_inv_def)
  show "shm_pending Bytes (q\<lparr>q_blk := bs\<rparr>) = shm_pending Bytes q"
    by (simp add: shm_pending_def eq)
qed

text \<open>What the consumer can see: the blocks between the read and the published write index.\<close>

definition same_view :: "u32 \<Rightarrow> 'p shmq \<Rightarrow> 'p shmq \<Rightarrow> bool" where
  "same_view Bytes q q1 \<longleftrightarrow>
     q_read_idx q1 = q_read_idx q \<and> q_write_idx_atom q1 = q_write_idx_atom q \<and>
     length (q_blk q1) = length (q_blk q) \<and>
     (\<forall>i < unat (q_write_idx_atom q - q_read_idx q).
        q_blk q1 ! ((slot Bytes (q_read_idx q) + i) mod ring_size Bytes) =
        q_blk q ! ((slot Bytes (q_read_idx q) + i) mod ring_size Bytes))"

lemma same_view_refl [simp]: "same_view Bytes q q"
  by (simp add: same_view_def)

lemma same_view_trans: "same_view Bytes a b \<Longrightarrow> same_view Bytes b c \<Longrightarrow> same_view Bytes a c"
  by (simp add: same_view_def)

lemma same_view_eqI:
  "q_blk q1 = q_blk q \<Longrightarrow> q_read_idx q1 = q_read_idx q \<Longrightarrow> q_write_idx_atom q1 = q_write_idx_atom q \<Longrightarrow>
     same_view Bytes q q1"
  by (simp add: same_view_def)

text \<open>In particular at the write index and behind it, up to the space that is left.\<close>

lemma shmq_frame_at_write:
  assumes inv: "shmq_inv Bytes q" and len: "length bs = ring_size Bytes"
    and sa: "shmq_static_assert Bytes"
    and room: "unat (q_write_idx q - q_read_idx q) + n \<le> ring_size Bytes"
      "slot Bytes (q_write_idx q) + n \<le> ring_size Bytes"
    and same: "\<And>x. x < ring_size Bytes \<Longrightarrow>
      \<not> (slot Bytes (q_write_idx q) \<le> x \<and> x < slot Bytes (q_write_idx q) + n) \<Longrightarrow> bs ! x = q_blk q ! x"
  shows "shmq_inv Bytes (q\<lparr>q_blk := bs\<rparr>)" and "shm_pending Bytes (q\<lparr>q_blk := bs\<rparr>) = shm_pending Bytes q"
    and "same_view Bytes q (q\<lparr>q_blk := bs\<rparr>)"
proof -
  let ?B = "ring_size Bytes" and ?w = "q_write_idx q" and ?r = "q_read_idx q"
  have "bs ! ((slot Bytes ?r + i) mod ?B) = q_blk q ! ((slot Bytes ?r + i) mod ?B)"
    if i: "i < unat (?w - ?r)" for i
  proof (rule same)
    show "(slot Bytes ?r + i) mod ?B < ?B" using ring_size_pos [OF sa] by simp
    show "\<not> (slot Bytes ?w \<le> (slot Bytes ?r + i) mod ?B \<and> (slot Bytes ?r + i) mod ?B < slot Bytes ?w + n)"
    proof
      assume x: "slot Bytes ?w \<le> (slot Bytes ?r + i) mod ?B \<and> (slot Bytes ?r + i) mod ?B < slot Bytes ?w + n"
      define k where "k = (slot Bytes ?r + i) mod ?B - slot Bytes ?w"
      have "(slot Bytes ?r + i) mod ?B \<noteq> slot Bytes ?w + k"
        by (rule slot_offset_ne [OF sa i]) (use x room k_def in linarith)+
      then show False using x by (simp add: k_def)
    qed
  qed
  then show "shmq_inv Bytes (q\<lparr>q_blk := bs\<rparr>)" "shm_pending Bytes (q\<lparr>q_blk := bs\<rparr>) = shm_pending Bytes q"
      "same_view Bytes q (q\<lparr>q_blk := bs\<rparr>)"
    using shmq_frame [OF inv len sa] shmq_invD(1,3) [OF inv] len by (auto simp: same_view_def)
qed

lemma set_size_frame:
  assumes inv: "shmq_inv Bytes q" and sa: "shmq_static_assert Bytes"
    and room: "unat (q_write_idx q - q_read_idx q) < ring_size Bytes"
  shows "shmq_inv Bytes (shmq_set_size (slot Bytes (q_write_idx q)) sz q)"
    and "shm_pending Bytes (shmq_set_size (slot Bytes (q_write_idx q)) sz q) = shm_pending Bytes q"
    and "hdr_size (header (q_blk (shmq_set_size (slot Bytes (q_write_idx q)) sz q) ! slot Bytes (q_write_idx q))) = sz"
    and "same_view Bytes q (shmq_set_size (slot Bytes (q_write_idx q)) sz q)"
proof -
  let ?w = "slot Bytes (q_write_idx q)"
  have w: "?w < ring_size Bytes" by (rule slot_less [OF sa])
  note D = shmq_invD [OF inv]
  show "shmq_inv Bytes (shmq_set_size ?w sz q)" "shm_pending Bytes (shmq_set_size ?w sz q) = shm_pending Bytes q"
      "same_view Bytes q (shmq_set_size ?w sz q)"
    unfolding shmq_set_size_def
    by (rule shmq_frame_at_write [OF inv _ sa, of _ 1]; use D room w in \<open>auto simp: nth_list_update\<close>)+
  show "hdr_size (header (q_blk (shmq_set_size ?w sz q) ! ?w)) = sz"
    using w D by (simp add: shmq_set_size_def)
qed

lemma set_size_frame_sel [simp]:
  "q_write_idx (shmq_set_size i sz q) = q_write_idx q"
  "q_write_idx_atom (shmq_set_size i sz q) = q_write_idx_atom q"
  "q_read_idx (shmq_set_size i sz q) = q_read_idx q"
  "q_read_idx_cach (shmq_set_size i sz q) = q_read_idx_cach q"
  by (simp_all add: shmq_set_size_def)

lemma reload_inv:
  assumes "shmq_inv Bytes q"
  shows "shmq_inv Bytes (q\<lparr>q_read_idx_cach := q_read_idx q\<rparr>)"
    and "shm_pending Bytes (q\<lparr>q_read_idx_cach := q_read_idx q\<rparr>) = shm_pending Bytes q"
  using assms by (auto simp: shmq_inv_def shm_pending_def)

text \<open>
  The blocks of a message, the blocks \<open>Alloc\<close> needs for it (with the padding, when it has
  to rewind), and what a successful \<open>Alloc\<close> leaves for the user to fill.
\<close>

definition sh_blocks :: "u16 \<Rightarrow> nat" where
  "sh_blocks us = unat (shm_blk_size (us + 8))"

definition sh_need :: "u32 \<Rightarrow> u16 \<Rightarrow> 'p shmq \<Rightarrow> nat" where
  "sh_need Bytes us q =
     sh_blocks us + (if ring_size Bytes - slot Bytes (q_write_idx q) < sh_blocks us
                     then ring_size Bytes - slot Bytes (q_write_idx q) else 0)"

definition sh_staged :: "u32 \<Rightarrow> u16 \<Rightarrow> 'p shmq \<Rightarrow> bool" where
  "sh_staged Bytes us q \<longleftrightarrow>
     hdr_size (header (q_blk q ! slot Bytes (q_write_idx q))) = us + 8 \<and>
     slot Bytes (q_write_idx q) + sh_blocks us \<le> ring_size Bytes \<and>
     unat (q_write_idx q - q_read_idx_cach q) + sh_blocks us \<le> ring_size Bytes"

lemma sh_blocks_le: "sh_blocks us \<le> 1024"
  using unat_u16_less [of "us + 8"] by (simp add: sh_blocks_def unat_shm_blk_size)

lemma sh_blocks_pos: "unat us \<le> 65527 \<Longrightarrow> 0 < sh_blocks us"
  by (simp add: sh_blocks_def unat_shm_blk_size unat_word_ariths)

lemma mark_inv:
  assumes inv: "shmq_inv Bytes q" and sa: "shmq_static_assert Bytes"
    and room: "unat (q_write_idx q - q_read_idx_cach q) + (ring_size Bytes - slot Bytes (q_write_idx q))
      < ring_size Bytes"
  defines "pad \<equiv> shmq_BLK_CNT Bytes - (q_write_idx q mod shmq_BLK_CNT Bytes)"
  defines "q1 \<equiv> (shmq_set_size (slot Bytes (q_write_idx q)) 0 q)\<lparr>q_write_idx := q_write_idx q + pad\<rparr>"
  shows "shmq_inv Bytes q1" and "shm_pending Bytes q1 = shm_pending Bytes q"
    and "slot Bytes (q_write_idx q1) = 0"
    and "unat (q_write_idx q1 - q_read_idx_cach q1) = unat (q_write_idx q - q_read_idx_cach q)
      + (ring_size Bytes - slot Bytes (q_write_idx q))"
    and "same_view Bytes q q1"
proof -
  note D = shmq_invD [OF inv]
  let ?B = "ring_size Bytes" and ?w = "q_write_idx q" and ?q0 = "shmq_set_size (slot Bytes (q_write_idx q)) 0 q"
  have pad: "unat pad = ?B - slot Bytes ?w"
    unfolding pad_def by (rule unat_padding [OF sa])
  have atom: "?w = q_write_idx_atom q"
  proof (rule ccontr)
    assume "?w \<noteq> q_write_idx_atom q"
    then have "slot Bytes ?w = 0" using inv by (simp add: shmq_inv_def)
    then show False using room by simp
  qed
  have S: "shmq_inv Bytes ?q0" "shm_pending Bytes ?q0 = shm_pending Bytes q"
      "hdr_size (header (q_blk ?q0 ! slot Bytes ?w)) = 0" "same_view Bytes q ?q0"
    by (rule set_size_frame [OF inv sa]; use room D in linarith)+
  show "same_view Bytes q q1"
    using S(4) by (simp add: q1_def same_view_def)
  show slot0: "slot Bytes (q_write_idx q1) = 0"
    unfolding q1_def pad_def using slot_rewind [OF sa] by simp
  have "unat (?w + pad - q_read_idx_cach q) = unat (?w - q_read_idx_cach q) + unat (?w + pad - ?w)"
    by (rule dist_trans) (use pad room ring_size_bound [of Bytes] in simp)
  then show "unat (q_write_idx q1 - q_read_idx_cach q1) = unat (?w - q_read_idx_cach q) + (?B - slot Bytes ?w)"
    by (simp add: q1_def pad)
  show "shm_pending Bytes q1 = shm_pending Bytes q"
    using S(2) by (simp add: q1_def shm_pending_def)
  show "shmq_inv Bytes q1"
    using S(1,3) slot0 pad room D atom by (simp add: shmq_inv_def q1_def)
qed

lemma sh_need_unat:
  fixes q :: "'p shmq"
  assumes sa: "shmq_static_assert Bytes"
  defines "pad \<equiv> shmq_BLK_CNT Bytes - (q_write_idx q mod shmq_BLK_CNT Bytes)"
  shows "unat (shm_blk_size (us + 8) + (if pad < shm_blk_size (us + 8) then pad else 0)) = sh_need Bytes us q"
    and "sh_need Bytes us q \<le> 134217728"
    and "pad < shm_blk_size (us + 8) \<longleftrightarrow> ring_size Bytes - slot Bytes (q_write_idx q) < sh_blocks us"
proof -
  have pad: "unat pad = ring_size Bytes - slot Bytes (q_write_idx q)"
    unfolding pad_def by (rule unat_padding [OF sa])
  have bounds: "sh_blocks us \<le> 1024" "ring_size Bytes < 67108864"
    by (rule sh_blocks_le, rule ring_size_bound)
  show "pad < shm_blk_size (us + 8) \<longleftrightarrow> ring_size Bytes - slot Bytes (q_write_idx q) < sh_blocks us"
    by (simp add: word_less_nat_alt pad sh_blocks_def)
  then show "unat (shm_blk_size (us + 8) + (if pad < shm_blk_size (us + 8) then pad else 0)) = sh_need Bytes us q"
    using bounds pad by (auto simp: sh_need_def unat_word_ariths sh_blocks_def)
  show "sh_need Bytes us q \<le> 134217728"
    using bounds by (simp add: sh_need_def)
qed

text \<open>
  \<open>Alloc\<close> fails exactly when the blocks it needs do not fit between the current read index
  and the write index; then only the cached read index changes.
\<close>

lemma shmq_Alloc_cases:
  assumes inv: "shmq_inv Bytes q" and sa: "shmq_static_assert Bytes"
  shows "ring_size Bytes < unat (q_write_idx q - q_read_idx q) + sh_need Bytes us q \<Longrightarrow>
      shmq_Alloc Bytes us q = (None, q\<lparr>q_read_idx_cach := q_read_idx q\<rparr>)"
    and "unat (q_write_idx q - q_read_idx q) + sh_need Bytes us q \<le> ring_size Bytes \<Longrightarrow>
      \<exists>q1. (q1 = q \<or> q1 = q\<lparr>q_read_idx_cach := q_read_idx q\<rparr>) \<and>
        unat (q_write_idx q1 - q_read_idx_cach q1) + sh_need Bytes us q \<le> ring_size Bytes \<and>
        (let pad = shmq_BLK_CNT Bytes - (q_write_idx q1 mod shmq_BLK_CNT Bytes);
             q2 = (if ring_size Bytes - slot Bytes (q_write_idx q) < sh_blocks us
                   then (shmq_set_size (slot Bytes (q_write_idx q1)) 0 q1)\<lparr>q_write_idx := q_write_idx q1 + pad\<rparr>
                   else q1)
         in shmq_Alloc Bytes us q =
              (Some (slot Bytes (q_write_idx q2)), shmq_set_size (slot Bytes (q_write_idx q2)) (us + 8) q2))"
proof -
  note D = shmq_invD [OF inv]
  note N = sh_need_unat [OF sa, where q = q and us = us]
  let ?B = "ring_size Bytes"
  let ?pad = "shmq_BLK_CNT Bytes - (q_write_idx q mod shmq_BLK_CNT Bytes)"
  let ?need = "shm_blk_size (us + 8) + (if ?pad < shm_blk_size (us + 8) then ?pad else 0)"
  define min_read where "min_read = q_write_idx q + ?need - shmq_BLK_CNT Bytes"
  have cach: "sint (q_read_idx_cach q - min_read) < 0 \<longleftrightarrow>
      ?B < unat (q_write_idx q - q_read_idx_cach q) + sh_need Bytes us q"
    using space_test [of "q_write_idx q" "q_read_idx_cach q" Bytes ?need] D(5) N(1,2)
    by (simp only: min_read_def)
  have read: "sint (q_read_idx q - min_read) < 0 \<longleftrightarrow>
      ?B < unat (q_write_idx q - q_read_idx q) + sh_need Bytes us q"
    using space_test [of "q_write_idx q" "q_read_idx q" Bytes ?need] D(6) N(1,2)
    by (simp only: min_read_def)
  have mr: "q_write_idx q + shm_blk_size (us + 8) + (if ?pad < shm_blk_size (us + 8) then ?pad else 0)
      - shmq_BLK_CNT Bytes = min_read"
    by (simp add: min_read_def add.assoc)
  show "shmq_Alloc Bytes us q = (None, q\<lparr>q_read_idx_cach := q_read_idx q\<rparr>)"
    if "?B < unat (q_write_idx q - q_read_idx q) + sh_need Bytes us q"
  proof -
    have "?B < unat (q_write_idx q - q_read_idx_cach q) + sh_need Bytes us q"
      using that D(4) by linarith
    then show ?thesis
      using that cach read unfolding shmq_Alloc_def Let_def mr by simp
  qed
  show "\<exists>q1. (q1 = q \<or> q1 = q\<lparr>q_read_idx_cach := q_read_idx q\<rparr>) \<and>
        unat (q_write_idx q1 - q_read_idx_cach q1) + sh_need Bytes us q \<le> ring_size Bytes \<and>
        (let pad = shmq_BLK_CNT Bytes - (q_write_idx q1 mod shmq_BLK_CNT Bytes);
             q2 = (if ring_size Bytes - slot Bytes (q_write_idx q) < sh_blocks us
                   then (shmq_set_size (slot Bytes (q_write_idx q1)) 0 q1)\<lparr>q_write_idx := q_write_idx q1 + pad\<rparr>
                   else q1)
         in shmq_Alloc Bytes us q =
              (Some (slot Bytes (q_write_idx q2)), shmq_set_size (slot Bytes (q_write_idx q2)) (us + 8) q2))"
    if fits: "unat (q_write_idx q - q_read_idx q) + sh_need Bytes us q \<le> ?B"
  proof (cases "sint (q_read_idx_cach q - min_read) < 0")
    case True
    show ?thesis
      by (rule exI [of _ "q\<lparr>q_read_idx_cach := q_read_idx q\<rparr>"])
         (use True fits read N(3) in \<open>unfold shmq_Alloc_def Let_def mr, simp\<close>)
  next
    case False
    show ?thesis
      by (rule exI [of _ q]) (use False cach N(3) in \<open>unfold shmq_Alloc_def Let_def mr, simp\<close>)
  qed
qed

lemma shmq_Alloc_ok:
  assumes inv: "shmq_inv Bytes q" and sa: "shmq_static_assert Bytes" and us: "unat us \<le> 65527"
    and fits: "unat (q_write_idx q - q_read_idx q) + sh_need Bytes us q \<le> ring_size Bytes"
  obtains q1 where "shmq_Alloc Bytes us q = (Some (slot Bytes (q_write_idx q1)), q1)"
    "shmq_inv Bytes q1" "shm_pending Bytes q1 = shm_pending Bytes q" "sh_staged Bytes us q1"
    "same_view Bytes q q1"
proof -
  let ?B = "ring_size Bytes"
  obtain q1 where q1: "q1 = q \<or> q1 = q\<lparr>q_read_idx_cach := q_read_idx q\<rparr>"
      and room: "unat (q_write_idx q1 - q_read_idx_cach q1) + sh_need Bytes us q \<le> ?B"
      and alloc: "let pad = shmq_BLK_CNT Bytes - (q_write_idx q1 mod shmq_BLK_CNT Bytes);
             q2 = (if ?B - slot Bytes (q_write_idx q) < sh_blocks us
                   then (shmq_set_size (slot Bytes (q_write_idx q1)) 0 q1)\<lparr>q_write_idx := q_write_idx q1 + pad\<rparr>
                   else q1)
         in shmq_Alloc Bytes us q =
              (Some (slot Bytes (q_write_idx q2)), shmq_set_size (slot Bytes (q_write_idx q2)) (us + 8) q2)"
    using shmq_Alloc_cases(2) [OF inv sa fits] by blast
  have inv1: "shmq_inv Bytes q1" "shm_pending Bytes q1 = shm_pending Bytes q"
      "q_write_idx q1 = q_write_idx q" "q_read_idx q1 = q_read_idx q"
      "q_write_idx_atom q1 = q_write_idx_atom q" "same_view Bytes q q1"
    using q1 inv reload_inv [OF inv] by (auto simp: same_view_def)
  have n: "0 < sh_blocks us" by (rule sh_blocks_pos [OF us])
  define q2 where "q2 = (if ?B - slot Bytes (q_write_idx q) < sh_blocks us
      then (shmq_set_size (slot Bytes (q_write_idx q1)) 0 q1)
             \<lparr>q_write_idx := q_write_idx q1 + (shmq_BLK_CNT Bytes - (q_write_idx q1 mod shmq_BLK_CNT Bytes))\<rparr>
      else q1)"
  have q2': "shmq_inv Bytes q2 \<and> shm_pending Bytes q2 = shm_pending Bytes q \<and>
      slot Bytes (q_write_idx q2) + sh_blocks us \<le> ?B \<and>
      unat (q_write_idx q2 - q_read_idx_cach q2) + sh_blocks us \<le> ?B \<and>
      same_view Bytes q q2"
  proof (cases "?B - slot Bytes (q_write_idx q) < sh_blocks us")
    case True
    have "unat (q_write_idx q1 - q_read_idx_cach q1) + (?B - slot Bytes (q_write_idx q1)) < ?B"
      using True room n inv1(3) by (simp add: sh_need_def)
    note M = mark_inv [OF inv1(1) sa this]
    show ?thesis
      using M True room inv1 same_view_trans [OF inv1(6) M(5)] by (simp add: q2_def sh_need_def)
  next
    case False
    then show ?thesis
      using room inv1 n by (simp add: q2_def sh_need_def)
  qed
  then have q2: "shmq_inv Bytes q2" "shm_pending Bytes q2 = shm_pending Bytes q"
      "slot Bytes (q_write_idx q2) + sh_blocks us \<le> ?B"
      "unat (q_write_idx q2 - q_read_idx_cach q2) + sh_blocks us \<le> ?B"
      "same_view Bytes q q2"
    by blast+
  let ?q3 = "shmq_set_size (slot Bytes (q_write_idx q2)) (us + 8) q2"
  have "unat (q_write_idx q2 - q_read_idx q2) < ?B"
    using q2(4) n shmq_invD(4) [OF q2(1)] by linarith
  note S = set_size_frame [OF q2(1) sa this, of "us + 8"]
  have "shmq_Alloc Bytes us q = (Some (slot Bytes (q_write_idx ?q3)), ?q3)"
    using alloc by (simp add: Let_def q2_def)
  then show thesis
    by (rule that) (use S q2 same_view_trans [OF q2(5) S(4)] in \<open>simp_all add: sh_staged_def\<close>)
qed

lemma shmq_fill_ok:
  fixes q :: "'p shmq" and body1 :: 'p and t :: u16
  assumes inv: "shmq_inv Bytes q" and sa: "shmq_static_assert Bytes" and st: "sh_staged Bytes us q"
    and body: "Suc (length body) = sh_blocks us"
  defines "w \<equiv> slot Bytes (q_write_idx q)"
  defines "q1 \<equiv> shmq_fill Bytes t body1 body q"
  shows "shmq_inv Bytes q1" and "shm_pending Bytes q1 = shm_pending Bytes q"
    and "sh_staged Bytes us q1" and "q_write_idx q1 = q_write_idx q"
    and "seg w (w + sh_blocks us) (q_blk q1) =
      \<lparr>header = (header (q_blk q ! w))\<lparr>msg_type := t\<rparr>, rest = body1\<rparr> # body"
    and "same_view Bytes q q1"
proof -
  note D = shmq_invD [OF inv]
  let ?b = "\<lparr>header = (header (q_blk q ! w))\<lparr>msg_type := t\<rparr>, rest = body1\<rparr>"
  have room: "w + length (?b # body) \<le> length (q_blk q)"
    using st body D(1) by (simp add: sh_staged_def w_def)
  have q1: "q1 = q\<lparr>q_blk := blit (?b # body) w (q_blk q)\<rparr>"
    by (simp add: q1_def shmq_fill_def Let_def w_def)
  have "unat (q_write_idx q - q_read_idx q) + sh_blocks us \<le> ring_size Bytes"
    using st D(4) by (simp add: sh_staged_def)
  note F = shmq_frame_at_write [OF inv _ sa this, of "blit (?b # body) w (q_blk q)"]
  have len: "length (blit (?b # body) w (q_blk q)) = ring_size Bytes"
    using length_blit [OF room] D(1) by simp
  have same: "\<And>x. x < ring_size Bytes \<Longrightarrow>
      \<not> (slot Bytes (q_write_idx q) \<le> x \<and> x < slot Bytes (q_write_idx q) + sh_blocks us) \<Longrightarrow>
      blit (?b # body) w (q_blk q) ! x = q_blk q ! x"
    using nth_blit [OF room] D(1) body by (auto simp: w_def)
  show "shmq_inv Bytes q1" "shm_pending Bytes q1 = shm_pending Bytes q" "same_view Bytes q q1"
    unfolding q1 using F [OF len] same st by (auto simp: sh_staged_def)
  show "q_write_idx q1 = q_write_idx q" by (simp add: q1)
  show sg: "seg w (w + sh_blocks us) (q_blk q1) = ?b # body"
    using seg_blit_same [OF room] body by (simp add: q1)
  have "q_blk q1 ! w = ?b"
    using nth_blit [OF room, of w] room by (simp add: q1)
  then show "sh_staged Bytes us q1"
    using st by (simp add: sh_staged_def q1 w_def)
qed

lemma shmq_Push_ok:
  assumes inv: "shmq_inv Bytes q" and sa: "shmq_static_assert Bytes" and st: "sh_staged Bytes us q"
    and us: "unat us \<le> 65527"
  defines "w \<equiv> slot Bytes (q_write_idx q)"
  defines "q1 \<equiv> shmq_Push Bytes q"
  shows "shmq_inv Bytes q1"
    and "shm_pending Bytes q1 = shm_pending Bytes q @ [seg w (w + sh_blocks us) (q_blk q)]"
    and "q_write_idx_atom q1 = q_write_idx q1" and "q_blk q1 = q_blk q"
proof -
  note D = shmq_invD [OF inv]
  let ?B = "ring_size Bytes" and ?p = "slot Bytes (q_read_idx q)"
    and ?d = "unat (q_write_idx_atom q - q_read_idx q)" and ?e = "unat (q_write_idx q - q_read_idx q)"
  have p: "?p < ?B" by (rule slot_less [OF sa])
  have sz: "hdr_size (header (q_blk q ! w)) = us + 8" and n: "sblks (q_blk q ! w) = sh_blocks us"
    using st by (simp_all add: sh_staged_def w_def sblks_def sh_blocks_def unat_shm_blk_size)
  have nz: "us + 8 \<noteq> 0"
  proof -
    have "unat (us + 8) \<noteq> 0" using us by (simp add: unat_word_ariths)
    then show ?thesis by (simp only: unat_eq_0) simp
  qed
  have upto_w: "ring_msgs ?B (q_blk q) ?p ?e = Some (shm_pending Bytes q)"
  proof (cases "q_write_idx q = q_write_idx_atom q")
    case True
    with D(2) show ?thesis by simp
  next
    case False
    let ?a = "slot Bytes (q_write_idx_atom q)"
    have mark: "hdr_size (header (q_blk q ! ?a)) = 0" "unat (q_write_idx q - q_write_idx_atom q) = ?B - ?a"
      using inv False by (auto simp: shmq_inv_def)
    have "(?p + ?d) mod ?B = ?a" using slot_offset [OF sa, of "q_write_idx_atom q" "q_read_idx q"] by simp
    then show ?thesis
      using ring_msgs_append [OF D(2) p, of "?B - ?a" "[]"] ring_msgs_mark [OF mark(1) slot_less [OF sa]]
        D(3) mark(2) by simp
  qed
  have "(?p + ?e) mod ?B = w"
    using slot_offset [OF sa, of "q_write_idx q" "q_read_idx q"] by (simp add: w_def)
  moreover have "ring_msgs ?B (q_blk q) w (sh_blocks us) = Some [seg w (w + sh_blocks us) (q_blk q)]"
    using ring_msgs_one [of "q_blk q" w ?B] st sz nz unfolding n by (simp add: sh_staged_def w_def)
  ultimately have all: "ring_msgs ?B (q_blk q) ?p (?e + sh_blocks us) =
      Some (shm_pending Bytes q @ [seg w (w + sh_blocks us) (q_blk q)])"
    using ring_msgs_append [OF upto_w p] by simp
  have q1: "q1 = q\<lparr>q_write_idx := q_write_idx q + shm_blk_size (us + 8),
      q_write_idx_atom := q_write_idx q + shm_blk_size (us + 8)\<rparr>"
    using sz by (simp add: q1_def shmq_Push_def Let_def w_def)
  have e1: "unat (q_write_idx q + shm_blk_size (us + 8) - q_read_idx q) = ?e + sh_blocks us"
  proof -
    have "q_write_idx q + shm_blk_size (us + 8) - q_read_idx q =
        (q_write_idx q - q_read_idx q) + shm_blk_size (us + 8)" by simp
    then show ?thesis
      using st D(4) ring_size_bound [of Bytes]
      by (simp only: unat_word_ariths) (simp add: sh_staged_def sh_blocks_def)
  qed
  show "shmq_inv Bytes q1"
    using inv all e1 st D(4) by (simp add: shmq_inv_def q1 sh_staged_def)
  show "shm_pending Bytes q1 = shm_pending Bytes q @ [seg w (w + sh_blocks us) (q_blk q)]"
    using all e1 by (simp add: shm_pending_def q1)
qed (simp_all add: q1_def shmq_Push_def Let_def)

section \<open>The consumer\<close>

text \<open>Reading less than everything finds a prefix of the messages.\<close>

lemma ring_msgs_split:
  assumes "ring_msgs B bs p d = Some ms" "e \<le> d" "ring_msgs B bs p e = Some cs"
  shows "\<exists>rest. ms = cs @ rest"
  using assms
proof (induction B bs p d arbitrary: ms e cs rule: ring_msgs.induct)
  case (1 B bs p d)
  show ?case
  proof (cases "e = 0")
    case True
    with "1.prems"(3) show ?thesis by simp
  next
    case e: False
    then have d: "0 < d" using "1.prems"(2) by simp
    have p: "p < B" using "1.prems"(1) d by (metis not_le option.distinct(1) ring_msgs_stop)
    show ?thesis
    proof (cases "hdr_size (header (bs ! p)) = 0")
      case True
      note D = ring_msgs_rewindD [OF "1.prems"(1) d True]
      note E = ring_msgs_rewindD [OF "1.prems"(3) _ True]
      show ?thesis
        by (rule "1.IH"(1) [OF _ _ True D(2) D(1) _ E(1)]) (use d e p "1.prems"(2) in auto)
    next
      case False
      define n where "n = sblks (bs ! p)"
      obtain ms' where M: "ms = seg p (p + n) bs # ms'"
          "ring_msgs B bs ((p + n) mod B) (d - n) = Some ms'" "n \<noteq> 0" "n \<le> d" "p + n \<le> B"
        using ring_msgs_msgD [OF "1.prems"(1) d False] by (auto simp: n_def)
      obtain cs' where C: "cs = seg p (p + n) bs # cs'"
          "ring_msgs B bs ((p + n) mod B) (e - n) = Some cs'" "n \<le> e"
        using ring_msgs_msgD [OF "1.prems"(3) _ False] e by (auto simp: n_def)
      have "\<exists>rest. ms' = cs' @ rest"
        by (rule "1.IH"(2) [OF _ _ False n_def _ M(2) _ C(2)]) (use d p M C "1.prems"(2) in auto)
      then show ?thesis using M(1) C(1) by auto
    qed
  qed
qed

text \<open>Moving the read counter over blocks that have been read.\<close>

lemma advance_read:
  fixes q :: "'p shmq" and k :: u32
  assumes inv: "shmq_inv Bytes q" and sa: "shmq_static_assert Bytes"
    and k: "unat k \<le> unat (q_write_idx_atom q - q_read_idx q)"
    and rest: "ring_msgs (ring_size Bytes) (q_blk q) ((slot Bytes (q_read_idx q) + unat k) mod ring_size Bytes)
      (unat (q_write_idx_atom q - q_read_idx q) - unat k) = Some ms"
  defines "q1 \<equiv> q\<lparr>q_read_idx := q_read_idx q + k\<rparr>"
  shows "shmq_inv Bytes q1" and "shm_pending Bytes q1 = ms"
    and "unat (q_write_idx_atom q - q_read_idx q1) = unat (q_write_idx_atom q - q_read_idx q) - unat k"
proof -
  let ?r = "q_read_idx q" and ?a = "q_write_idx_atom q" and ?c = "q_read_idx_cach q"
  have le: "unat (?r - ?c) + unat (?a - ?r) \<le> ring_size Bytes" and B: "ring_size Bytes < 67108864"
    using inv ring_size_bound [of Bytes] by (simp_all add: shmq_inv_def)
  have a: "unat (?a - (?r + k)) = unat (?a - ?r) - unat k"
  proof -
    have "?a - (?r + k) = (?a - ?r) - k" by simp
    then show ?thesis using k by (simp only: unat_sub_if') simp
  qed
  have c: "unat (?r + k - ?c) = unat (?r - ?c) + unat k"
    using dist_trans [of ?r ?c "?r + k"] le k B by simp
  show "unat (?a - q_read_idx q1) = unat (?a - ?r) - unat k"
    using a by (simp add: q1_def)
  have m: "ring_msgs (ring_size Bytes) (q_blk q) (slot Bytes (?r + k)) (unat (?a - (?r + k))) = Some ms"
    using rest by (simp only: a slot_add [OF sa])
  show "shm_pending Bytes q1 = ms"
    using m by (simp add: shm_pending_def q1_def)
  show "shmq_inv Bytes q1"
    using inv m k a c by (simp add: shmq_inv_def q1_def)
qed

text \<open>
  \<open>Front\<close> for a write counter \<open>cw\<close> that was loaded earlier: if there is no message before
  it, \<open>nullptr\<close>; otherwise the first pending message.  Only the read counter can move, and
  only over a rewind mark, which leaves the pending messages as they are.
\<close>

definition at_front :: "u32 \<Rightarrow> nat \<Rightarrow> 'p shmq \<Rightarrow> bool" where
  "at_front Bytes j q \<longleftrightarrow>
     j = slot Bytes (q_read_idx q) \<and> q_read_idx q \<noteq> q_write_idx_atom q \<and>
     hdr_size (header (q_blk q ! j)) \<noteq> 0"

definition seen_upto :: "u32 \<Rightarrow> u32 \<Rightarrow> 'p shmq \<Rightarrow> 'p block list list \<Rightarrow> bool" where
  "seen_upto Bytes cw q cs \<longleftrightarrow>
     unat (cw - q_read_idx q) \<le> unat (q_write_idx_atom q - q_read_idx q) \<and>
     ring_msgs (ring_size Bytes) (q_blk q) (slot Bytes (q_read_idx q)) (unat (cw - q_read_idx q)) = Some cs"

lemma seen_upto_atom: "shmq_inv Bytes q \<Longrightarrow> seen_upto Bytes (q_write_idx_atom q) q (shm_pending Bytes q)"
  using shmq_invD(2) [of Bytes q] by (simp add: seen_upto_def)

lemma seen_upto_prefix:
  "shmq_inv Bytes q \<Longrightarrow> seen_upto Bytes cw q cs \<Longrightarrow> \<exists>rest. shm_pending Bytes q = cs @ rest"
  using shmq_invD(2) [of Bytes q] ring_msgs_split by (fastforce simp: seen_upto_def)

lemma at_front_pending:
  assumes inv: "shmq_inv Bytes q" and fr: "at_front Bytes j q"
  obtains ms where "shm_pending Bytes q = seg j (j + sblks (q_blk q ! j)) (q_blk q) # ms"
    "ring_msgs (ring_size Bytes) (q_blk q) ((j + sblks (q_blk q ! j)) mod ring_size Bytes)
       (unat (q_write_idx_atom q - q_read_idx q) - sblks (q_blk q ! j)) = Some ms"
    "sblks (q_blk q ! j) \<le> unat (q_write_idx_atom q - q_read_idx q)"
proof -
  let ?d = "unat (q_write_idx_atom q - q_read_idx q)"
  have "?d \<noteq> 0" using fr by (auto simp: at_front_def unat_eq_0)
  then obtain ms where
    "shm_pending Bytes q = seg j (j + sblks (q_blk q ! j)) (q_blk q) # ms"
    "ring_msgs (ring_size Bytes) (q_blk q) ((j + sblks (q_blk q ! j)) mod ring_size Bytes)
       (?d - sblks (q_blk q ! j)) = Some ms" "sblks (q_blk q ! j) \<le> ?d"
    using ring_msgs_msgD [OF shmq_invD(2) [OF inv], where thesis = thesis] fr
    by (auto simp: at_front_def intro: that)
  then show thesis by (rule that)
qed

lemma shmq_Pop_ok:
  assumes inv: "shmq_inv Bytes q" and sa: "shmq_static_assert Bytes" and fr: "at_front Bytes j q"
  shows "shmq_inv Bytes (shmq_Pop Bytes q)"
    and "shm_pending Bytes q = seg j (j + sblks (q_blk q ! j)) (q_blk q) # shm_pending Bytes (shmq_Pop Bytes q)"
proof -
  let ?k = "shm_blk_size (hdr_size (header (q_blk q ! j)))"
  have k: "unat ?k = sblks (q_blk q ! j)" by (simp add: sblks_def unat_shm_blk_size)
  have j: "j = slot Bytes (q_read_idx q)" using fr by (simp add: at_front_def)
  obtain ms where ms: "shm_pending Bytes q = seg j (j + sblks (q_blk q ! j)) (q_blk q) # ms"
    "ring_msgs (ring_size Bytes) (q_blk q) ((j + unat ?k) mod ring_size Bytes)
       (unat (q_write_idx_atom q - q_read_idx q) - unat ?k) = Some ms"
    "unat ?k \<le> unat (q_write_idx_atom q - q_read_idx q)"
    using at_front_pending [OF inv fr] unfolding k by blast
  have pop: "shmq_Pop Bytes q = q\<lparr>q_read_idx := q_read_idx q + ?k\<rparr>"
    by (simp add: shmq_Pop_def Let_def j)
  have "ring_msgs (ring_size Bytes) (q_blk q) ((slot Bytes (q_read_idx q) + unat ?k) mod ring_size Bytes)
      (unat (q_write_idx_atom q - q_read_idx q) - unat ?k) = Some ms"
    using ms(2) j by simp
  note A = advance_read [OF inv sa ms(3) this, folded pop]
  show "shmq_inv Bytes (shmq_Pop Bytes q)" by (rule A(1))
  show "shm_pending Bytes q = seg j (j + sblks (q_blk q ! j)) (q_blk q) # shm_pending Bytes (shmq_Pop Bytes q)"
    using A(2) ms(1) by simp
qed

lemma rewind_read:
  fixes q :: "'p shmq"
  assumes inv: "shmq_inv Bytes q" and sa: "shmq_static_assert Bytes"
    and cw: "seen_upto Bytes cw q cs" "q_read_idx q \<noteq> cw"
    and z: "hdr_size (header (q_blk q ! slot Bytes (q_read_idx q))) = 0"
  defines "pad \<equiv> shmq_BLK_CNT Bytes - (q_read_idx q mod shmq_BLK_CNT Bytes)"
  defines "q1 \<equiv> q\<lparr>q_read_idx := q_read_idx q + pad\<rparr>"
  shows "shmq_inv Bytes q1" and "shm_pending Bytes q1 = shm_pending Bytes q"
    and "seen_upto Bytes cw q1 cs" and "slot Bytes (q_read_idx q1) = 0"
    and "q_read_idx q1 \<noteq> cw \<Longrightarrow> hdr_size (header (q_blk q ! 0)) \<noteq> 0"
proof -
  let ?B = "ring_size Bytes" and ?r = "q_read_idx q" and ?p = "slot Bytes (q_read_idx q)"
    and ?d = "unat (q_write_idx_atom q - q_read_idx q)" and ?e = "unat (cw - q_read_idx q)"
  have e: "0 < ?e" using cw(2) by (auto simp: unat_gt_0)
  have le: "?e \<le> ?d" and ms: "ring_msgs ?B (q_blk q) ?p ?e = Some cs"
    using cw(1) by (simp_all add: seen_upto_def)
  have d: "0 < ?d" "?d \<le> ?B" using e le inv by (simp_all add: shmq_inv_def)
  note E = ring_msgs_rewindD [OF ms e z] and D = ring_msgs_rewindD [OF shmq_invD(2) [OF inv] d(1) z]
  have pad: "unat pad = ?B - ?p" unfolding pad_def by (rule unat_padding [OF sa])
  show s0: "slot Bytes (q_read_idx q1) = 0"
    unfolding q1_def pad_def using slot_rewind [OF sa] by simp
  have "unat pad \<le> ?d"
    and "ring_msgs ?B (q_blk q) ((?p + unat pad) mod ?B) (?d - unat pad) = Some (shm_pending Bytes q)"
    using pad D by simp_all
  note A = advance_read [OF inv sa this, folded q1_def]
  show "shmq_inv Bytes q1" "shm_pending Bytes q1 = shm_pending Bytes q" by (rule A)+
  have e1: "unat (cw - q_read_idx q1) = ?e - unat pad"
  proof -
    have "cw - q_read_idx q1 = (cw - ?r) - pad" by (simp add: q1_def)
    then show ?thesis using E(2) pad by (simp only: unat_sub_if') simp
  qed
  have "q_blk q1 = q_blk q" "q_write_idx_atom q1 = q_write_idx_atom q" by (simp_all add: q1_def)
  then show "seen_upto Bytes cw q1 cs"
    using E(1) e1 s0 A(3) le pad by (simp add: seen_upto_def)
  show "hdr_size (header (q_blk q ! 0)) \<noteq> 0" if "q_read_idx q1 \<noteq> cw"
  proof
    assume z0: "hdr_size (header (q_blk q ! 0)) = 0"
    have pos: "0 < ?e - (?B - ?p)" 
    proof -
      have "unat (cw - q_read_idx q1) \<noteq> 0" using that by (auto simp: unat_eq_0)
      then show ?thesis using e1 pad by linarith
    qed
    then have "?B - 0 \<le> ?e - (?B - ?p)" by (rule ring_msgs_rewindD(2) [OF E(1) _ z0])
    then show False using le d(2) E(3) by linarith
  qed
qed

lemma shmq_front_at_ok:
  assumes inv: "shmq_inv Bytes q" and sa: "shmq_static_assert Bytes"
    and cw: "seen_upto Bytes cw q cs"
  obtains r q1 where "shmq_front_at Bytes cw q = (r, q1)" "shmq_inv Bytes q1"
    "shm_pending Bytes q1 = shm_pending Bytes q" "seen_upto Bytes cw q1 cs"
    "q1 = q\<lparr>q_read_idx := q_read_idx q1\<rparr>" "r = None \<longleftrightarrow> cs = []"
    "\<And>j. r = Some j \<Longrightarrow> at_front Bytes j q1"
proof (cases "q_read_idx q = cw")
  case True
  have "cs = []" using cw True by (simp add: seen_upto_def)
  then show ?thesis
    using that [of None q] True inv cw by (simp add: shmq_front_at_def Let_def)
next
  case ne: False
  let ?p = "slot Bytes (q_read_idx q)"
  have nonempty: "cs \<noteq> [] \<and> q_read_idx x \<noteq> q_write_idx_atom x"
    if s: "seen_upto Bytes cw x cs" "hdr_size (header (q_blk x ! slot Bytes (q_read_idx x))) \<noteq> 0"
      "q_read_idx x \<noteq> cw" for x :: "'a shmq"
  proof -
    have e: "0 < unat (cw - q_read_idx x)" using s(3) by (auto simp: unat_gt_0)
    have "cs \<noteq> []"
      using s(1) ring_msgs_msgD [OF _ e s(2)] by (fastforce simp: seen_upto_def)
    then show ?thesis using s(1) e by (auto simp: seen_upto_def)
  qed
  show ?thesis
  proof (cases "hdr_size (header (q_blk q ! ?p)) = 0")
    case False
    then show ?thesis
      using that [of "Some ?p" q] ne inv cw nonempty [OF cw False ne]
      by (simp add: shmq_front_at_def Let_def at_front_def)
  next
    case True
    define q1 where "q1 = q\<lparr>q_read_idx := q_read_idx q +
        (shmq_BLK_CNT Bytes - (q_read_idx q mod shmq_BLK_CNT Bytes))\<rparr>"
    note R = rewind_read [OF inv sa cw ne True, folded q1_def]
    have blk: "q_blk q1 = q_blk q" "q1 = q\<lparr>q_read_idx := q_read_idx q1\<rparr>" by (simp_all add: q1_def)
    show ?thesis
    proof (cases "q_read_idx q1 = cw")
      case True
      then have "shmq_front_at Bytes cw q = (None, q1)"
        using ne \<open>hdr_size _ = 0\<close> by (simp add: shmq_front_at_def Let_def q1_def)
      moreover have "cs = []" using R(3) True by (simp add: seen_upto_def)
      ultimately show ?thesis using that R blk(2) by blast
    next
      case False
      then have "shmq_front_at Bytes cw q = (Some (slot Bytes (q_read_idx q1)), q1)"
        using ne \<open>hdr_size _ = 0\<close> by (simp add: shmq_front_at_def Let_def q1_def)
      moreover have "at_front Bytes (slot Bytes (q_read_idx q1)) q1" "cs \<noteq> []"
        using nonempty [OF R(3)] R(4,5) False blk(1) by (simp_all add: at_front_def)
      ultimately show ?thesis using that R blk(2) by blast
    qed
  qed
qed

section \<open>Two processes on one ring\<close>

text \<open>
  The producer and the consumer run in different processes and interleave.  An operation of
  the producer reads the shared counter \<open>read_idx\<close> at most once and writes only what the
  consumer does not look at before the store to \<open>write_idx_atom\<close>, so it is one step;
  \<open>Front\<close> is two steps, the load of the write counter and the rest, between which the
  producer may publish more.  \<open>sent\<close> and \<open>got\<close> record the messages pushed and popped;
  they have no influence on the steps.  The atomics are taken as sequentially consistent.
\<close>

record 'p shm_sys =
  sy_queue :: "'p shmq"
  sy_staged :: "u16 option"
  sy_loaded :: "u32 option"
  sy_front :: "nat option"
  sy_sent :: "'p block list list"
  sy_got :: "'p block list list"

definition block_msg :: "nat \<Rightarrow> 'p shmq \<Rightarrow> 'p block list" where
  "block_msg j q = seg j (j + sblks (q_blk q ! j)) (q_blk q)"

definition do_alloc :: "u32 \<Rightarrow> u16 \<Rightarrow> 'p shm_sys \<Rightarrow> 'p shm_sys" where
  "do_alloc Bytes us s =
     (let (r, q) = shmq_Alloc Bytes us (sy_queue s)
      in s\<lparr>sy_queue := q, sy_staged := (if r = None then sy_staged s else Some us)\<rparr>)"

definition do_push :: "u32 \<Rightarrow> 'p shm_sys \<Rightarrow> 'p shm_sys" where
  "do_push Bytes s =
     s\<lparr>sy_queue := shmq_Push Bytes (sy_queue s), sy_staged := None,
       sy_sent := sy_sent s @ [block_msg (slot Bytes (q_write_idx (sy_queue s))) (sy_queue s)]\<rparr>"

definition do_front :: "u32 \<Rightarrow> u32 \<Rightarrow> 'p shm_sys \<Rightarrow> 'p shm_sys" where
  "do_front Bytes cw s =
     (let (r, q) = shmq_front_at Bytes cw (sy_queue s)
      in s\<lparr>sy_queue := q, sy_loaded := None, sy_front := r\<rparr>)"

definition do_pop :: "u32 \<Rightarrow> nat \<Rightarrow> 'p shm_sys \<Rightarrow> 'p shm_sys" where
  "do_pop Bytes j s =
     s\<lparr>sy_queue := shmq_Pop Bytes (sy_queue s), sy_front := None,
       sy_got := sy_got s @ [block_msg j (sy_queue s)]\<rparr>"

inductive shm_step :: "u32 \<Rightarrow> 'p shm_sys \<Rightarrow> 'p shm_sys \<Rightarrow> bool" for Bytes where
  producer_alloc: "unat us \<le> 65527 \<Longrightarrow> shm_step Bytes s (do_alloc Bytes us s)"
| producer_fill: "sy_staged s = Some us \<Longrightarrow> Suc (length body) = sh_blocks us \<Longrightarrow>
    shm_step Bytes s (s\<lparr>sy_queue := shmq_fill Bytes t body1 body (sy_queue s)\<rparr>)"
| producer_push: "sy_staged s = Some us \<Longrightarrow> shm_step Bytes s (do_push Bytes s)"
| consumer_load: "shm_step Bytes s
    (s\<lparr>sy_loaded := Some (q_write_idx_atom (sy_queue s)), sy_front := None\<rparr>)"
| consumer_front: "sy_loaded s = Some cw \<Longrightarrow> shm_step Bytes s (do_front Bytes cw s)"
| consumer_pop: "sy_front s = Some j \<Longrightarrow> sy_loaded s = None \<Longrightarrow> shm_step Bytes s (do_pop Bytes j s)"

inductive_cases shm_stepE: "shm_step Bytes s t"

definition shm_start :: "u32 \<Rightarrow> 'p shm_sys \<Rightarrow> bool" where
  "shm_start Bytes s \<longleftrightarrow>
     shmq_static_assert Bytes \<and>
     (\<exists>mem. length mem = ring_size Bytes \<and>
       s = \<lparr>sy_queue = shmq_new mem, sy_staged = None, sy_loaded = None, sy_front = None,
            sy_sent = [], sy_got = []\<rparr>)"

definition shm_sys_inv :: "u32 \<Rightarrow> 'p shm_sys \<Rightarrow> bool" where
  "shm_sys_inv Bytes s \<longleftrightarrow>
     shmq_static_assert Bytes \<and> shmq_inv Bytes (sy_queue s) \<and>
     sy_sent s = sy_got s @ shm_pending Bytes (sy_queue s) \<and>
     (\<forall>us. sy_staged s = Some us \<longrightarrow> sh_staged Bytes us (sy_queue s) \<and> unat us \<le> 65527) \<and>
     (\<forall>cw. sy_loaded s = Some cw \<longrightarrow> (\<exists>cs. seen_upto Bytes cw (sy_queue s) cs)) \<and>
     (\<forall>j. sy_front s = Some j \<longrightarrow> at_front Bytes j (sy_queue s))"

lemma shm_sys_invD:
  assumes "shm_sys_inv Bytes s"
  shows "shmq_static_assert Bytes" "shmq_inv Bytes (sy_queue s)"
    "sy_sent s = sy_got s @ shm_pending Bytes (sy_queue s)"
    "sy_staged s = Some us \<Longrightarrow> sh_staged Bytes us (sy_queue s) \<and> unat us \<le> 65527"
    "sy_loaded s = Some cw \<Longrightarrow> \<exists>cs. seen_upto Bytes cw (sy_queue s) cs"
    "sy_front s = Some j \<Longrightarrow> at_front Bytes j (sy_queue s)"
  using assms by (simp_all add: shm_sys_inv_def)

text \<open>What the consumer has established survives whatever the producer does.\<close>

lemma same_view_nth:
  assumes "same_view Bytes q q1" "shmq_static_assert Bytes"
    and "q_read_idx q \<noteq> q_write_idx_atom q"
  shows "q_blk q1 ! slot Bytes (q_read_idx q) = q_blk q ! slot Bytes (q_read_idx q)"
proof -
  have "0 < unat (q_write_idx_atom q - q_read_idx q)" using assms(3) by (auto simp: unat_gt_0)
  then have "q_blk q1 ! ((slot Bytes (q_read_idx q) + 0) mod ring_size Bytes) =
      q_blk q ! ((slot Bytes (q_read_idx q) + 0) mod ring_size Bytes)"
    using assms(1) unfolding same_view_def by blast
  then show ?thesis using slot_less [OF assms(2), of "q_read_idx q"] by simp
qed

lemma same_view_consumer:
  assumes v: "same_view Bytes q q1" and inv: "shmq_inv Bytes q" and sa: "shmq_static_assert Bytes"
  shows "at_front Bytes j q \<Longrightarrow> at_front Bytes j q1"
    and "seen_upto Bytes cw q cs \<Longrightarrow> seen_upto Bytes cw q1 cs"
proof -
  have eq: "q_read_idx q1 = q_read_idx q" "q_write_idx_atom q1 = q_write_idx_atom q"
    "length (q_blk q1) = ring_size Bytes"
    using v shmq_invD(1) [OF inv] by (simp_all add: same_view_def)
  show "at_front Bytes j q1" if "at_front Bytes j q"
    using that same_view_nth [OF v sa] eq by (auto simp: at_front_def)
  show "seen_upto Bytes cw q1 cs" if s: "seen_upto Bytes cw q cs"
  proof -
    let ?e = "unat (cw - q_read_idx q)"
    have "ring_msgs (ring_size Bytes) (q_blk q1) (slot Bytes (q_read_idx q)) ?e =
        ring_msgs (ring_size Bytes) (q_blk q) (slot Bytes (q_read_idx q)) ?e"
      by (rule ring_msgs_cong)
         (use v s eq shmq_invD(1) [OF inv] in \<open>auto simp: same_view_def seen_upto_def\<close>)
    then show ?thesis using s eq by (simp add: seen_upto_def)
  qed
qed

lemma push_consumer:
  assumes inv: "shmq_inv Bytes q" and sa: "shmq_static_assert Bytes" and st: "sh_staged Bytes us q"
    and us: "unat us \<le> 65527"
  shows "at_front Bytes j q \<Longrightarrow> at_front Bytes j (shmq_Push Bytes q)"
    and "seen_upto Bytes cw q cs \<Longrightarrow> seen_upto Bytes cw (shmq_Push Bytes q) cs"
proof -
  note P = shmq_Push_ok [OF inv sa st us]
  let ?q1 = "shmq_Push Bytes q"
  have r: "q_read_idx ?q1 = q_read_idx q" by (simp add: shmq_Push_def Let_def)
  have w: "q_write_idx ?q1 = q_write_idx q + shm_blk_size (us + 8)"
    using st by (simp add: shmq_Push_def sh_staged_def Let_def)
  have d: "unat (q_write_idx_atom ?q1 - q_read_idx q) =
      unat (q_write_idx q - q_read_idx q) + sh_blocks us"
    using dist_trans [of "q_write_idx q" "q_read_idx q" "q_write_idx q + shm_blk_size (us + 8)"]
      st shmq_invD(4) [OF inv] ring_size_bound [of Bytes]
    by (simp add: P(3) w sh_staged_def flip: sh_blocks_def)
  have pos: "0 < sh_blocks us" by (rule sh_blocks_pos [OF us])
  then show "at_front Bytes j ?q1" if "at_front Bytes j q"
    using that d r P(4) unat_gt_0 by (fastforce simp: at_front_def)
  show "seen_upto Bytes cw ?q1 cs" if "seen_upto Bytes cw q cs"
    using that d r P(4) shmq_invD(3) [OF inv] by (simp add: seen_upto_def)
qed

lemma staged_read [simp]: "sh_staged Bytes us (q\<lparr>q_read_idx := r\<rparr>) = sh_staged Bytes us q"
  by (simp add: sh_staged_def)

lemma staged_reload:
  assumes "shmq_inv Bytes q" "sh_staged Bytes us q"
  shows "sh_staged Bytes us (q\<lparr>q_read_idx_cach := q_read_idx q\<rparr>)"
  using assms shmq_invD(4) [OF assms(1)] by (simp add: sh_staged_def)

lemma staged_block_msg:
  "sh_staged Bytes us q \<Longrightarrow>
     block_msg (slot Bytes (q_write_idx q)) q =
       seg (slot Bytes (q_write_idx q)) (slot Bytes (q_write_idx q) + sh_blocks us) (q_blk q)"
  by (simp add: block_msg_def sh_staged_def sblks_def sh_blocks_def unat_shm_blk_size)

lemma do_alloc_inv:
  assumes I: "shm_sys_inv Bytes s" and us: "unat us \<le> 65527"
  shows "shm_sys_inv Bytes (do_alloc Bytes us s)"
proof -
  note D = shm_sys_invD [OF I]
  let ?q = "sy_queue s"
  show ?thesis
  proof (cases "unat (q_write_idx ?q - q_read_idx ?q) + sh_need Bytes us ?q \<le> ring_size Bytes")
    case True
    then obtain q1 where "shmq_Alloc Bytes us ?q = (Some (slot Bytes (q_write_idx q1)), q1)"
        "shmq_inv Bytes q1" "shm_pending Bytes q1 = shm_pending Bytes ?q" "sh_staged Bytes us q1"
        "same_view Bytes ?q q1"
      using shmq_Alloc_ok [OF D(2,1) us] by blast
    then show ?thesis
      using D us same_view_consumer [OF _ D(2,1)]
      by (fastforce simp: shm_sys_inv_def do_alloc_def)
  next
    case False
    then have a: "shmq_Alloc Bytes us ?q = (None, ?q\<lparr>q_read_idx_cach := q_read_idx ?q\<rparr>)"
      using shmq_Alloc_cases(1) [OF D(2,1)] by simp
    have "same_view Bytes ?q (?q\<lparr>q_read_idx_cach := q_read_idx ?q\<rparr>)"
      by (rule same_view_eqI) simp_all
    then show ?thesis
      using D a reload_inv [OF D(2)] staged_reload [OF D(2)] same_view_consumer [OF _ D(2,1)]
      by (fastforce simp: shm_sys_inv_def do_alloc_def)
  qed
qed

lemma do_fill_inv:
  assumes I: "shm_sys_inv Bytes s" and st: "sy_staged s = Some us" and len: "Suc (length body) = sh_blocks us"
  shows "shm_sys_inv Bytes (s\<lparr>sy_queue := shmq_fill Bytes t body1 body (sy_queue s)\<rparr>)"
proof -
  note D = shm_sys_invD [OF I]
  note F = shmq_fill_ok [OF D(2,1) conjunct1 [OF D(4) [OF st]] len]
  show ?thesis
    using D(1,3,5,6) D(4) [OF st] F st same_view_consumer [OF F(6) D(2,1)]
    by (fastforce simp: shm_sys_inv_def)
qed

lemma do_push_inv:
  assumes I: "shm_sys_inv Bytes s" and st: "sy_staged s = Some us"
  shows "shm_sys_inv Bytes (do_push Bytes s)"
proof -
  note D = shm_sys_invD [OF I]
  have S: "sh_staged Bytes us (sy_queue s)" "unat us \<le> 65527" using D(4) [OF st] by simp_all
  show ?thesis
    using D(1,3,5,6) shmq_Push_ok [OF D(2,1) S] push_consumer [OF D(2,1) S] staged_block_msg [OF S(1)]
    by (fastforce simp: shm_sys_inv_def do_push_def)
qed

lemma do_front_inv:
  assumes I: "shm_sys_inv Bytes s" and cw: "sy_loaded s = Some cw"
  shows "shm_sys_inv Bytes (do_front Bytes cw s)"
proof -
  note D = shm_sys_invD [OF I]
  obtain cs where "seen_upto Bytes cw (sy_queue s) cs" using D(5) [OF cw] ..
  from shmq_front_at_ok [OF D(2,1) this] obtain r q1 where F:
      "shmq_front_at Bytes cw (sy_queue s) = (r, q1)" "shmq_inv Bytes q1"
      "shm_pending Bytes q1 = shm_pending Bytes (sy_queue s)"
      "q1 = (sy_queue s)\<lparr>q_read_idx := q_read_idx q1\<rparr>" "\<And>j. r = Some j \<Longrightarrow> at_front Bytes j q1"
    by metis
  have "sh_staged Bytes us q1 = sh_staged Bytes us (sy_queue s)" for us
    by (subst F(4)) simp
  then show ?thesis
    using D(1,3,4) F(1-3,5) by (simp add: shm_sys_inv_def do_front_def)
qed

lemma do_pop_inv:
  assumes I: "shm_sys_inv Bytes s" and j: "sy_front s = Some j" "sy_loaded s = None"
  shows "shm_sys_inv Bytes (do_pop Bytes j s)"
proof -
  note D = shm_sys_invD [OF I]
  note P = shmq_Pop_ok [OF D(2,1) D(6) [OF j(1)]]
  have "sh_staged Bytes us (shmq_Pop Bytes (sy_queue s)) = sh_staged Bytes us (sy_queue s)" for us
    by (simp add: shmq_Pop_def Let_def)
  then show ?thesis
    using D(1,3,4) P j by (simp add: shm_sys_inv_def do_pop_def block_msg_def)
qed

lemma shm_start_inv: "shm_start Bytes s \<Longrightarrow> shm_sys_inv Bytes s"
  using shmq_new_inv by (fastforce simp: shm_start_def shm_sys_inv_def)

lemma shm_step_inv:
  assumes I: "shm_sys_inv Bytes s" and st: "shm_step Bytes s t"
  shows "shm_sys_inv Bytes t"
  using st
proof (cases rule: shm_step.cases)
  case consumer_load
  then show ?thesis
    using shm_sys_invD [OF I] seen_upto_atom by (fastforce simp: shm_sys_inv_def)
qed (simp_all add: do_alloc_inv [OF I] do_fill_inv [OF I] do_push_inv [OF I] do_front_inv [OF I] do_pop_inv [OF I])

interpretation ring: state_invariant "shm_start Bytes" "shm_step Bytes" "shm_sys_inv Bytes"
  for Bytes :: u32
  by unfold_locales (fact shm_start_inv, fact shm_step_inv)

section \<open>Whole operations of one side\<close>

text \<open>Allocate, fill and push one message; false when \<open>Alloc\<close> returned \<open>nullptr\<close>.\<close>

definition shmq_post ::
  "u32 \<Rightarrow> u16 \<Rightarrow> u16 \<Rightarrow> 'p \<Rightarrow> 'p block list \<Rightarrow> 'p shmq \<Rightarrow> bool \<times> 'p shmq"
where
  "shmq_post Bytes us t body1 body q =
     (case shmq_Alloc Bytes us q of
        (None, q1) \<Rightarrow> (False, q1)
      | (Some p, q1) \<Rightarrow> (True, shmq_Push Bytes (shmq_fill Bytes t body1 body q1)))"

definition shm_fits :: "u32 \<Rightarrow> u16 \<Rightarrow> 'p shmq \<Rightarrow> bool" where
  "shm_fits Bytes us q \<longleftrightarrow>
     unat (q_write_idx q - q_read_idx q) + sh_need Bytes us q \<le> ring_size Bytes"

text \<open>What a reader sees of a message: the size and type of its header and its body.\<close>

fun shm_content :: "'p block list \<Rightarrow> (u16 \<times> u16 \<times> 'p \<times> 'p block list) option" where
  "shm_content (b # body) =
     Some (hdr_size (header b) - 8, msg_type (header b), rest b, body)"
| "shm_content [] = None"

lemma shmq_post_ok:
  assumes inv: "shmq_inv Bytes q" and sa: "shmq_static_assert Bytes" and us: "unat us \<le> 65527"
    and fits: "shm_fits Bytes us q" and body: "Suc (length body) = sh_blocks us"
  obtains m q1 where "shmq_post Bytes us t body1 body q = (True, q1)" "shmq_inv Bytes q1"
    "shm_pending Bytes q1 = shm_pending Bytes q @ [m]" "shm_content m = Some (us, t, body1, body)"
proof -
  obtain q1 where A: "shmq_Alloc Bytes us q = (Some (slot Bytes (q_write_idx q1)), q1)"
      "shmq_inv Bytes q1" "shm_pending Bytes q1 = shm_pending Bytes q" "sh_staged Bytes us q1"
    using shmq_Alloc_ok [OF inv sa us] fits by (metis shm_fits_def)
  let ?q2 = "shmq_fill Bytes t body1 body q1"
  note F = shmq_fill_ok [OF A(2) sa A(4) body, of t body1]
  note P = shmq_Push_ok [OF F(1) sa F(3) us]
  let ?w = "slot Bytes (q_write_idx q1)"
  let ?m = "\<lparr>header = (header (q_blk q1 ! ?w))\<lparr>msg_type := t\<rparr>, rest = body1\<rparr> # body"
  have size: "hdr_size (header (q_blk q1 ! ?w)) = us + 8" using A(4) by (simp add: sh_staged_def)
  show thesis
  proof (rule that)
    show "shmq_post Bytes us t body1 body q = (True, shmq_Push Bytes ?q2)"
      by (simp add: shmq_post_def A(1))
    show "shmq_inv Bytes (shmq_Push Bytes ?q2)" by (rule P(1))
    show "shm_pending Bytes (shmq_Push Bytes ?q2) = shm_pending Bytes q @ [?m]"
      using P(2) F(2,5) A(3) unfolding F(4) by simp
    show "shm_content ?m = Some (us, t, body1, body)" by (simp add: size)
  qed
qed

lemma shmq_post_null:
  assumes "shmq_inv Bytes q" "shmq_static_assert Bytes" "\<not> shm_fits Bytes us q"
  shows "shmq_post Bytes us t body1 body q = (False, q\<lparr>q_read_idx_cach := q_read_idx q\<rparr>)"
  using shmq_Alloc_cases(1) [OF assms(1,2), of us] assms(3) by (simp add: shmq_post_def shm_fits_def)

lemma shmq_Front_ok:
  assumes inv: "shmq_inv Bytes q" and sa: "shmq_static_assert Bytes"
  obtains r q1 where "shmq_Front Bytes q = (r, q1)" "shmq_inv Bytes q1"
    "shm_pending Bytes q1 = shm_pending Bytes q" "r = None \<longleftrightarrow> shm_pending Bytes q = []"
    "\<And>j. r = Some j \<Longrightarrow> at_front Bytes j q1"
  using shmq_front_at_ok [OF inv sa seen_upto_atom [OF inv]] unfolding shmq_Front_def by metis

lemma at_front_hd:
  assumes "shmq_inv Bytes q" "at_front Bytes j q"
  shows "\<exists>ms. shm_pending Bytes q = block_msg j q # ms"
  using at_front_pending [OF assms] unfolding block_msg_def by metis

section \<open>Properties\<close>

text \<open>
  The witnesses use a ring of four blocks, first empty, then with a message of two blocks
  in slots 2 and 3 and one of one block that follows it in slot 0.
\<close>

definition small_blk :: "u16 \<Rightarrow> u16 \<Rightarrow> nat block" where
  "small_blk sz t = \<lparr>header = \<lparr>hdr_size = sz, msg_type = t, ack_seq = 0\<rparr>, rest = 0\<rparr>"

definition small_ring :: "nat shmq" where
  "small_ring =
     \<lparr>q_blk = [small_blk 8 3, small_blk 0 0, small_blk 100 2, small_blk 0 0],
      q_write_idx = 5, q_write_idx_atom = 5, q_read_idx_cach = 1, q_read_idx = 2\<rparr>"

lemma BLK_CNT_256 [simp]: "shmq_BLK_CNT 256 = 4"
  by (simp add: shmq_BLK_CNT_def)

lemma small_static [simp]: "shmq_static_assert 256" and small_size [simp]: "ring_size 256 = 4"
  by (simp_all add: shmq_static_assert_def ring_size_def)

lemma small_pending_eq:
  "ring_msgs 4 (q_blk small_ring) 2 3 = Some [[small_blk 100 2, small_blk 0 0], [small_blk 8 3]]"
  by (simp add: ring_msgs.simps small_ring_def small_blk_def sblks_def Let_def seg_def)

lemma small_inv: "shmq_inv 256 small_ring"
  and small_pending: "shm_pending 256 small_ring = [[small_blk 100 2, small_blk 0 0], [small_blk 8 3]]"
  using small_pending_eq
  by (simp_all add: shmq_inv_def shm_pending_def slot_unat, simp_all add: small_ring_def)

text \<open>
  C3. The consumer gets every message exactly once and in order: in every state two
  processes can reach by interleaving their steps on one ring, the messages pushed are the
  messages popped followed by the messages still in the ring, and a message the consumer
  holds between \<open>Front\<close> and \<open>Pop\<close> is the oldest of these.
\<close>

theorem ring_exactly_once_in_order:
  assumes "reach (shm_start Bytes) (shm_step Bytes) s"
  shows "sy_sent s = sy_got s @ shm_pending Bytes (sy_queue s) \<and>
    (\<forall>j. sy_front s = Some j \<longrightarrow>
       (\<exists>ms. shm_pending Bytes (sy_queue s) = block_msg j (sy_queue s) # ms))"
proof -
  note D = shm_sys_invD [OF ring.inv_reach [OF assms]]
  show ?thesis using D(3) at_front_hd [OF D(2)] D(6) by blast
qed

text \<open>The run of the witnesses: one message is allocated, pushed and found by the consumer.\<close>

definition run0 :: "nat shm_sys" where
  "run0 = \<lparr>sy_queue = shmq_new (replicate 4 (small_blk 0 0)), sy_staged = None, sy_loaded = None,
     sy_front = None, sy_sent = [], sy_got = []\<rparr>"

definition run3 :: "nat shm_sys" where
  "run3 = (let s = do_push 256 (do_alloc 256 70 run0)
           in s\<lparr>sy_loaded := Some (q_write_idx_atom (sy_queue s)), sy_front := None\<rparr>)"

lemma run0_reach: "reach (shm_start 256) (shm_step 256) run0"
proof (rule reach_start)
  show "shm_start 256 run0"
    unfolding shm_start_def run0_def by (intro conjI exI [of _ "replicate 4 (small_blk 0 0)"]) simp_all
qed

definition run_blks :: "nat block list" where
  "run_blks = [small_blk 78 0, small_blk 0 0, small_blk 0 0, small_blk 0 0]"

lemma run0_alloc:
  "do_alloc 256 70 run0 =
     run0\<lparr>sy_queue := (shmq_new run_blks), sy_staged := Some 70\<rparr>"
proof -
  have "replicate 4 (small_blk 0 0) = [small_blk 0 0, small_blk 0 0, small_blk 0 0, small_blk 0 0]"
    by (simp add: numeral_eq_Suc)
  then show ?thesis
    by (simp add: do_alloc_def shmq_Alloc_def run0_def shmq_new_def shm_blk_size_def slot_def Let_def
        shmq_set_size_def small_blk_def run_blks_def)
qed

lemma run_blk0: "hdr_size (header (run_blks ! 0)) = 78" "sblks (run_blks ! 0) = 2"
    "seg 0 2 run_blks = [small_blk 78 0, small_blk 0 0]"
  by (simp_all add: run_blks_def small_blk_def sblks_def seg_def)

lemma run_push: "shmq_Push 256 (shmq_new run_blks) =
    (shmq_new run_blks)\<lparr>q_write_idx := 2, q_write_idx_atom := 2\<rparr>"
  using run_blk0(1) by (simp add: shmq_Push_def shmq_new_def slot_unat shm_blk_size_def Let_def)

lemma run3_eq:
  "sy_loaded run3 = Some 2" "sy_queue run3 = (shmq_new run_blks)\<lparr>q_write_idx := 2, q_write_idx_atom := 2\<rparr>"
  "sy_got run3 = []" "sy_sent run3 = [[small_blk 78 0, small_blk 0 0]]"
  unfolding run3_def run0_alloc do_push_def Let_def
  using run_blk0 by (simp_all add: run_push)
    (simp_all add: run0_def block_msg_def shmq_new_def slot_unat flip: numeral_2_eq_2)

lemma run3_reach: "reach (shm_start 256) (shm_step 256) run3"
proof -
  have "shm_step 256 run0 (do_alloc 256 70 run0)" by (rule producer_alloc) simp
  then have 1: "reach (shm_start 256) (shm_step 256) (do_alloc 256 70 run0)"
    by (rule reach_step [OF run0_reach])
  have "shm_step 256 (do_alloc 256 70 run0) (do_push 256 (do_alloc 256 70 run0))"
    by (rule producer_push [of _ 70]) (simp add: run0_alloc)
  from reach_step [OF 1 this] show ?thesis
    unfolding run3_def Let_def by (rule reach_step) (rule consumer_load)
qed

lemma run4_front: "do_front 256 2 run3 = run3\<lparr>sy_loaded := None, sy_front := Some 0\<rparr>"
  unfolding do_front_def run3_eq
  using run_blk0(1) by (simp add: shmq_front_at_def slot_unat Let_def shmq_new_def run3_eq)

lemma run4_reach: "reach (shm_start 256) (shm_step 256) (do_front 256 2 run3)"
  by (rule reach_step [OF run3_reach]) (rule consumer_front, rule run3_eq)

theorem ring_exactly_once_in_order_witness:
  "\<exists>ms. shm_pending 256 (sy_queue run3) = block_msg 0 (sy_queue run3) # ms"
  using ring_exactly_once_in_order [OF run4_reach] by (simp add: run4_front)

text \<open>
  C24. A message the consumer holds is not disturbed: as long as the consumer does not pop
  it or ask again, no step of the producer changes any of its blocks, so it may be read
  while the producer fills the ring behind it.
\<close>

theorem ring_front_is_stable:
  assumes "reach (shm_start Bytes) (shm_step Bytes) s" and "sy_front s = Some j"
    and "shm_step Bytes s t" and "sy_front t = Some j"
  shows "block_msg j (sy_queue t) = block_msg j (sy_queue s)"
proof -
  have t: "reach (shm_start Bytes) (shm_step Bytes) t"
    by (rule reach_step [OF assms(1,3)])
  note S = shm_sys_invD [OF ring.inv_reach [OF assms(1)]]
  note T = shm_sys_invD [OF ring.inv_reach [OF t]]
  obtain xs where xs: "sy_sent t = sy_sent s @ xs" "sy_got t = sy_got s"
    using assms(3,4)
    by (cases rule: shm_step.cases) (auto simp: do_alloc_def do_push_def do_front_def do_pop_def split: prod.splits)
  obtain ms ns where "shm_pending Bytes (sy_queue s) = block_msg j (sy_queue s) # ms"
      "shm_pending Bytes (sy_queue t) = block_msg j (sy_queue t) # ns"
    using at_front_hd [OF S(2) S(6) [OF assms(2)]] at_front_hd [OF T(2) T(6) [OF assms(4)]] by auto
  then show ?thesis using S(3) T(3) xs by simp
qed

theorem ring_front_is_stable_witness:
  "block_msg 0 (sy_queue (do_alloc 256 3 (do_front 256 2 run3))) = block_msg 0 (sy_queue run3)"
  using ring_front_is_stable [OF run4_reach, of 0 "do_alloc 256 3 (do_front 256 2 run3)"]
    producer_alloc [of 3 256 "do_front 256 2 run3"]
  by (simp add: run4_front do_alloc_def split: prod.splits)

text \<open>
  C11. Posting a message on a well-formed ring appends exactly one message with the given
  size, type and body when its blocks, and the padding before a rewind, fit between the
  consumer's position and the producer's; otherwise it returns false and only the
  producer's copy of the read index is refreshed.
\<close>

theorem shmq_post_appends:
  assumes "shmq_inv Bytes q" and "shmq_static_assert Bytes" and "unat us \<le> 65527"
    and "Suc (length body) = sh_blocks us"
  shows "if shm_fits Bytes us q
    then \<exists>m q1. shmq_post Bytes us t body1 body q = (True, q1) \<and> shmq_inv Bytes q1 \<and>
      shm_pending Bytes q1 = shm_pending Bytes q @ [m] \<and>
      shm_content m = Some (us, t, body1, body)
    else shmq_post Bytes us t body1 body q = (False, q\<lparr>q_read_idx_cach := q_read_idx q\<rparr>)"
proof (cases "shm_fits Bytes us q")
  case True
  then show ?thesis
    using shmq_post_ok [OF assms(1-3) True assms(4)] by (metis (no_types, lifting))
next
  case False
  then show ?thesis using shmq_post_null [OF assms(1,2) False] by simp
qed

lemma small_fits: "shm_fits 256 3 small_ring" "\<not> shm_fits 256 70 small_ring" "sh_blocks 3 = 1"
    "sh_blocks 70 = 2"
  by (simp_all add: shm_fits_def sh_need_def sh_blocks_def unat_shm_blk_size slot_unat)
     (simp_all add: small_ring_def)

theorem shmq_post_appends_witness:
  "\<exists>m q1. shmq_post 256 3 9 1 [] small_ring = (True, q1) \<and>
     shm_pending 256 q1 = [[small_blk 100 2, small_blk 0 0], [small_blk 8 3], m] \<and>
     shm_content m = Some (3, 9, 1, [])"
  using shmq_post_appends [OF small_inv small_static, of 3 "[]" 9 1]
  by (simp add: small_fits small_pending) blast

text \<open>
  \<open>Front\<close> returns the null pointer exactly when no message is pending; otherwise it
  returns the oldest one, changes nothing the producer wrote and no message, and the
  \<open>Pop\<close> after it removes exactly that message.
\<close>

theorem shmq_Front_Pop_oldest:
  assumes "shmq_inv Bytes q" and "shmq_static_assert Bytes"
  shows "\<exists>r q1. shmq_Front Bytes q = (r, q1) \<and> shmq_inv Bytes q1 \<and>
    shm_pending Bytes q1 = shm_pending Bytes q \<and> (r = None \<longleftrightarrow> shm_pending Bytes q = []) \<and>
    (\<forall>j. r = Some j \<longrightarrow> block_msg j q1 = hd (shm_pending Bytes q) \<and>
       shmq_inv Bytes (shmq_Pop Bytes q1) \<and>
       shm_pending Bytes (shmq_Pop Bytes q1) = tl (shm_pending Bytes q))"
proof -
  obtain r q1 where F: "shmq_Front Bytes q = (r, q1)" "shmq_inv Bytes q1"
      "shm_pending Bytes q1 = shm_pending Bytes q" "r = None \<longleftrightarrow> shm_pending Bytes q = []"
      "\<And>j. r = Some j \<Longrightarrow> at_front Bytes j q1"
    using shmq_Front_ok [OF assms] by metis
  have "block_msg j q1 = hd (shm_pending Bytes q) \<and> shmq_inv Bytes (shmq_Pop Bytes q1) \<and>
      shm_pending Bytes (shmq_Pop Bytes q1) = tl (shm_pending Bytes q)" if "r = Some j" for j
    using shmq_Pop_ok [OF F(2) assms(2) F(5) [OF that]] F(3) by (simp add: block_msg_def)
  then show ?thesis using F by blast
qed

theorem shmq_Front_Pop_oldest_witness:
  "\<exists>j q1. shmq_Front 256 small_ring = (Some j, q1) \<and>
     block_msg j q1 = [small_blk 100 2, small_blk 0 0] \<and>
     shm_pending 256 (shmq_Pop 256 q1) = [[small_blk 8 3]]"
  using shmq_Front_Pop_oldest [OF small_inv small_static] by (auto simp: small_pending)

text \<open>
  A message of at most half the ring can always be sent once the consumer has caught
  up: on an empty ring \<open>Alloc\<close> then succeeds wherever the indices stand.
\<close>

theorem shmq_Alloc_half_ring:
  assumes "shmq_inv Bytes q" and "shmq_static_assert Bytes" and "unat us \<le> 65527"
    and "q_read_idx q = q_write_idx q" and "2 * sh_blocks us \<le> Suc (ring_size Bytes)"
  shows "\<exists>q1. shmq_Alloc Bytes us q = (Some (slot Bytes (q_write_idx q1)), q1) \<and>
    sh_staged Bytes us q1"
proof -
  have "unat (q_write_idx q - q_read_idx q) + sh_need Bytes us q \<le> ring_size Bytes"
    using assms(4,5) by (simp add: sh_need_def)
  then show ?thesis
    using shmq_Alloc_ok [OF assms(1-3)] by metis
qed

definition idle_ring :: "nat shmq" where
  "idle_ring = \<lparr>q_blk = replicate 4 (small_blk 0 0), q_write_idx = 6, q_write_idx_atom = 6,
     q_read_idx_cach = 4, q_read_idx = 6\<rparr>"

lemma idle_inv: "shmq_inv 256 idle_ring" and idle_pending: "shm_pending 256 idle_ring = []"
  by (simp_all add: shmq_inv_def shm_pending_def idle_ring_def)

theorem shmq_Alloc_half_ring_witness:
  "\<exists>q1. shmq_Alloc 256 100 idle_ring = (Some (slot 256 (q_write_idx q1)), q1)"
  using shmq_Alloc_half_ring [OF idle_inv small_static, of 100]
  by (simp add: sh_blocks_def unat_shm_blk_size) (auto simp: idle_ring_def)

text \<open>A producer that tries \<open>n\<close> times, with the consumer polling in between.\<close>

fun shm_retry :: "u32 \<Rightarrow> u16 \<Rightarrow> nat \<Rightarrow> 'p shmq \<Rightarrow> nat option" where
  "shm_retry Bytes us 0 q = None"
| "shm_retry Bytes us (Suc n) q =
     (case shmq_Alloc Bytes us q of
        (Some j, q1) \<Rightarrow> Some j
      | (None, q1) \<Rightarrow> shm_retry Bytes us n (snd (shmq_Front Bytes q1)))"

text \<open>
  A message of more than half the ring can be refused for ever although the ring is
  empty and the message fits into it: when the blocks up to the end of the ring are too few
  and together with the message too many, \<open>Alloc\<close> on the empty ring fails, neither it nor
  the consumer's polling moves an index, so every later attempt fails as well.
\<close>

theorem shmq_Alloc_starves_on_empty:
  assumes "shmq_inv Bytes q" and "shmq_static_assert Bytes"
    and "q_read_idx q = q_write_idx_atom q" and "q_write_idx q = q_write_idx_atom q"
    and "ring_size Bytes < sh_need Bytes us q"
  shows "shm_retry Bytes us n q = None"
  using assms
proof (induction n arbitrary: q)
  case (Suc n)
  let ?q1 = "q\<lparr>q_read_idx_cach := q_read_idx q\<rparr>"
  have A: "shmq_Alloc Bytes us q = (None, ?q1)"
    using shmq_Alloc_cases(1) [OF Suc.prems(1,2)] Suc.prems(5) by simp
  have F: "shmq_Front Bytes ?q1 = (None, ?q1)"
    using Suc.prems(3) by (simp add: shmq_Front_def shmq_front_at_def Let_def)
  have "sh_need Bytes us ?q1 = sh_need Bytes us q" by (simp add: sh_need_def)
  then have "shm_retry Bytes us n ?q1 = None"
    by (intro Suc.IH) (use Suc.prems reload_inv [OF Suc.prems(1)] in simp_all)
  then show ?case by (simp add: A F)
qed simp

theorem shmq_Alloc_starves_on_empty_witness:
  "shm_retry 256 150 1000000 idle_ring = None \<and> sh_blocks 150 \<le> ring_size 256"
proof -
  have need: "sh_need 256 150 idle_ring = 5" and fits: "sh_blocks 150 = 3"
    by (simp_all add: sh_need_def sh_blocks_def unat_shm_blk_size slot_unat idle_ring_def)
  have "shm_retry 256 150 1000000 idle_ring = None"
    by (rule shmq_Alloc_starves_on_empty [OF idle_inv small_static])
       (simp_all only: need small_size, simp_all add: idle_ring_def)
  then show ?thesis by (simp add: fits)
qed

end
