(* ===== verification/System.thy ===== *)
theory System
  imports PTCPQueue SPSCVarQueue
begin

text \<open>
  The operating system as the library sees it, and \<^verbatim>\<open>mmap.h\<close>.  The system calls are not
  code of the repository: they are the fields of the record \<open>os\<close>, functions on an
  environment \<open>'e\<close> that stands for everything outside the process.  A call that can fail
  returns a sum: on the left the \<open>errno\<close> it sets, on the right its result.  What the
  documentation of the calls promises is stated by predicates on the record, which the
  theorems that need it take as hypotheses.
\<close>

section \<open>Results with faults\<close>

definition chk_bind :: "'a checked \<Rightarrow> ('a \<Rightarrow> 'b checked) \<Rightarrow> 'b checked" where
  "chk_bind m f = (case m of Inl e \<Rightarrow> Inl e | Inr x \<Rightarrow> f x)"

lemma chk_bind_simps [simp]:
  "chk_bind (Inr x) f = f x" "chk_bind (Inl e) f = Inl e"
  by (simp_all add: chk_bind_def)

lemma chk_bind_ok_iff: "chk_bind m f = Inr y \<longleftrightarrow> (\<exists>x. m = Inr x \<and> f x = Inr y)"
  by (cases m) auto

text \<open>Copying into an array, with the bounds the language leaves to the programmer.\<close>

definition write_at :: "'a list \<Rightarrow> nat \<Rightarrow> 'a list \<Rightarrow> 'a list checked" where
  "write_at ys i xs = (if i + length ys \<le> length xs then ok (blit ys i xs) else Inl OutOfBounds)"

section \<open>Character arrays\<close>

text \<open>
  A \<open>char\<close> array is a list of characters; a C string in it ends at the first null
  character.  \<open>strncpy\<close> overwrites the first \<open>n\<close> places, padding with nulls, and
  \<open>strncmp_eq\<close> is \<open>strncmp(a, b, n) == 0\<close>.
\<close>

abbreviation NUL :: char where
  "NUL \<equiv> CHR 0x00"

definition c_str :: "string \<Rightarrow> string" where
  "c_str s = takeWhile (\<lambda>ch. ch \<noteq> NUL) s"

definition strncpy :: "string \<Rightarrow> string \<Rightarrow> nat \<Rightarrow> string" where
  "strncpy dst src n = take n (c_str src @ replicate n NUL) @ drop n dst"

definition strncmp_eq :: "string \<Rightarrow> string \<Rightarrow> nat \<Rightarrow> bool" where
  "strncmp_eq a b n \<longleftrightarrow> take n (c_str a) = take n (c_str b)"

lemma length_strncpy [simp]: "n \<le> length dst \<Longrightarrow> length (strncpy dst src n) = length dst"
  by (simp add: strncpy_def)

lemma takeWhile_replicate_NUL [simp]: "takeWhile (\<lambda>ch. ch \<noteq> NUL) (replicate n NUL) = []"
  by (cases n) simp_all

lemma c_str_no_NUL: "NUL \<notin> set (c_str s)"
  by (auto simp: c_str_def dest: set_takeWhileD)

lemma c_str_idem [simp]: "c_str (c_str s) = c_str s"
  by (simp add: c_str_def takeWhile_takeWhile)

lemma c_str_prefix: "NUL \<notin> set a \<Longrightarrow> c_str (a @ b) = a @ c_str b"
  unfolding c_str_def by (rule takeWhile_append2) auto

lemma c_str_Nil_iff: "s \<noteq> [] \<Longrightarrow> c_str s = [] \<longleftrightarrow> s ! 0 = NUL"
  by (cases s) (simp_all add: c_str_def)

lemma c_str_strncpy:
  assumes "length dst = n"
  shows "c_str (strncpy dst src n) = take n (c_str src)"
proof -
  have "strncpy dst src n = take n (c_str src) @ replicate (n - length (c_str src)) NUL"
    using assms by (simp add: strncpy_def)
  moreover have "NUL \<notin> set (take n (c_str src))"
    using c_str_no_NUL in_set_takeD by fast
  ultimately show ?thesis by (simp add: c_str_prefix) (simp add: c_str_def)
qed

section \<open>System calls\<close>

type_synonym errno = int
type_synonym fd = int

text \<open>Shared memory blocks carry bytes; a mapped server name is an array of characters.\<close>

type_synonym ring = "u8 list shmq"

record 'e os =
  os_open :: "string \<Rightarrow> 'e \<Rightarrow> (errno + fd) \<times> 'e"
  os_shm_open :: "string \<Rightarrow> 'e \<Rightarrow> (errno + fd) \<times> 'e"
  os_ftruncate :: "fd \<Rightarrow> nat \<Rightarrow> 'e \<Rightarrow> (errno + unit) \<times> 'e"
  os_mmap_ptcp :: "fd \<Rightarrow> nat \<Rightarrow> 'e \<Rightarrow> (errno + ptcpq) \<times> 'e"
  os_mmap_ring :: "fd \<Rightarrow> nat \<Rightarrow> 'e \<Rightarrow> (errno + ring) \<times> 'e"
  os_mmap_name :: "fd \<Rightarrow> nat \<Rightarrow> 'e \<Rightarrow> (errno + string) \<times> 'e"
  os_munmap_ptcp :: "ptcpq \<Rightarrow> 'e \<Rightarrow> 'e"
  os_munmap_ring :: "ring \<Rightarrow> 'e \<Rightarrow> 'e"
  os_munmap_name :: "string \<Rightarrow> 'e \<Rightarrow> 'e"
  os_close :: "fd \<Rightarrow> 'e \<Rightarrow> 'e"
  os_send :: "fd \<Rightarrow> u8 list \<Rightarrow> 'e \<Rightarrow> (errno + nat) \<times> 'e"
  os_read :: "fd \<Rightarrow> nat \<Rightarrow> 'e \<Rightarrow> (errno + u8 list) \<times> 'e"
  os_socket :: "'e \<Rightarrow> (errno + fd) \<times> 'e"
  os_setsockopt :: "fd \<Rightarrow> string \<Rightarrow> 'e \<Rightarrow> (errno + unit) \<times> 'e"
  os_nonblock :: "fd \<Rightarrow> 'e \<Rightarrow> 'e"
  os_connect :: "fd \<Rightarrow> string \<Rightarrow> u16 \<Rightarrow> 'e \<Rightarrow> (errno + unit) \<times> 'e"
  os_bind :: "fd \<Rightarrow> string \<Rightarrow> u16 \<Rightarrow> 'e \<Rightarrow> (errno + unit) \<times> 'e"
  os_listen :: "fd \<Rightarrow> 'e \<Rightarrow> (errno + unit) \<times> 'e"
  os_accept :: "fd \<Rightarrow> 'e \<Rightarrow> (errno + (fd \<times> string)) \<times> 'e"

definition EAGAIN :: errno where
  "EAGAIN = 11"

section \<open>Mapping a file\<close>

text \<open>
  \<open>my_mmap<T>\<close>: the template argument appears as the mapping call at its type and the size
  of the object.  While an object is mapped the model keeps it as a value; \<open>my_munmap\<close>
  hands it back to the environment.  The result is the error message and \<open>errno\<close>, or the
  object.
\<close>

definition my_mmap ::
  "'e os \<Rightarrow> (fd \<Rightarrow> nat \<Rightarrow> 'e \<Rightarrow> (errno + 't) \<times> 'e) \<Rightarrow> nat \<Rightarrow> string \<Rightarrow> bool \<Rightarrow> 'e \<Rightarrow>
     ((string \<times> errno) + 't) \<times> 'e"
where
  "my_mmap N mmap_T sizeof_T filename use_shm e =
     (case (if use_shm then os_shm_open N filename e else os_open N filename e) of
        (Inl err, e1) \<Rightarrow> (Inl (''open'', err), e1)
      | (Inr fd, e1) \<Rightarrow>
          (case os_ftruncate N fd sizeof_T e1 of
             (Inl err, e2) \<Rightarrow> (Inl (''ftruncate'', err), os_close N fd e2)
           | (Inr _, e2) \<Rightarrow>
               (case mmap_T fd sizeof_T e2 of
                  (Inl err, e3) \<Rightarrow> (Inl (''mmap'', err), os_close N fd e3)
                | (Inr ret, e3) \<Rightarrow> (Inr ret, os_close N fd e3))))"

definition my_munmap :: "('t \<Rightarrow> 'e \<Rightarrow> 'e) \<Rightarrow> 't \<Rightarrow> 'e \<Rightarrow> 'e" where
  "my_munmap munmap_T addr e = munmap_T addr e"

text \<open>The sizes of the mapped objects in bytes.\<close>

definition sizeof_ptcpq :: "u32 \<Rightarrow> nat" where
  "sizeof_ptcpq Bytes = unat Bytes + 20"

definition sizeof_shmq :: "u32 \<Rightarrow> nat" where
  "sizeof_shmq Bytes = (64 * ring_size Bytes + 127) div 128 * 128 + 384"

end
