(* ===== verification/PTCPConn.thy ===== *)
theory PTCPConn
  imports System
begin

text \<open>
  Model of \<^verbatim>\<open>ptcp_conn.h\<close>: one end of a TCP connection with its persistent send queue, the
  receive buffer and the heartbeats.  The receive buffer is a list of bytes; a message in
  it is named by the index of its header.  A system call acts on the environment \<open>'e\<close>.
\<close>

section \<open>Configuration and state\<close>

text \<open>The members of \<open>Conf\<close> the library uses; \<open>byte_order\<close> has \<open>ToLittleEndian\<close>.\<close>

record conf =
  c_order :: byte_order
  NameSize :: nat
  TcpQueueSize :: u32
  ShmQueueSize :: u32
  TcpRecvBufInitSize :: u32
  TcpRecvBufMaxSize :: u32
  TcpNoDelay :: bool
  ConnectionTimeout :: int
  HeartBeatInverval :: int

text \<open>The \<open>static_assert\<close>s of the class and of the queue.\<close>

definition conf_ok :: "conf \<Rightarrow> bool" where
  "conf_ok cf \<longleftrightarrow>
     TcpRecvBufInitSize cf \<le> TcpRecvBufMaxSize cf \<and>
     TcpRecvBufInitSize cf mod 8 = 0 \<and> TcpRecvBufMaxSize cf mod 8 = 0 \<and>
     TcpQueueSize cf mod 8 = 0"

record pconn =
  q_ptr :: "ptcpq option"
  sockfd :: fd
  fd_to_close :: fd
  close_reason :: string
  close_errno :: errno
  recvbuf :: "u8 list"
  recvbuf_size :: u32
  writeidx :: u32
  nextmsg_idx :: u32
  readidx :: u32
  recv_time :: int
  send_time :: int
  now_time :: int
  hbmsg :: msg_header
  last_my_ack :: u32

definition pconn_new :: "conf \<Rightarrow> pconn" where
  "pconn_new cf =
     \<lparr>q_ptr = None, sockfd = -1, fd_to_close = -1, close_reason = ''nil'', close_errno = 0,
      recvbuf = [], recvbuf_size = 0, writeidx = 0, nextmsg_idx = 0, readidx = 0,
      recv_time = 0, send_time = 0, now_time = 0,
      hbmsg = ConvertByteOrder (c_order cf)
                \<lparr>hdr_size = 8, msg_type = HeartbeatMsg_type, ack_seq = 0\<rparr>,
      last_my_ack = 0\<rparr>"

definition UseShm :: "pconn \<Rightarrow> bool" where
  "UseShm c \<longleftrightarrow> q_ptr c = None"

definition IsClosed :: "pconn \<Rightarrow> bool" where
  "IsClosed c \<longleftrightarrow> sockfd c < 0"

text \<open>The queue behind the pointer; dereferencing a null pointer is a fault.\<close>

definition deref :: "pconn \<Rightarrow> ptcpq checked" where
  "deref c = (case q_ptr c of None \<Rightarrow> Inl NullPointer | Some q \<Rightarrow> ok q)"

section \<open>Closing\<close>

definition pconn_Close :: "string \<Rightarrow> errno \<Rightarrow> pconn \<Rightarrow> pconn" where
  "pconn_Close reason sys_errno c =
     (if sockfd c < 0 then c
      else c\<lparr>sockfd := -1, close_reason := reason, close_errno := sys_errno\<rparr>)"

definition RequestClose :: "pconn \<Rightarrow> pconn" where
  "RequestClose c = pconn_Close ''Request close'' 0 c"

definition TryCloseFd :: "'e os \<Rightarrow> pconn \<Rightarrow> 'e \<Rightarrow> bool \<times> pconn \<times> 'e" where
  "TryCloseFd N c e =
     (if sockfd c < 0 \<and> 0 \<le> fd_to_close c
      then (True, c\<lparr>fd_to_close := -1\<rparr>, os_close N (fd_to_close c) e)
      else (False, c, e))"

definition GetCloseReason :: "pconn \<Rightarrow> string \<times> errno" where
  "GetCloseReason c = (close_reason c, close_errno c)"

section \<open>The persistent queue\<close>

definition pconn_OpenFile ::
  "'e os \<Rightarrow> conf \<Rightarrow> string \<Rightarrow> pconn \<Rightarrow> 'e \<Rightarrow> ((string \<times> errno) option \<times> pconn) \<times> 'e"
where
  "pconn_OpenFile N cf ptcp_queue_file c e =
     (if q_ptr c = None then
        (case my_mmap N (os_mmap_ptcp N) (sizeof_ptcpq (TcpQueueSize cf)) ptcp_queue_file False e of
           (Inl err, e1) \<Rightarrow> ((Some err, c), e1)
         | (Inr q, e1) \<Rightarrow> ((None, c\<lparr>q_ptr := Some q\<rparr>), e1))
      else ((None, c), e))"

text \<open>The result is the acknowledgement number and what the sanity check says.\<close>

definition pconn_GetSeq ::
  "conf \<Rightarrow> pconn \<Rightarrow> (u32 \<times> (u32 \<times> u32) option) checked option"
where
  "pconn_GetSeq cf c =
     (case q_ptr c of
        None \<Rightarrow> Some (Inl NullPointer)
      | Some q \<Rightarrow> map_option (\<lambda>r. chk_bind r (\<lambda>s. ok (ptcpq_MyAck q, s)))
          (ptcpq_SanityCheckAndGetSeq (c_order cf) q))"

definition pconn_Reset :: "pconn \<Rightarrow> pconn checked" where
  "pconn_Reset c = chk_bind (deref c) (\<lambda>q. ok (c\<lparr>q_ptr := Some (ptcpq_new (blk q))\<rparr>))"

definition pconn_Release :: "'e os \<Rightarrow> pconn \<Rightarrow> 'e \<Rightarrow> pconn \<times> 'e" where
  "pconn_Release N c e =
     (case TryCloseFd N (pconn_Close ''Release'' 0 c) e of
        (_, c1, e1) \<Rightarrow>
          (case q_ptr c1 of
             None \<Rightarrow> (c1, e1)
           | Some q \<Rightarrow> (c1\<lparr>q_ptr := None\<rparr>, my_munmap (os_munmap_ptcp N) q e1)))"

section \<open>Sending\<close>

text \<open>The bytes of the queue's array in memory.\<close>

definition blocks_bytes :: "byte_order \<Rightarrow> msg_header list \<Rightarrow> u8 list" where
  "blocks_bytes E bs = concat (map (header_bytes E) bs)"

text \<open>
  The loop of \<open>SendPending\<close>: \<open>p\<close> is the offset of the next byte and \<open>sz\<close> the number of
  bytes left.  It ends with \<open>Inl errno\<close> when the connection has to be closed and with the
  number of bytes left otherwise.  Nothing in the code bounds the number of turns, so the
  loop is partial.
\<close>

partial_function (option) send_loop ::
  "'e os \<Rightarrow> fd \<Rightarrow> u8 list \<Rightarrow> nat \<Rightarrow> u32 \<Rightarrow> 'e \<Rightarrow> ((errno + u32) \<times> 'e) option"
where
  "send_loop N fd mem p sz e =
     (case os_send N fd (seg p (p + unat sz) mem) e of
        (Inl err, e1) \<Rightarrow>
          if err \<noteq> EAGAIN \<or> sz AND 7 \<noteq> 0 then Some (Inl err, e1) else Some (Inr sz, e1)
      | (Inr sent, e1) \<Rightarrow>
          let sz1 = sz - of_nat sent in
          if 0 < sz1 then send_loop N fd mem (p + sent) sz1 e1 else Some (Inr sz1, e1))"

declare send_loop.simps [code]

definition SendPending ::
  "'e os \<Rightarrow> conf \<Rightarrow> pconn \<Rightarrow> 'e \<Rightarrow> ((bool \<times> pconn) checked \<times> 'e) option"
where
  "SendPending N cf c e =
     (if IsClosed c then Some (ok (False, c), e)
      else case q_ptr c of
        None \<Rightarrow> Some (Inl NullPointer, e)
      | Some q \<Rightarrow>
          let (blk_sz, p) = ptcpq_GetSendable q in
          if blk_sz = 0 then Some (ok (False, c), e)
          else
            let sz = push_bit 3 (word_of_int blk_sz) in
            (case send_loop N (sockfd c) (blocks_bytes (c_order cf) (blk q)) (8 * unat p) sz e of
               None \<Rightarrow> None
             | Some (Inl err, e1) \<Rightarrow> Some (ok (False, pconn_Close ''Send error'' err c), e1)
             | Some (Inr left, e1) \<Rightarrow>
                 let sent_blk = sint (word_of_int blk_sz - drop_bit 3 left :: u32) in
                 if 0 < sent_blk
                 then Some (ok (True, c\<lparr>send_time := now_time c,
                                       q_ptr := Some (ptcpq_Sendout sent_blk q)\<rparr>), e1)
                 else Some (ok (True, c), e1)))"

definition pconn_Alloc :: "conf \<Rightarrow> u16 \<Rightarrow> pconn \<Rightarrow> (u32 option \<times> pconn) checked" where
  "pconn_Alloc cf sz c =
     chk_bind (deref c) (\<lambda>q. chk_bind (ptcpq_Alloc (TcpQueueSize cf) sz q)
       (\<lambda>(p, q1). ok (p, c\<lparr>q_ptr := Some q1\<rparr>)))"

definition pconn_PushMore :: "conf \<Rightarrow> pconn \<Rightarrow> pconn checked" where
  "pconn_PushMore cf c =
     chk_bind (deref c) (\<lambda>q. chk_bind (ptcpq_Push (c_order cf) q) (\<lambda>q1. ok (c\<lparr>q_ptr := Some q1\<rparr>)))"

definition pconn_Push :: "'e os \<Rightarrow> conf \<Rightarrow> pconn \<Rightarrow> 'e \<Rightarrow> (pconn checked \<times> 'e) option" where
  "pconn_Push N cf c e =
     (case pconn_PushMore cf c of
        Inl f \<Rightarrow> Some (Inl f, e)
      | Inr c1 \<Rightarrow> map_option (\<lambda>(r, e1). (chk_bind r (\<lambda>(_, c2). ok c2), e1)) (SendPending N cf c1 e))"

definition SendHB :: "'e os \<Rightarrow> conf \<Rightarrow> int \<Rightarrow> pconn \<Rightarrow> 'e \<Rightarrow> (pconn checked \<times> 'e) option" where
  "SendHB N cf now c0 e0 =
     (let c = c0\<lparr>now_time := now\<rparr>;
          send_hb = (\<lambda>c e.
            case os_send N (sockfd c) (header_bytes (c_order cf) (hbmsg c)) e of
              (Inl err, e1) \<Rightarrow>
                if err = EAGAIN then (ok c, e1) else (ok (pconn_Close ''Send error'' err c), e1)
            | (Inr sent, e1) \<Rightarrow>
                if sent \<noteq> 8 then (ok (pconn_Close ''Send error'' 0 c), e1)
                else (ok (c\<lparr>send_time := now_time c\<rparr>), e1))
      in if now_time c - send_time c < HeartBeatInverval cf then Some (ok c, e0)
         else case q_ptr c of
           None \<Rightarrow> Some (send_hb c e0)
         | Some _ \<Rightarrow>
             (case SendPending N cf c e0 of
                None \<Rightarrow> None
              | Some (Inl f, e1) \<Rightarrow> Some (Inl f, e1)
              | Some (Inr (True, c1), e1) \<Rightarrow> Some (ok c1, e1)
              | Some (Inr (False, c1), e1) \<Rightarrow>
                  (case deref c1 of
                     Inl f \<Rightarrow> Some (Inl f, e1)
                   | Inr q \<Rightarrow> Some (send_hb (c1\<lparr>hbmsg := (hbmsg c1)
                       \<lparr>ack_seq := Convert32 (c_order cf) (ptcpq_MyAck q)\<rparr>\<rparr>) e1))))"

definition pconn_Open ::
  "'e os \<Rightarrow> conf \<Rightarrow> fd \<Rightarrow> u32 \<Rightarrow> int \<Rightarrow> pconn \<Rightarrow> 'e \<Rightarrow> (pconn checked \<times> 'e) option"
where
  "pconn_Open N cf sock_fd remote_ack_seq now c0 e =
     (let c = c0\<lparr>sockfd := sock_fd, fd_to_close := sock_fd, writeidx := 0, readidx := 0,
                 nextmsg_idx := 0, recv_time := now, send_time := now, now_time := now\<rparr>;
          alloc_buf = (\<lambda>c. if recvbuf_size c = 0
            then c\<lparr>recvbuf_size := TcpRecvBufInitSize cf,
                   recvbuf := replicate (unat (TcpRecvBufInitSize cf)) 0\<rparr> else c)
      in case q_ptr c of
           None \<Rightarrow> Some (ok (alloc_buf c), e)
         | Some q \<Rightarrow>
             (case ptcpq_LoginAck (c_order cf) remote_ack_seq q of
                Inl f \<Rightarrow> Some (Inl f, e)
              | Inr q1 \<Rightarrow>
                  map_option (\<lambda>(r, e1). (chk_bind r (\<lambda>(_, c1). ok (alloc_buf c1)), e1))
                    (SendPending N cf (c\<lparr>q_ptr := Some q1\<rparr>) e)))"

section \<open>Receiving\<close>

text \<open>
  \<open>DoRecv\<close> reads once, first into the free end of the buffer and what does not fit into
  the stack buffer of 65536 bytes, and then makes room: by moving the unread bytes to the
  front, or by a larger buffer.  The caller advances the write index by the result.
\<close>

definition expand_size :: "conf \<Rightarrow> pconn \<Rightarrow> nat \<Rightarrow> u32" where
  "expand_size cf c ret =
     min (TcpRecvBufMaxSize cf)
         (max (recvbuf_size c * 2) ((writeidx c - readidx c + of_nat ret + 7) AND (- 8)))"

definition place_received :: "conf \<Rightarrow> u32 \<Rightarrow> u8 list \<Rightarrow> pconn \<Rightarrow> pconn checked" where
  "place_received cf writable bs c =
     (let ret = length bs;
          stackbuf = drop (unat writable) bs;
          r = unat (readidx c);
          keep = unat (recvbuf_size c - readidx c)
      in chk_bind (write_at (take (unat writable) bs) (unat (writeidx c)) (recvbuf c)) (\<lambda>buf.
         if of_nat ret \<le> writable then ok (c\<lparr>recvbuf := buf\<rparr>)
         else chk_bind
           (if of_nat ret \<le> writable + readidx c then
              chk_bind (write_at (seg r (r + keep) buf) 0 buf) (\<lambda>buf1.
              chk_bind (write_at stackbuf keep buf1) (\<lambda>buf2. ok (recvbuf_size c, buf2)))
            else
              (let newbufsize = expand_size cf c ret in
               chk_bind (write_at (seg r (r + keep) buf) 0 (replicate (unat newbufsize) 0)) (\<lambda>buf1.
               chk_bind (write_at stackbuf keep buf1) (\<lambda>buf2. ok (newbufsize, buf2)))))
           (\<lambda>(size2, buf2). ok (c\<lparr>recvbuf := buf2, recvbuf_size := size2,
              writeidx := writeidx c - readidx c, nextmsg_idx := nextmsg_idx c - readidx c,
              readidx := 0\<rparr>))))"

definition DoRecv :: "'e os \<Rightarrow> conf \<Rightarrow> pconn \<Rightarrow> 'e \<Rightarrow> (nat \<times> pconn) checked \<times> 'e" where
  "DoRecv N cf c0 e =
     (let c = (if 0 < readidx c0 \<and> readidx c0 = writeidx c0
               then c0\<lparr>readidx := 0, nextmsg_idx := 0, writeidx := 0\<rparr> else c0);
          writable = recvbuf_size c - writeidx c;
          allow_expand = (writable + readidx c) * 2 < recvbuf_size c;
          extra_size = min 65536
            (readidx c + (if allow_expand then TcpRecvBufMaxSize cf - recvbuf_size c else 0))
      in if writable + extra_size = 0 then (ok (0, c), e)
         else
           case os_read N (sockfd c) (unat writable + unat extra_size) e of
             (Inl err, e1) \<Rightarrow>
               (ok (0, if err = EAGAIN
                       then (if ConnectionTimeout cf < now_time c - recv_time c
                             then pconn_Close ''Timeout'' 0 c else c)
                       else pconn_Close ''Read error'' err c), e1)
           | (Inr bs, e1) \<Rightarrow>
               if bs = [] then (ok (0, pconn_Close ''Remote close'' 0 c), e1)
               else (chk_bind (place_received cf writable bs (c\<lparr>recv_time := now_time c\<rparr>))
                       (\<lambda>c1. ok (length bs, c1)), e1))"

text \<open>
  A message header in the buffer.  Reading or converting one outside the buffer is a fault.
\<close>

definition load_at :: "byte_order \<Rightarrow> u32 \<Rightarrow> pconn \<Rightarrow> msg_header checked" where
  "load_at E i c =
     (if unat i + 8 \<le> length (recvbuf c) then ok (load_header E (drop (unat i) (recvbuf c)))
      else Inl OutOfBounds)"

definition store_at :: "byte_order \<Rightarrow> u32 \<Rightarrow> msg_header \<Rightarrow> pconn \<Rightarrow> pconn checked" where
  "store_at E i h c =
     chk_bind (write_at (header_bytes E h) (unat i) (recvbuf c)) (\<lambda>buf. ok (c\<lparr>recvbuf := buf\<rparr>))"

text \<open>
  The two loops of \<open>Front\<close>.  The first looks for a whole message that is already in the
  buffer, skipping heartbeats, and gives it to the caller unless the caller has not popped
  the last one.  The second goes over what has just been received: it converts the headers
  that are complete now, passes on their acknowledgement numbers and moves
  \<open>nextmsg_idx\<close> behind the whole messages; false is its early return.
\<close>

partial_function (option) front_queued ::
  "byte_order \<Rightarrow> pconn \<Rightarrow> (u32 option \<times> pconn) checked option"
where
  "front_queued E c =
     (if nextmsg_idx c = readidx c then Some (ok (None, c))
      else case load_at E (readidx c) c of
        Inl f \<Rightarrow> Some (Inl f)
      | Inr h \<Rightarrow>
          if msg_type h = HeartbeatMsg_type
          then front_queued E (c\<lparr>readidx := readidx c + 8\<rparr>)
          else case deref c of
            Inl f \<Rightarrow> Some (Inl f)
          | Inr q \<Rightarrow>
              if last_my_ack c = ptcpq_MyAck q then Some (ok (None, c))
              else Some (ok (Some (readidx c), c\<lparr>last_my_ack := ptcpq_MyAck q\<rparr>)))"

declare front_queued.simps [code]

definition ack_queue :: "byte_order \<Rightarrow> u32 \<Rightarrow> pconn \<Rightarrow> pconn checked" where
  "ack_queue E ack c =
     chk_bind (deref c) (\<lambda>q. chk_bind (ptcpq_Ack E ack q) (\<lambda>q1. ok (c\<lparr>q_ptr := Some q1\<rparr>)))"

definition convert_at :: "byte_order \<Rightarrow> u32 \<Rightarrow> pconn \<Rightarrow> (msg_header \<times> pconn) checked" where
  "convert_at E old_writeidx c =
     chk_bind (load_at E (nextmsg_idx c) c) (\<lambda>h.
       if sint old_writeidx - sint (nextmsg_idx c) < 8
       then (let h = ConvertByteOrder E h in
             chk_bind (store_at E (nextmsg_idx c) h c) (\<lambda>c1. ok (h, c1)))
       else ok (h, c))"

partial_function (option) recv_loop ::
  "conf \<Rightarrow> u32 \<Rightarrow> pconn \<Rightarrow> (bool \<times> pconn) checked option"
where
  "recv_loop cf old_writeidx c =
     (if writeidx c - nextmsg_idx c < 8 then Some (ok (True, c))
      else case convert_at (c_order cf) old_writeidx c of
        Inl f \<Rightarrow> Some (Inl f)
      | Inr (h, c1) \<Rightarrow>
          (case ack_queue (c_order cf) (ack_seq h) c1 of
             Inl f \<Rightarrow> Some (Inl f)
           | Inr c2 \<Rightarrow>
               let msg_size = round8 (hdr_size h) in
               if TcpRecvBufMaxSize cf < msg_size
               then Some (ok (False, pconn_Close ''Msg size larger than recv buf max size'' 0 c2))
               else if writeidx c2 - nextmsg_idx c2 < msg_size then Some (ok (True, c2))
               else
                 let c3 = (if msg_type h = HeartbeatMsg_type \<and> readidx c2 = nextmsg_idx c2
                           then c2\<lparr>readidx := readidx c2 + msg_size\<rparr> else c2)
                 in recv_loop cf old_writeidx (c3\<lparr>nextmsg_idx := nextmsg_idx c3 + msg_size\<rparr>)))"

declare recv_loop.simps [code]

definition front_result :: "pconn \<Rightarrow> u32 option" where
  "front_result c = (if readidx c \<noteq> nextmsg_idx c then Some (readidx c) else None)"

definition pconn_Front ::
  "'e os \<Rightarrow> conf \<Rightarrow> pconn \<Rightarrow> 'e \<Rightarrow> ((u32 option \<times> pconn) checked \<times> 'e) option"
where
  "pconn_Front N cf c e =
     (if UseShm c then
        (case DoRecv N cf c e of (r, e1) \<Rightarrow> Some (chk_bind r (\<lambda>(_, c1). ok (None, c1)), e1))
      else case front_queued (c_order cf) c of
        None \<Rightarrow> None
      | Some (Inl f) \<Rightarrow> Some (Inl f, e)
      | Some (Inr (Some i, c1)) \<Rightarrow> Some (ok (Some i, c1), e)
      | Some (Inr (None, c1)) \<Rightarrow>
          (case DoRecv N cf c1 e of
             (Inl f, e1) \<Rightarrow> Some (Inl f, e1)
           | (Inr (len, c2), e1) \<Rightarrow>
               if len = 0 then Some (ok (front_result c2, c2), e1)
               else case recv_loop cf (writeidx c2) (c2\<lparr>writeidx := writeidx c2 + of_nat len\<rparr>) of
                 None \<Rightarrow> None
               | Some (Inl f) \<Rightarrow> Some (Inl f, e1)
               | Some (Inr (False, c3)) \<Rightarrow> Some (ok (None, c3), e1)
               | Some (Inr (True, c3)) \<Rightarrow> Some (ok (front_result c3, c3), e1)))"

definition pconn_Pop :: "conf \<Rightarrow> pconn \<Rightarrow> pconn checked" where
  "pconn_Pop cf c =
     chk_bind (load_at (c_order cf) (readidx c) c) (\<lambda>h.
     chk_bind (deref c) (\<lambda>q.
       ok (c\<lparr>readidx := readidx c + round8 (hdr_size h),
             q_ptr := Some (ptcpq_inc_MyAck q)\<rparr>)))"

section \<open>The buffer\<close>

text \<open>
  The shape of the buffer: its length is the recorded size, the three indices are in order
  inside it and it never exceeds the configured maximum.  \<open>unread\<close> are the bytes between
  the read and the write index.
\<close>

definition buf_inv :: "conf \<Rightarrow> pconn \<Rightarrow> bool" where
  "buf_inv cf c \<longleftrightarrow>
     length (recvbuf c) = unat (recvbuf_size c) \<and>
     unat (readidx c) \<le> unat (nextmsg_idx c) \<and> unat (nextmsg_idx c) \<le> unat (writeidx c) \<and>
     unat (writeidx c) \<le> unat (recvbuf_size c) \<and>
     unat (recvbuf_size c) \<le> unat (TcpRecvBufMaxSize cf) \<and>
     unat (TcpRecvBufMaxSize cf) < 2147483648"

definition unread :: "pconn \<Rightarrow> u8 list" where
  "unread c = seg (unat (readidx c)) (unat (writeidx c)) (recvbuf c)"

text \<open>The documented behaviour of \<open>read\<close>: it returns at most as many bytes as asked for.\<close>

definition read_bounded :: "'e os \<Rightarrow> bool" where
  "read_bounded N \<longleftrightarrow> (\<forall>fd n e bs e1. os_read N fd n e = (Inr bs, e1) \<longrightarrow> length bs \<le> n)"

lemma buf_invD:
  assumes "buf_inv cf c"
  shows "length (recvbuf c) = unat (recvbuf_size c)"
    and "unat (readidx c) \<le> unat (nextmsg_idx c)" and "unat (nextmsg_idx c) \<le> unat (writeidx c)"
    and "unat (writeidx c) \<le> unat (recvbuf_size c)"
    and "unat (recvbuf_size c) \<le> unat (TcpRecvBufMaxSize cf)"
    and "unat (TcpRecvBufMaxSize cf) < 2147483648"
    and "unat (recvbuf_size c) < 2147483648"
  using assms by (auto simp: buf_inv_def)

lemma length_unread: "buf_inv cf c \<Longrightarrow> length (unread c) = unat (writeidx c) - unat (readidx c)"
  by (auto simp: unread_def buf_inv_def)

lemma unat_min: "unat (min a b) = min (unat a) (unat b)" for a b :: "'a::len word"
  by (simp add: min_def word_le_nat_alt)

lemma unat_max: "unat (max a b) = max (unat a) (unat b)" for a b :: "'a::len word"
  by (simp add: max_def word_le_nat_alt)

lemma unat_sub_le: "unat b \<le> unat a \<Longrightarrow> unat (a - b) = unat a - unat b" for a b :: u32
  by (simp add: unat_sub_if')

lemma unat_add_less: "unat a + unat b < 4294967296 \<Longrightarrow> unat (a + b) = unat a + unat b" for a b :: u32
  by (simp add: unat_word_ariths)

lemma unat_round_up: "unat x + 7 < 4294967296 \<Longrightarrow> unat x \<le> unat ((x + 7) AND (- 8) :: u32)"
proof -
  assume x: "unat x + 7 < 4294967296"
  define y where "y = x + 7"
  have y: "unat y = unat x + 7" using x by (simp add: y_def unat_word_ariths)
  have m: "(- 8 :: u32) = NOT (mask 3)" by (simp add: mask_eq_exp_minus_1)
  have "y AND NOT (mask 3) = push_bit 3 (drop_bit 3 y)"
    by (rule bit_word_eqI) (auto simp: bit_simps)
  also have "\<dots> = 8 * (y div 8)" by (simp add: push_bit_eq_mult drop_bit_eq_div mult.commute)
  finally have "unat (y AND - 8) = (8 * (unat y div 8)) mod 4294967296"
    unfolding m by (simp add: unat_word_ariths unat_div mod_mult_right_eq)
  moreover have "8 * (unat y div 8) \<le> unat y" by simp
  moreover have "unat y < 4294967296" using x y by simp
  ultimately show ?thesis using y by (simp flip: y_def)
qed

text \<open>
  The bytes received follow the unread ones, whichever way room is made for them, and no
  write leaves the buffer.
\<close>

definition relocated :: "conf \<Rightarrow> pconn \<Rightarrow> u8 list \<Rightarrow> pconn \<Rightarrow> bool" where
  "relocated cf c bs c1 \<longleftrightarrow>
     length (recvbuf c1) = unat (recvbuf_size c1) \<and>
     unat (recvbuf_size c) \<le> unat (recvbuf_size c1) \<and>
     unat (recvbuf_size c1) \<le> unat (TcpRecvBufMaxSize cf) \<and>
     unat (nextmsg_idx c1) - unat (readidx c1) = unat (nextmsg_idx c) - unat (readidx c) \<and>
     unat (writeidx c1) - unat (readidx c1) = unat (writeidx c) - unat (readidx c) \<and>
     unat (readidx c1) \<le> unat (nextmsg_idx c1) \<and> unat (nextmsg_idx c1) \<le> unat (writeidx c1) \<and>
     unat (writeidx c1) + length bs \<le> unat (recvbuf_size c1) \<and>
     seg (unat (readidx c1)) (unat (writeidx c1) + length bs) (recvbuf c1) = unread c @ bs \<and>
     c1 = c\<lparr>recvbuf := recvbuf c1, recvbuf_size := recvbuf_size c1, writeidx := writeidx c1,
            nextmsg_idx := nextmsg_idx c1, readidx := readidx c1\<rparr>"

lemma seg_blit_extend:
  assumes "i \<le> w" "w + length ys \<le> length xs"
  shows "seg i (w + length ys) (blit ys w xs) = seg i w xs @ ys"
proof -
  have "seg i (w + length ys) (blit ys w xs) = seg i w (blit ys w xs) @ seg w (w + length ys) (blit ys w xs)"
    using assms by (simp add: seg_append)
  then show ?thesis using assms by (simp add: seg_blit_before seg_blit_same)
qed

lemma blit_twice:
  assumes "length xs + length ys \<le> length zs"
  shows "seg 0 (length xs + length ys) (blit ys (length xs) (blit xs 0 zs)) = xs @ ys"
  using assms by (simp add: blit_def seg_def)

lemma place_received_ok:
  assumes inv: "buf_inv cf c" and w: "writable = recvbuf_size c - writeidx c"
    and len: "length bs \<le> unat writable + unat extra"
    and extra: "extra = min 65536 (readidx c + (if (writable + readidx c) * 2 < recvbuf_size c
      then TcpRecvBufMaxSize cf - recvbuf_size c else 0))"
  shows "\<exists>c1. place_received cf writable bs c = ok c1 \<and> relocated cf c bs c1"
proof -
  note D = buf_invD [OF inv]
  let ?r = "unat (readidx c)" and ?n = "unat (nextmsg_idx c)" and ?w = "unat (writeidx c)"
    and ?s = "unat (recvbuf_size c)" and ?b = "length bs" and ?M = "unat (TcpRecvBufMaxSize cf)"
  have wr: "unat writable = ?s - ?w" unfolding w by (rule unat_sub_le [OF D(4)])
  have ms: "unat (TcpRecvBufMaxSize cf - recvbuf_size c) = ?M - ?s" by (rule unat_sub_le [OF D(5)])
  have "unat (readidx c + (TcpRecvBufMaxSize cf - recvbuf_size c)) = ?r + (?M - ?s)"
    by (subst unat_add_less) (use D ms in linarith)+
  then have ex: "unat extra \<le> ?r + (?M - ?s)" "unat extra \<le> 65536"
    unfolding extra by (auto simp: unat_min)
  have rw: "?r \<le> ?w" using D by linarith
  have fit: "?w - ?r + ?b \<le> ?M" using len ex(1) wr D rw by linarith
  have ob: "unat (of_nat ?b :: u32) = ?b"
    by (rule unat_of_nat_u32) (use len ex(2) wr D in linarith)
  have keep: "unat (recvbuf_size c - readidx c) = ?s - ?r" by (rule unat_sub_le) (use D rw in linarith)
  define buf where "buf = blit (take (?s - ?w) bs) ?w (recvbuf c)"
  have wbuf: "write_at (take (?s - ?w) bs) ?w (recvbuf c) = ok buf" "length buf = ?s"
    using D by (simp_all add: write_at_def buf_def)
  have sbuf: "seg ?r (?w + length (take (?s - ?w) bs)) buf = unread c @ take (?s - ?w) bs"
    unfolding buf_def unread_def by (rule seg_blit_extend) (use rw D in auto)
  show ?thesis
  proof (cases "?b \<le> ?s - ?w")
    case True
    then have "place_received cf writable bs c = ok (c\<lparr>recvbuf := buf\<rparr>)"
      using wbuf by (simp add: place_received_def Let_def wr word_le_nat_alt ob)
    moreover have "relocated cf c bs (c\<lparr>recvbuf := buf\<rparr>)"
      using True sbuf wbuf(2) D by (simp add: relocated_def)
    ultimately show ?thesis by blast
  next
    case False
    let ?kept = "seg ?r ?s buf" and ?stack = "drop (?s - ?w) bs"
    have sr: "?r + (?s - ?r) = ?s" using D rw by linarith
    have kept: "?kept = unread c @ take (?s - ?w) bs" using sbuf False D(4) by simp
    have lk: "length ?kept = ?s - ?r" using wbuf(2) by simp
    have total: "?kept @ ?stack = unread c @ bs" using kept by simp
    have ltot: "(?s - ?r) + length ?stack = ?w - ?r + ?b" using False D(4) rw by simp
    have placed: "relocated cf c bs (c\<lparr>recvbuf := blit ?stack (?s - ?r) (blit ?kept 0 buf0),
        recvbuf_size := s2, writeidx := writeidx c - readidx c,
        nextmsg_idx := nextmsg_idx c - readidx c, readidx := 0\<rparr>)"
      if "length buf0 = unat s2" "?s \<le> unat s2" "unat s2 \<le> ?M" "?w - ?r + ?b \<le> unat s2" for buf0 and s2 :: u32
    proof -
      have "seg 0 (?w - ?r + ?b) (blit ?stack (?s - ?r) (blit ?kept 0 buf0)) = unread c @ bs"
        using blit_twice [of ?kept ?stack buf0] ltot total that(1,4) lk by simp
      moreover have "unat (writeidx c - readidx c) = ?w - ?r" "unat (nextmsg_idx c - readidx c) = ?n - ?r"
        using D by (simp_all add: unat_sub_le)
      moreover have "length (blit ?stack (?s - ?r) (blit ?kept 0 buf0)) = unat s2"
        using that lk ltot by simp
      ultimately show ?thesis using that D by (simp add: relocated_def)
    qed
    show ?thesis
    proof (cases "of_nat ?b \<le> writable + readidx c")
      case True
      have "unat (writable + readidx c) = (?s - ?w) + ?r"
        by (subst unat_add_less) (use wr D rw in linarith)+
      then have le: "?w - ?r + ?b \<le> ?s" using True ob D rw by (simp add: word_le_nat_alt)
      have "place_received cf writable bs c = ok (c\<lparr>recvbuf := blit ?stack (?s - ?r) (blit ?kept 0 buf),
          recvbuf_size := recvbuf_size c, writeidx := writeidx c - readidx c,
          nextmsg_idx := nextmsg_idx c - readidx c, readidx := 0\<rparr>)"
        using wbuf False True lk ltot le
        by (simp add: place_received_def Let_def wr word_le_nat_alt ob keep sr write_at_def)
      then show ?thesis using placed [of buf "recvbuf_size c"] wbuf(2) le D by auto
    next
      case no: False
      let ?new = "expand_size cf c ?b"
      have x: "unat (writeidx c - readidx c + of_nat ?b) = ?w - ?r + ?b"
        using fit D rw unat_sub_le [of "readidx c" "writeidx c"] ob by (subst unat_add_less) simp_all
      have "?w - ?r + ?b \<le> unat ((writeidx c - readidx c + of_nat ?b + 7) AND (- 8))"
        using unat_round_up [of "writeidx c - readidx c + of_nat ?b"] x fit D by simp
      moreover have "unat (recvbuf_size c * 2) = ?s * 2" using D by (simp add: unat_word_ariths)
      ultimately have new: "?w - ?r + ?b \<le> unat ?new" "?s \<le> unat ?new" "unat ?new \<le> ?M"
        using fit D(5) by (auto simp: expand_size_def unat_min unat_max)
      have "place_received cf writable bs c =
          ok (c\<lparr>recvbuf := blit ?stack (?s - ?r) (blit ?kept 0 (replicate (unat ?new) 0)),
          recvbuf_size := ?new, writeidx := writeidx c - readidx c,
          nextmsg_idx := nextmsg_idx c - readidx c, readidx := 0\<rparr>)"
        using wbuf False no lk ltot new
        by (simp add: place_received_def Let_def wr word_le_nat_alt ob keep sr write_at_def)
      then show ?thesis using placed [of "replicate (unat ?new) 0" ?new] new by auto
    qed
  qed
qed

text \<open>
  What a receive does to the messages in the buffer: nothing when it reads nothing;
  otherwise the bytes read are appended (once the caller has advanced the write index).
\<close>

definition kept :: "pconn \<Rightarrow> pconn \<Rightarrow> bool" where
  "kept c c1 \<longleftrightarrow>
     unat (nextmsg_idx c1) - unat (readidx c1) = unat (nextmsg_idx c) - unat (readidx c) \<and>
     unat (writeidx c1) - unat (readidx c1) = unat (writeidx c) - unat (readidx c) \<and>
     q_ptr c1 = q_ptr c \<and> last_my_ack c1 = last_my_ack c \<and>
     (sockfd c1 = sockfd c \<or> sockfd c1 < 0)"

lemma kept_refl [simp]: "kept c c"
  by (simp add: kept_def)

definition grown :: "pconn \<Rightarrow> nat \<Rightarrow> pconn" where
  "grown c n = c\<lparr>writeidx := writeidx c + of_nat n\<rparr>"

lemma unread_grown:
  assumes "relocated cf c bs c1" "buf_inv cf c"
  shows "buf_inv cf (grown c1 (length bs))" and "unread (grown c1 (length bs)) = unread c @ bs"
    and "unat (writeidx (grown c1 (length bs))) = unat (writeidx c1) + length bs"
proof -
  have R: "unat (writeidx c1) + length bs \<le> unat (recvbuf_size c1)"
    "unat (recvbuf_size c1) \<le> unat (TcpRecvBufMaxSize cf)"
    "seg (unat (readidx c1)) (unat (writeidx c1) + length bs) (recvbuf c1) = unread c @ bs"
    "unat (readidx c1) \<le> unat (nextmsg_idx c1)" "unat (nextmsg_idx c1) \<le> unat (writeidx c1)"
    "length (recvbuf c1) = unat (recvbuf_size c1)"
    using assms(1) by (simp_all add: relocated_def)
  note M = buf_invD(6) [OF assms(2)]
  have b: "unat (of_nat (length bs) :: u32) = length bs"
    by (rule unat_of_nat_u32) (use R M in linarith)
  show w: "unat (writeidx (grown c1 (length bs))) = unat (writeidx c1) + length bs"
    unfolding grown_def using R M b by (simp add: unat_add_less)
  have same: "recvbuf (grown c1 n) = recvbuf c1" "readidx (grown c1 n) = readidx c1"
    "nextmsg_idx (grown c1 n) = nextmsg_idx c1" "recvbuf_size (grown c1 n) = recvbuf_size c1" for n
    by (simp_all add: grown_def)
  show "buf_inv cf (grown c1 (length bs))"
    using R M w by (simp add: buf_inv_def same)
  show "unread (grown c1 (length bs)) = unread c @ bs"
    unfolding unread_def [of "grown c1 (length bs)"] w same by (rule R(3))
qed

lemma pconn_Close_sel [simp]:
  "recvbuf (pconn_Close r s c) = recvbuf c" "recvbuf_size (pconn_Close r s c) = recvbuf_size c"
  "readidx (pconn_Close r s c) = readidx c" "nextmsg_idx (pconn_Close r s c) = nextmsg_idx c"
  "writeidx (pconn_Close r s c) = writeidx c" "q_ptr (pconn_Close r s c) = q_ptr c"
  "last_my_ack (pconn_Close r s c) = last_my_ack c" "fd_to_close (pconn_Close r s c) = fd_to_close c"
  "hbmsg (pconn_Close r s c) = hbmsg c" "send_time (pconn_Close r s c) = send_time c"
  "IsClosed (pconn_Close r s c)" "sockfd (pconn_Close r s c) < 0"
  by (simp_all add: pconn_Close_def IsClosed_def)

lemma buf_inv_cong:
  "recvbuf c1 = recvbuf c \<Longrightarrow> recvbuf_size c1 = recvbuf_size c \<Longrightarrow> readidx c1 = readidx c \<Longrightarrow>
   nextmsg_idx c1 = nextmsg_idx c \<Longrightarrow> writeidx c1 = writeidx c \<Longrightarrow>
     buf_inv cf c1 = buf_inv cf c \<and> unread c1 = unread c"
  by (simp add: buf_inv_def unread_def)

text \<open>A step of the environment in which nothing was received on a descriptor.\<close>

definition no_data :: "'e os \<Rightarrow> fd \<Rightarrow> 'e \<Rightarrow> 'e \<Rightarrow> bool" where
  "no_data N fd e e1 \<longleftrightarrow>
     e1 = e \<or> (\<exists>n r. os_read N fd n e = (r, e1) \<and> (\<forall>bs. r = Inr bs \<longrightarrow> bs = []))"

lemma DoRecv_ok:
  assumes inv: "buf_inv cf c" and N: "read_bounded N"
  obtains (nothing) c1 e1 where "DoRecv N cf c e = (ok (0, c1), e1)" "buf_inv cf c1" "kept c c1"
      "unread c1 = unread c" "no_data N (sockfd c) e e1"
  | (some) fd n bs c1 e1 where "DoRecv N cf c e = (ok (length bs, c1), e1)" "bs \<noteq> []"
      "os_read N fd n e = (Inr bs, e1)" "fd = sockfd c" "sockfd c1 = sockfd c" "kept c c1"
      "buf_inv cf (grown c1 (length bs))" "unread (grown c1 (length bs)) = unread c @ bs"
      "unat (writeidx (grown c1 (length bs))) = unat (writeidx c1) + length bs"
proof -
  define c0 where "c0 = (if 0 < readidx c \<and> readidx c = writeidx c
               then c\<lparr>readidx := 0, nextmsg_idx := 0, writeidx := 0\<rparr> else c)"
  have inv0: "buf_inv cf c0" and kept0: "kept c c0" and unread0: "unread c0 = unread c"
    using inv by (auto simp: c0_def buf_inv_def kept_def unread_def)
  have sock: "sockfd c0 = sockfd c" by (simp add: c0_def)
  define writable where "writable = recvbuf_size c0 - writeidx c0"
  define extra where "extra = min 65536 (readidx c0 + (if (writable + readidx c0) * 2 < recvbuf_size c0
      then TcpRecvBufMaxSize cf - recvbuf_size c0 else 0))"
  have eq: "DoRecv N cf c e = (if writable + extra = 0 then (ok (0, c0), e)
         else
           case os_read N (sockfd c0) (unat writable + unat extra) e of
             (Inl err, e1) \<Rightarrow>
               (ok (0, if err = EAGAIN
                       then (if ConnectionTimeout cf < now_time c0 - recv_time c0
                             then pconn_Close ''Timeout'' 0 c0 else c0)
                       else pconn_Close ''Read error'' err c0), e1)
           | (Inr bs, e1) \<Rightarrow>
               if bs = [] then (ok (0, pconn_Close ''Remote close'' 0 c0), e1)
               else (chk_bind (place_received cf writable bs (c0\<lparr>recv_time := now_time c0\<rparr>))
                       (\<lambda>c1. ok (length bs, c1)), e1))"
    unfolding DoRecv_def Let_def by (simp only: c0_def [symmetric] writable_def extra_def)
  have closed: "buf_inv cf (pconn_Close r s c0) \<and> kept c (pconn_Close r s c0) \<and>
      unread (pconn_Close r s c0) = unread c" for r s
    using inv0 kept0 unread0 buf_inv_cong [of "pconn_Close r s c0" c0] by (auto simp: kept_def)
  have quiet: thesis
    if d: "DoRecv N cf c e = (ok (0, x), e1)" and x: "x = c0 \<or> (\<exists>r s. x = pconn_Close r s c0)"
      and nd: "no_data N (sockfd c) e e1" for x e1
  proof -
    have "buf_inv cf x" "kept c x" "unread x = unread c" using x closed inv0 kept0 unread0 by auto
    from d this nd show thesis by (rule nothing)
  qed
  show thesis
  proof (cases "writable + extra = 0")
    case True
    then have "DoRecv N cf c e = (ok (0, c0), e)" by (simp add: eq)
    then show thesis by (rule quiet) (simp_all add: no_data_def)
  next
    case False
    obtain r e1 where rd: "os_read N (sockfd c0) (unat writable + unat extra) e = (r, e1)"
      by fastforce
    show thesis
    proof (cases r)
      case (Inl err)
      have "DoRecv N cf c e = (ok (0, if err = EAGAIN
                       then (if ConnectionTimeout cf < now_time c0 - recv_time c0
                             then pconn_Close ''Timeout'' 0 c0 else c0)
                       else pconn_Close ''Read error'' err c0), e1)"
        unfolding eq using False rd Inl by simp
      then show thesis by (rule quiet) (use rd sock Inl in \<open>auto simp: no_data_def\<close>)
    next
      case (Inr bs)
      show thesis
      proof (cases "bs = []")
        case True
        then have "DoRecv N cf c e = (ok (0, pconn_Close ''Remote close'' 0 c0), e1)"
          unfolding eq using False rd Inr by simp
        then show thesis by (rule quiet) (use rd sock Inr True in \<open>auto simp: no_data_def\<close>)
      next
        case ne: False
        let ?c = "c0\<lparr>recv_time := now_time c0\<rparr>"
        have ic: "buf_inv cf ?c" "unread ?c = unread c" using inv0 unread0 by (simp_all add: buf_inv_def unread_def)
        have "length bs \<le> unat writable + unat extra" using N rd Inr unfolding read_bounded_def by blast
        moreover have "writable = recvbuf_size ?c - writeidx ?c" by (simp add: writable_def)
        moreover have "extra = min 65536 (readidx ?c + (if (writable + readidx ?c) * 2 < recvbuf_size ?c
            then TcpRecvBufMaxSize cf - recvbuf_size ?c else 0))" by (simp add: extra_def)
        ultimately obtain c1 where c1: "place_received cf writable bs ?c = ok c1" "relocated cf ?c bs c1"
          using place_received_ok [OF ic(1)] by blast
        note G = unread_grown [OF c1(2) ic(1)]
        have sel: "sockfd c1 = sockfd c" "q_ptr c1 = q_ptr c0" "last_my_ack c1 = last_my_ack c0"
        proof -
          have c1': "c1 = ?c\<lparr>recvbuf := recvbuf c1, recvbuf_size := recvbuf_size c1, writeidx := writeidx c1,
            nextmsg_idx := nextmsg_idx c1, readidx := readidx c1\<rparr>"
            using c1(2) by (simp add: relocated_def)
          show "sockfd c1 = sockfd c" by (subst c1') (simp add: sock)
          show "q_ptr c1 = q_ptr c0" by (subst c1') simp
          show "last_my_ack c1 = last_my_ack c0" by (subst c1') simp
        qed
        have "kept c c1"
          using kept0 c1(2) sel by (simp add: kept_def relocated_def)
        then show thesis
          using some [of bs c1 e1 "sockfd c0"] eq False rd Inr ne c1 G ic(2) sel sock by simp
      qed
    qed
  qed
qed

section \<open>Framing\<close>

text \<open>
  The abstract view of the received bytes: a sequence of frames, each a header in host order
  and the bytes up to the next multiple of eight, and an incomplete rest.  \<open>wire_frames\<close> is
  the specification of what \<open>Front\<close> finds in the stream.
\<close>

type_synonym frame = "msg_header \<times> u8 list"

definition frame_len :: "msg_header \<Rightarrow> nat" where
  "frame_len h = unat (round8 (hdr_size h))"

definition wire_header :: "byte_order \<Rightarrow> u8 list \<Rightarrow> msg_header" where
  "wire_header E bs = ConvertByteOrder E (load_header E bs)"

function wire_frames :: "byte_order \<Rightarrow> u8 list \<Rightarrow> frame list \<times> u8 list" where
  "wire_frames E bs =
     (if length bs < 8 then ([], bs)
      else let h = wire_header E bs; n = frame_len h in
        if n = 0 \<or> length bs < n then ([], bs)
        else let (fs, r) = wire_frames E (drop n bs) in ((h, seg 8 n bs) # fs, r))"
  by pat_completeness auto
termination
  by (relation "measure (\<lambda>(E, bs). length bs)") auto

declare wire_frames.simps [simp del]

definition is_hb :: "frame \<Rightarrow> bool" where
  "is_hb f \<longleftrightarrow> msg_type (fst f) = HeartbeatMsg_type"

text \<open>An incomplete rest: less than a header, or less than what its header announces.\<close>

definition incomplete :: "conf \<Rightarrow> u8 list \<Rightarrow> bool" where
  "incomplete cf bs \<longleftrightarrow>
     length bs < 8 \<or>
     length bs < frame_len (wire_header (c_order cf) bs) \<and>
     frame_len (wire_header (c_order cf) bs) \<le> unat (TcpRecvBufMaxSize cf)"

definition wf_frame :: "conf \<Rightarrow> frame \<Rightarrow> bool" where
  "wf_frame cf f \<longleftrightarrow>
     8 + length (snd f) = frame_len (fst f) \<and> frame_len (fst f) \<le> unat (TcpRecvBufMaxSize cf)"

text \<open>In the buffer headers are converted as soon as their eight bytes are there.\<close>

definition buf_frame :: "byte_order \<Rightarrow> frame \<Rightarrow> u8 list" where
  "buf_frame E f = header_bytes E (fst f) @ snd f"

definition buf_frames :: "byte_order \<Rightarrow> frame list \<Rightarrow> u8 list" where
  "buf_frames E fs = concat (map (buf_frame E) fs)"

definition buf_rest :: "byte_order \<Rightarrow> u8 list \<Rightarrow> u8 list" where
  "buf_rest E bs = (if length bs < 8 then bs else header_bytes E (wire_header E bs) @ drop 8 bs)"

lemma buf_frames_simps [simp]:
  "buf_frames E [] = []" "buf_frames E (f # fs) = buf_frame E f @ buf_frames E fs"
  "buf_frames E (fs @ gs) = buf_frames E fs @ buf_frames E gs"
  by (simp_all add: buf_frames_def)

lemma length_buf_rest [simp]: "length (buf_rest E bs) = length bs"
  by (simp add: buf_rest_def)

lemma length_buf_frame: "length (buf_frame E f) = 8 + length (snd f)"
  by (simp add: buf_frame_def)

lemma frame_len_mult8: "8 dvd frame_len h"
  by (simp add: frame_len_def unat_round8)

lemma frame_len_ge8: "frame_len h \<noteq> 0 \<Longrightarrow> 8 \<le> frame_len h"
  using frame_len_mult8 [of h] by (auto elim: dvdE)

lemma load_header_append: "8 \<le> length bs \<Longrightarrow> load_header E (bs @ cs) = load_header E bs"
  using load_header_take [of 8 E "bs @ cs"] load_header_take [of 8 E bs] by simp

lemma wire_header_append: "8 \<le> length bs \<Longrightarrow> wire_header E (bs @ cs) = wire_header E bs"
  by (simp add: wire_header_def load_header_append)

lemma wire_frames_short: "length bs < 8 \<Longrightarrow> wire_frames E bs = ([], bs)"
  by (subst wire_frames.simps) simp

lemma wire_frames_stop:
  "8 \<le> length bs \<Longrightarrow> h = wire_header E bs \<Longrightarrow> frame_len h = 0 \<or> length bs < frame_len h \<Longrightarrow>
     wire_frames E bs = ([], bs)"
  by (subst wire_frames.simps) (auto simp: Let_def)

lemma wire_frames_step:
  "8 \<le> length bs \<Longrightarrow> h = wire_header E bs \<Longrightarrow> frame_len h \<noteq> 0 \<Longrightarrow> frame_len h \<le> length bs \<Longrightarrow>
     wire_frames E bs =
       ((h, seg 8 (frame_len h) bs) # fst (wire_frames E (drop (frame_len h) bs)),
        snd (wire_frames E (drop (frame_len h) bs)))"
  by (subst wire_frames.simps) (auto simp: Let_def split: prod.splits)

text \<open>Reading the stream in pieces finds the same frames.\<close>

lemma wire_frames_append:
  "wire_frames E (bs @ cs) =
     (fst (wire_frames E bs) @ fst (wire_frames E (snd (wire_frames E bs) @ cs)),
      snd (wire_frames E (snd (wire_frames E bs) @ cs)))"
proof (induction E bs rule: wire_frames.induct)
  case (1 E bs)
  define h where "h = wire_header E bs"
  consider "length bs < 8" | "8 \<le> length bs" "frame_len h = 0 \<or> length bs < frame_len h"
    | "8 \<le> length bs" "frame_len h \<noteq> 0" "frame_len h \<le> length bs" by linarith
  then show ?case
  proof cases
    case 1
    then show ?thesis by (simp add: wire_frames_short)
  next
    case 2
    then show ?thesis using wire_frames_stop [OF 2(1) h_def 2(2)] by simp
  next
    case 3
    have h: "h = wire_header E (bs @ cs)" using 3(1) by (simp add: h_def wire_header_append)
    have IH: "wire_frames E (drop (frame_len h) bs @ cs) =
        (fst (wire_frames E (drop (frame_len h) bs)) @
           fst (wire_frames E (snd (wire_frames E (drop (frame_len h) bs)) @ cs)),
         snd (wire_frames E (snd (wire_frames E (drop (frame_len h) bs)) @ cs)))"
      by (rule "1.IH" [OF _ h_def refl]) (use 3 in auto)
    have "seg 8 (frame_len h) (bs @ cs) = seg 8 (frame_len h) bs"
      using 3 frame_len_ge8 by (simp add: seg_def)
    then show ?thesis
      using wire_frames_step [OF 3(1) h_def 3(2,3)] wire_frames_step [OF _ h 3(2)] 3 IH by simp
  qed
qed

lemma wire_frames_rest: "wire_frames E bs = (fs, r) \<Longrightarrow> wire_frames E r = ([], r)"
proof (induction E bs arbitrary: fs rule: wire_frames.induct)
  case (1 E bs)
  define h where "h = wire_header E bs"
  consider "length bs < 8" | "8 \<le> length bs" "frame_len h = 0 \<or> length bs < frame_len h"
    | "8 \<le> length bs" "frame_len h \<noteq> 0" "frame_len h \<le> length bs" by linarith
  then show ?case
  proof cases
    case 1
    then show ?thesis using "1.prems" wire_frames_short by fastforce
  next
    case 2
    then show ?thesis using wire_frames_stop [OF 2(1) h_def 2(2)] "1.prems" by simp
  next
    case 3
    then obtain fs' where "wire_frames E (drop (frame_len h) bs) = (fs', r)"
      using wire_frames_step [OF 3(1) h_def 3(2,3)] "1.prems" by (metis Pair_inject surjective_pairing)
    then show ?thesis
      using "1.IH" [OF _ h_def refl] 3 by auto
  qed
qed

text \<open>The queue of frames in the buffer: heartbeats at its head are dropped.\<close>

definition enqueue :: "frame list \<Rightarrow> frame list \<Rightarrow> frame list" where
  "enqueue fs gs = (if fs = [] then dropWhile is_hb gs else fs @ gs)"

lemma enqueue_Cons: "enqueue fs (g # gs) = enqueue (enqueue fs [g]) gs"
  by (simp add: enqueue_def)

lemma enqueue_Nil [simp]: "enqueue fs [] = fs"
  by (simp add: enqueue_def)

lemma filter_dropWhile: "filter (\<lambda>x. \<not> P x) (dropWhile P xs) = filter (\<lambda>x. \<not> P x) xs"
  by (induction xs) auto

lemma filter_enqueue:
  "filter (\<lambda>f. \<not> is_hb f) (enqueue fs gs) =
     filter (\<lambda>f. \<not> is_hb f) fs @ filter (\<lambda>f. \<not> is_hb f) gs"
  by (simp add: enqueue_def filter_dropWhile)

lemma list_all_enqueue: "list_all P fs \<Longrightarrow> list_all P gs \<Longrightarrow> list_all P (enqueue fs gs)"
  by (auto simp: enqueue_def list_all_iff dest: set_dropWhileD)

text \<open>The acknowledgement numbers a stretch of stream carries, and their effect.\<close>

definition stream_acks :: "byte_order \<Rightarrow> frame list \<Rightarrow> u8 list \<Rightarrow> u32 list" where
  "stream_acks E fs r =
     map (\<lambda>f. ack_seq (fst f)) fs @ (if length r < 8 then [] else [ack_seq (wire_header E r)])"

fun ack_all :: "byte_order \<Rightarrow> u32 list \<Rightarrow> ptcpq \<Rightarrow> ptcpq checked" where
  "ack_all E [] q = ok q"
| "ack_all E (a # as) q = chk_bind (ptcpq_Ack E a q) (ack_all E as)"

text \<open>
  The state of the second loop: whole frames \<open>fs\<close> between the read and the next index,
  behind them the rest \<open>R\<close> of the stream, whose first header is converted already when it
  was complete before this receive.
\<close>

definition converted :: "u32 \<Rightarrow> pconn \<Rightarrow> bool" where
  "converted old c \<longleftrightarrow> unat (nextmsg_idx c) + 8 \<le> unat old"

definition rx_state :: "conf \<Rightarrow> u32 \<Rightarrow> frame list \<Rightarrow> u8 list \<Rightarrow> pconn \<Rightarrow> bool" where
  "rx_state cf old fs R c \<longleftrightarrow>
     buf_inv cf c \<and> list_all (wf_frame cf) fs \<and> unat old \<le> unat (writeidx c) \<and>
     seg (unat (readidx c)) (unat (nextmsg_idx c)) (recvbuf c) = buf_frames (c_order cf) fs \<and>
     seg (unat (nextmsg_idx c)) (unat (writeidx c)) (recvbuf c) =
       (if converted old c then buf_rest (c_order cf) R else R) \<and>
     (converted old c \<longrightarrow>
        unat old - unat (nextmsg_idx c) < frame_len (wire_header (c_order cf) R))"

lemma rx_stateD:
  assumes "rx_state cf old fs R c"
  shows "buf_inv cf c" "list_all (wf_frame cf) fs" "unat old \<le> unat (writeidx c)"
    "seg (unat (readidx c)) (unat (nextmsg_idx c)) (recvbuf c) = buf_frames (c_order cf) fs"
    "seg (unat (nextmsg_idx c)) (unat (writeidx c)) (recvbuf c) =
       (if converted old c then buf_rest (c_order cf) R else R)"
    "converted old c \<Longrightarrow> unat old - unat (nextmsg_idx c) < frame_len (wire_header (c_order cf) R)"
    "length R = unat (writeidx c) - unat (nextmsg_idx c)"
    "length (buf_frames (c_order cf) fs) = unat (nextmsg_idx c) - unat (readidx c)"
proof -
  show inv: "buf_inv cf c" and "list_all (wf_frame cf) fs" "unat old \<le> unat (writeidx c)"
    and sf: "seg (unat (readidx c)) (unat (nextmsg_idx c)) (recvbuf c) = buf_frames (c_order cf) fs"
    and s: "seg (unat (nextmsg_idx c)) (unat (writeidx c)) (recvbuf c) =
       (if converted old c then buf_rest (c_order cf) R else R)"
    and "converted old c \<Longrightarrow> unat old - unat (nextmsg_idx c) < frame_len (wire_header (c_order cf) R)"
    using assms by (simp_all add: rx_state_def)
  have "length (seg (unat (nextmsg_idx c)) (unat (writeidx c)) (recvbuf c)) =
      unat (writeidx c) - unat (nextmsg_idx c)"
    using buf_invD [OF inv] by simp
  then show "length R = unat (writeidx c) - unat (nextmsg_idx c)" unfolding s by (simp split: if_splits)
  have "length (seg (unat (readidx c)) (unat (nextmsg_idx c)) (recvbuf c)) =
      unat (nextmsg_idx c) - unat (readidx c)"
    using buf_invD [OF inv] by simp
  then show "length (buf_frames (c_order cf) fs) = unat (nextmsg_idx c) - unat (readidx c)"
    unfolding sf .
qed

lemma load_header_seg:
  "8 \<le> j - i \<Longrightarrow> load_header E (drop i xs) = load_header E (seg i j xs)"
  unfolding seg_def by (simp add: load_header_take)

lemma sint_small: "unat x < 2147483648 \<Longrightarrow> sint (x :: u32) = int (unat x)"
  by (simp add: sint_u32)

lemma convert_at_ok:
  assumes st: "rx_state cf old fs R c" and len: "8 \<le> length R"
  obtains buf where "convert_at (c_order cf) old c = ok (wire_header (c_order cf) R, c\<lparr>recvbuf := buf\<rparr>)"
    "length buf = length (recvbuf c)"
    "seg (unat (readidx c)) (unat (nextmsg_idx c)) buf = buf_frames (c_order cf) fs"
    "seg (unat (nextmsg_idx c)) (unat (writeidx c)) buf = buf_rest (c_order cf) R"
proof -
  note S = rx_stateD [OF st] and D = buf_invD [OF rx_stateD(1) [OF st]]
  let ?E = "c_order cf" and ?n = "unat (nextmsg_idx c)" and ?w = "unat (writeidx c)"
  have nw: "?n + 8 \<le> ?w" "?w \<le> length (recvbuf c)" "8 \<le> ?w - ?n" using len S(7) D by linarith+
  have load: "load_at ?E (nextmsg_idx c) c = ok (load_header ?E (seg ?n ?w (recvbuf c)))"
    using nw load_header_seg [OF nw(3)] by (simp add: load_at_def)
  have test: "sint old - sint (nextmsg_idx c) < 8 \<longleftrightarrow> \<not> converted old c"
  proof -
    have "sint old = int (unat old)" "sint (nextmsg_idx c) = int (unat (nextmsg_idx c))"
      by (rule sint_small; use S(3) D in linarith)+
    then show ?thesis unfolding converted_def by linarith
  qed
  show thesis
  proof (cases "converted old c")
    case True
    then have sg: "seg ?n ?w (recvbuf c) = buf_rest ?E R" using S(5) by simp
    have "load_header ?E (buf_rest ?E R) = wire_header ?E R" using len by (simp add: buf_rest_def)
    then have "convert_at ?E old c = ok (wire_header ?E R, c\<lparr>recvbuf := recvbuf c\<rparr>)"
      using load sg test True by (simp add: convert_at_def)
    then show thesis using that S(4) sg by blast
  next
    case False
    then have sg: "seg ?n ?w (recvbuf c) = R" using S(5) by simp
    let ?hb = "header_bytes ?E (wire_header ?E R)"
    define buf where "buf = blit ?hb ?n (recvbuf c)"
    have room: "?n + length ?hb \<le> length (recvbuf c)" using nw by simp
    have lb: "length buf = length (recvbuf c)" unfolding buf_def by (rule length_blit [OF room])
    have "convert_at ?E old c = ok (wire_header ?E R, c\<lparr>recvbuf := buf\<rparr>)"
      using load sg test False room
      by (simp add: convert_at_def store_at_def write_at_def buf_def wire_header_def Let_def)
    moreover have "seg (unat (readidx c)) ?n buf = buf_frames ?E fs"
      using seg_blit_before [OF room, of ?n "unat (readidx c)"] S(4) by (simp add: buf_def)
    moreover have "seg ?n ?w buf = buf_rest ?E R"
    proof -
      have "seg ?n ?w buf = seg ?n (?n + 8) buf @ seg (?n + 8) ?w buf"
        using nw by (simp add: seg_append)
      also have "seg ?n (?n + 8) buf = ?hb"
        using seg_blit_same [OF room] by (simp add: buf_def)
      also have "seg (?n + 8) ?w buf = drop 8 (seg ?n ?w (recvbuf c))"
        using seg_blit_after [OF _ room, of "?n + 8" ?w] by (simp add: buf_def drop_seg)
      finally show ?thesis using sg len by (simp add: buf_rest_def)
    qed
    ultimately show thesis using that lb by blast
  qed
qed

text \<open>One turn that finds a whole frame.\<close>

definition pass_frame :: "msg_header \<Rightarrow> pconn \<Rightarrow> pconn" where
  "pass_frame h c =
     (let c1 = (if msg_type h = HeartbeatMsg_type \<and> readidx c = nextmsg_idx c
                then c\<lparr>readidx := readidx c + round8 (hdr_size h)\<rparr> else c)
      in c1\<lparr>nextmsg_idx := nextmsg_idx c1 + round8 (hdr_size h)\<rparr>)"

lemma pass_frame_ok:
  assumes st: "rx_state cf old fs R c" and len: "8 \<le> length R"
    and h: "h = wire_header (c_order cf) R" and n: "frame_len h \<noteq> 0" "frame_len h \<le> length R"
    and max: "frame_len h \<le> unat (TcpRecvBufMaxSize cf)"
    and buf: "length buf = length (recvbuf c)"
      "seg (unat (readidx c)) (unat (nextmsg_idx c)) buf = buf_frames (c_order cf) fs"
      "seg (unat (nextmsg_idx c)) (unat (writeidx c)) buf = buf_rest (c_order cf) R"
  shows "rx_state cf old (enqueue fs [(h, seg 8 (frame_len h) R)]) (drop (frame_len h) R)
    (pass_frame h (c\<lparr>recvbuf := buf, q_ptr := q\<rparr>))"
proof -
  note S = rx_stateD [OF st] and D = buf_invD [OF rx_stateD(1) [OF st]]
  let ?E = "c_order cf" and ?n = "unat (nextmsg_idx c)" and ?w = "unat (writeidx c)" and ?k = "frame_len h"
  let ?f = "(h, seg 8 ?k R)"
  define c1 where "c1 = pass_frame h (c\<lparr>recvbuf := buf, q_ptr := q\<rparr>)"
  have k: "unat (round8 (hdr_size h)) = ?k" by (simp add: frame_len_def)
  have nk: "?n + ?k \<le> ?w" using n(2) S(7) D by linarith
  have next1: "unat (nextmsg_idx c + round8 (hdr_size h)) = ?n + ?k"
    using k nk D by (simp add: unat_add_less)
  have same: "recvbuf c1 = buf" "writeidx c1 = writeidx c" "recvbuf_size c1 = recvbuf_size c"
      "nextmsg_idx c1 = nextmsg_idx c + round8 (hdr_size h)"
    by (simp_all add: c1_def pass_frame_def Let_def)
  have wf: "wf_frame cf ?f"
    using n max len frame_len_ge8 [OF n(1)] by (auto simp: wf_frame_def)
  have frame: "seg ?n (?n + ?k) buf = buf_frame ?E ?f" and rest: "seg (?n + ?k) ?w buf = drop ?k R"
  proof -
    have "seg ?n (?n + ?k) buf = take ?k (buf_rest ?E R)"
      using take_seg [of ?k ?n ?w buf] nk buf(3) by simp
    also have "\<dots> = buf_frame ?E ?f"
      using len frame_len_ge8 [OF n(1)] by (simp add: buf_rest_def buf_frame_def h seg_def drop_take)
    finally show "seg ?n (?n + ?k) buf = buf_frame ?E ?f" .
    have "seg (?n + ?k) ?w buf = drop ?k (buf_rest ?E R)"
      using drop_seg [of ?k ?n ?w buf] buf(3) by simp
    then show "seg (?n + ?k) ?w buf = drop ?k R"
      using len frame_len_ge8 [OF n(1)] by (simp add: buf_rest_def)
  qed
  have nconv: "\<not> converted old c1"
  proof (cases "converted old c")
    case True
    then have "unat old < ?n + ?k" using S(6) h by (simp add: converted_def)
    then show ?thesis by (simp add: converted_def same next1)
  next
    case False
    then show ?thesis by (auto simp: converted_def same next1)
  qed
  show "rx_state cf old (enqueue fs [?f]) (drop ?k R) c1"
  proof (cases "msg_type h = HeartbeatMsg_type \<and> readidx c = nextmsg_idx c")
    case True
    then have r1: "readidx c1 = nextmsg_idx c1" by (simp add: c1_def pass_frame_def Let_def)
    have "fs = []" using S(8) True by (cases fs) (simp_all add: length_buf_frame)
    then have "enqueue fs [?f] = []" using True by (simp add: enqueue_def is_hb_def)
    then show ?thesis
      using nconv S D rest nk buf(1) by (simp add: rx_state_def r1 buf_inv_def same next1)
  next
    case False
    then have r1: "readidx c1 = readidx c" by (auto simp: c1_def pass_frame_def Let_def)
    have q: "enqueue fs [?f] = fs @ [?f]"
    proof (cases "fs = []")
      case True
      then have "unat (readidx c) = ?n" using S(8) D by simp
      then have "readidx c = nextmsg_idx c" by (simp only: word_unat_eq_iff)
      then show ?thesis using False True by (simp add: enqueue_def is_hb_def)
    qed (simp add: enqueue_def)
    have "seg (unat (readidx c)) (?n + ?k) buf = buf_frames ?E (fs @ [?f])"
      using seg_append [of "unat (readidx c)" ?n "?n + ?k" buf] buf(2) frame D by simp
    then show ?thesis
      using nconv S D rest nk buf(1) wf by (simp add: rx_state_def r1 buf_inv_def same next1 q)
  qed
qed

text \<open>The whole loop: it consumes the frames of the stream and stops at the incomplete rest.\<close>

lemma recv_loop_stop:
  assumes st: "rx_state cf old fs R c" and inc: "incomplete cf R" and q: "q_ptr c = Some q"
    and acks: "ack_all (c_order cf) (stream_acks (c_order cf) [] R) q = ok q1"
  obtains c1 where "recv_loop cf old c = Some (ok (True, c1))" "buf_inv cf c1" "q_ptr c1 = Some q1"
    "seg (unat (readidx c1)) (unat (nextmsg_idx c1)) (recvbuf c1) = buf_frames (c_order cf) fs"
    "seg (unat (nextmsg_idx c1)) (unat (writeidx c1)) (recvbuf c1) = buf_rest (c_order cf) R"
    "last_my_ack c1 = last_my_ack c" "sockfd c1 = sockfd c"
proof -
  note S = rx_stateD [OF st] and D = buf_invD [OF rx_stateD(1) [OF st]]
  let ?E = "c_order cf"
  have d: "unat (writeidx c - nextmsg_idx c) = length R"
    unfolding S(7) by (rule unat_sub_le) (use D in linarith)
  show thesis
  proof (cases "length R < 8")
    case True
    then have "recv_loop cf old c = Some (ok (True, c))"
      by (subst recv_loop.simps) (simp add: word_less_nat_alt d)
    moreover have "\<not> converted old c" using True S(3,7) D by (auto simp: converted_def)
    ultimately show thesis
      using that S D acks q True by (simp add: stream_acks_def buf_rest_def)
  next
    case False
    then have len: "8 \<le> length R" by simp
    let ?h = "wire_header ?E R"
    have inc': "length R < frame_len ?h" "frame_len ?h \<le> unat (TcpRecvBufMaxSize cf)"
      using inc False by (auto simp: incomplete_def)
    obtain buf where B: "convert_at ?E old c = ok (?h, c\<lparr>recvbuf := buf\<rparr>)"
      "length buf = length (recvbuf c)"
      "seg (unat (readidx c)) (unat (nextmsg_idx c)) buf = buf_frames ?E fs"
      "seg (unat (nextmsg_idx c)) (unat (writeidx c)) buf = buf_rest ?E R"
      by (rule convert_at_ok [OF st len])
    have a: "ptcpq_Ack ?E (ack_seq ?h) q = ok q1"
      using acks False by (simp add: stream_acks_def chk_bind_ok_iff)
    let ?c1 = "c\<lparr>recvbuf := buf, q_ptr := Some q1\<rparr>"
    have k: "unat (round8 (hdr_size ?h)) = frame_len ?h" by (simp add: frame_len_def)
    have "recv_loop cf old c = Some (ok (True, ?c1))"
      using len inc' a q
      by (subst recv_loop.simps)
         (simp add: word_less_nat_alt d B(1) ack_queue_def deref_def Let_def k)
    moreover have "buf_inv cf ?c1" using S(1) B(2) by (simp add: buf_inv_def)
    ultimately show thesis using that B by simp
  qed
qed

lemma recv_loop_ok:
  assumes "rx_state cf old fs R c" and "wire_frames (c_order cf) R = (gs, r)"
    and "list_all (wf_frame cf) gs" and "incomplete cf r" and "q_ptr c = Some q"
    and "ack_all (c_order cf) (stream_acks (c_order cf) gs r) q = ok q1"
  shows "\<exists>c1. recv_loop cf old c = Some (ok (True, c1)) \<and> buf_inv cf c1 \<and> q_ptr c1 = Some q1 \<and>
    seg (unat (readidx c1)) (unat (nextmsg_idx c1)) (recvbuf c1) =
      buf_frames (c_order cf) (enqueue fs gs) \<and>
    seg (unat (nextmsg_idx c1)) (unat (writeidx c1)) (recvbuf c1) = buf_rest (c_order cf) r \<and>
    last_my_ack c1 = last_my_ack c \<and> sockfd c1 = sockfd c"
  using assms
proof (induction gs arbitrary: fs R c q)
  case Nil
  have "r = R" using Nil.prems(2) by (subst (asm) wire_frames.simps) (auto simp: Let_def split: if_splits prod.splits)
  then show ?case
    using recv_loop_stop [OF Nil.prems(1) _ Nil.prems(5), of q1] Nil.prems(4,6) by (metis enqueue_Nil)
next
  case (Cons g gs)
  note S = rx_stateD [OF Cons.prems(1)] and D = buf_invD [OF rx_stateD(1) [OF Cons.prems(1)]]
  let ?E = "c_order cf" and ?h = "wire_header (c_order cf) R"
  have len: "8 \<le> length R" and n: "frame_len ?h \<noteq> 0" "frame_len ?h \<le> length R"
    using Cons.prems(2)
    by (subst (asm) wire_frames.simps, auto simp: Let_def split: if_splits)+
  have g: "g = (?h, seg 8 (frame_len ?h) R)" and rest: "wire_frames ?E (drop (frame_len ?h) R) = (gs, r)"
    using wire_frames_step [OF len refl n] Cons.prems(2) by auto
  have wfg: "list_all (wf_frame cf) gs" "wf_frame cf g" using Cons.prems(3) by simp_all
  then have wf: "list_all (wf_frame cf) gs" "frame_len ?h \<le> unat (TcpRecvBufMaxSize cf)"
    unfolding g by (simp_all add: wf_frame_def)
  obtain buf where B: "convert_at ?E old c = ok (?h, c\<lparr>recvbuf := buf\<rparr>)"
      "length buf = length (recvbuf c)"
      "seg (unat (readidx c)) (unat (nextmsg_idx c)) buf = buf_frames ?E fs"
      "seg (unat (nextmsg_idx c)) (unat (writeidx c)) buf = buf_rest ?E R"
    by (rule convert_at_ok [OF Cons.prems(1) len])
  obtain q' where a: "ptcpq_Ack ?E (ack_seq ?h) q = ok q'"
      and acks: "ack_all ?E (stream_acks ?E gs r) q' = ok q1"
    using Cons.prems(6) g by (auto simp: stream_acks_def chk_bind_ok_iff)
  let ?c1 = "c\<lparr>recvbuf := buf, q_ptr := Some q'\<rparr>"
  have st: "rx_state cf old (enqueue fs [g]) (drop (frame_len ?h) R) (pass_frame ?h ?c1)"
    unfolding g by (rule pass_frame_ok [OF Cons.prems(1) len refl n wf(2) B(2-4)])
  have d: "unat (writeidx c - nextmsg_idx c) = length R"
    unfolding S(7) by (rule unat_sub_le) (use D in linarith)
  have k: "unat (round8 (hdr_size ?h)) = frame_len ?h" by (simp add: frame_len_def)
  have "recv_loop cf old c = recv_loop cf old (pass_frame ?h ?c1)"
    using len n(2) wf(2) a Cons.prems(5)
    by (subst recv_loop.simps)
       (simp add: word_less_nat_alt d B(1) ack_queue_def deref_def Let_def k pass_frame_def)
  moreover have "q_ptr (pass_frame ?h ?c1) = Some q'" "last_my_ack (pass_frame ?h ?c1) = last_my_ack c"
      "sockfd (pass_frame ?h ?c1) = sockfd c"
    by (simp_all add: pass_frame_def Let_def)
  ultimately show ?case
    using Cons.IH [OF st rest wf(1) Cons.prems(4) _ acks] by (simp add: enqueue_Cons [of fs g gs])
qed

lemma ack_queue_Some:
  "q_ptr c = Some q \<Longrightarrow>
     ack_queue E a c = chk_bind (ptcpq_Ack E a q) (\<lambda>q1. ok (c\<lparr>q_ptr := Some q1\<rparr>))"
  by (simp add: ack_queue_def deref_def)

lemma recv_loop_fault:
  assumes "rx_state cf old fs R c" and "wire_frames (c_order cf) R = (gs, r)"
    and "list_all (wf_frame cf) gs" and "q_ptr c = Some q"
    and "ack_all (c_order cf) (stream_acks (c_order cf) gs r) q = Inl f"
  shows "recv_loop cf old c = Some (Inl f)"
  using assms
proof (induction gs arbitrary: fs R c q)
  case Nil
  note S = rx_stateD [OF Nil.prems(1)] and D = buf_invD [OF rx_stateD(1) [OF Nil.prems(1)]]
  have r: "r = R" using Nil.prems(2) by (subst (asm) wire_frames.simps) (auto simp: Let_def split: if_splits prod.splits)
  have d: "unat (writeidx c - nextmsg_idx c) = length R"
    unfolding S(7) by (rule unat_sub_le) (use D in linarith)
  have len: "8 \<le> length R" using Nil.prems(5) r by (auto simp: stream_acks_def split: if_splits)
  then have a: "ptcpq_Ack (c_order cf) (ack_seq (wire_header (c_order cf) R)) q = Inl f"
    using Nil.prems(5) r
    by (cases "ptcpq_Ack (c_order cf) (ack_seq (wire_header (c_order cf) R)) q") (simp_all add: stream_acks_def)
  obtain buf where B: "convert_at (c_order cf) old c = ok (wire_header (c_order cf) R, c\<lparr>recvbuf := buf\<rparr>)"
    by (rule convert_at_ok [OF Nil.prems(1) len])
  show ?case
    using len a Nil.prems(4) by (subst recv_loop.simps) (simp add: word_less_nat_alt d B ack_queue_Some)
next
  case (Cons g gs)
  note S = rx_stateD [OF Cons.prems(1)] and D = buf_invD [OF rx_stateD(1) [OF Cons.prems(1)]]
  let ?E = "c_order cf" and ?h = "wire_header (c_order cf) R"
  have len: "8 \<le> length R" and n: "frame_len ?h \<noteq> 0" "frame_len ?h \<le> length R"
    using Cons.prems(2)
    by (subst (asm) wire_frames.simps, auto simp: Let_def split: if_splits)+
  have g: "g = (?h, seg 8 (frame_len ?h) R)" and rest: "wire_frames ?E (drop (frame_len ?h) R) = (gs, r)"
    using wire_frames_step [OF len refl n] Cons.prems(2) by auto
  have "list_all (wf_frame cf) gs" "wf_frame cf g" using Cons.prems(3) by simp_all
  then have wf: "list_all (wf_frame cf) gs" "frame_len ?h \<le> unat (TcpRecvBufMaxSize cf)"
    unfolding g by (simp_all add: wf_frame_def)
  have d: "unat (writeidx c - nextmsg_idx c) = length R"
    unfolding S(7) by (rule unat_sub_le) (use D in linarith)
  obtain buf where B: "convert_at ?E old c = ok (?h, c\<lparr>recvbuf := buf\<rparr>)"
      "length buf = length (recvbuf c)"
      "seg (unat (readidx c)) (unat (nextmsg_idx c)) buf = buf_frames ?E fs"
      "seg (unat (nextmsg_idx c)) (unat (writeidx c)) buf = buf_rest ?E R"
    by (rule convert_at_ok [OF Cons.prems(1) len])
  show ?case
  proof (cases "ptcpq_Ack ?E (ack_seq ?h) q")
    case (Inl f')
    moreover have "f' = f" using Inl Cons.prems(5) g by (simp add: stream_acks_def)
    ultimately show ?thesis
      using len Cons.prems(4)
      by (subst recv_loop.simps) (simp add: word_less_nat_alt d B ack_queue_Some)
  next
    case (Inr q')
    let ?c1 = "c\<lparr>recvbuf := buf, q_ptr := Some q'\<rparr>"
    have st: "rx_state cf old (enqueue fs [g]) (drop (frame_len ?h) R) (pass_frame ?h ?c1)"
      unfolding g by (rule pass_frame_ok [OF Cons.prems(1) len refl n wf(2) B(2-4)])
    have k: "unat (round8 (hdr_size ?h)) = frame_len ?h" by (simp add: frame_len_def)
    have "recv_loop cf old c = recv_loop cf old (pass_frame ?h ?c1)"
      using len n(2) wf(2) Inr Cons.prems(4)
      by (subst recv_loop.simps)
         (simp add: word_less_nat_alt d B(1) ack_queue_Some Let_def k pass_frame_def)
    moreover have "q_ptr (pass_frame ?h ?c1) = Some q'" by (simp add: pass_frame_def Let_def)
    moreover have "ack_all ?E (stream_acks ?E gs r) q' = Inl f"
      using Cons.prems(5) g Inr by (simp add: stream_acks_def)
    ultimately show ?thesis using Cons.IH [OF st rest wf(1)] by simp
  qed
qed

section \<open>Front and Pop on the queue of frames\<close>

text \<open>
  The receive side of a connection between two calls: the buffer holds the frames \<open>fs\<close>
  and the incomplete rest \<open>rs\<close> of the stream.  A heartbeat is a bare header.
\<close>

definition hb_plain :: "frame \<Rightarrow> bool" where
  "hb_plain f \<longleftrightarrow> (is_hb f \<longrightarrow> snd f = [])"

definition rx_inv :: "conf \<Rightarrow> frame list \<Rightarrow> u8 list \<Rightarrow> pconn \<Rightarrow> bool" where
  "rx_inv cf fs rs c \<longleftrightarrow>
     buf_inv cf c \<and> list_all (wf_frame cf) fs \<and> list_all hb_plain fs \<and>
     seg (unat (readidx c)) (unat (nextmsg_idx c)) (recvbuf c) = buf_frames (c_order cf) fs \<and>
     seg (unat (nextmsg_idx c)) (unat (writeidx c)) (recvbuf c) = buf_rest (c_order cf) rs \<and>
     incomplete cf rs"

lemma rx_invD:
  assumes "rx_inv cf fs rs c"
  shows "buf_inv cf c" "list_all (wf_frame cf) fs" "list_all hb_plain fs"
    "seg (unat (readidx c)) (unat (nextmsg_idx c)) (recvbuf c) = buf_frames (c_order cf) fs"
    "seg (unat (nextmsg_idx c)) (unat (writeidx c)) (recvbuf c) = buf_rest (c_order cf) rs"
    "incomplete cf rs"
    "length (buf_frames (c_order cf) fs) = unat (nextmsg_idx c) - unat (readidx c)"
    "length rs = unat (writeidx c) - unat (nextmsg_idx c)"
    "unread c = buf_frames (c_order cf) fs @ buf_rest (c_order cf) rs"
proof -
  show inv: "buf_inv cf c" and "list_all (wf_frame cf) fs" "list_all hb_plain fs" "incomplete cf rs"
    and f: "seg (unat (readidx c)) (unat (nextmsg_idx c)) (recvbuf c) = buf_frames (c_order cf) fs"
    and t: "seg (unat (nextmsg_idx c)) (unat (writeidx c)) (recvbuf c) = buf_rest (c_order cf) rs"
    using assms by (simp_all add: rx_inv_def)
  note D = buf_invD [OF inv]
  show "length (buf_frames (c_order cf) fs) = unat (nextmsg_idx c) - unat (readidx c)"
    unfolding f [symmetric] using D by simp
  have "length (buf_rest (c_order cf) rs) = unat (writeidx c) - unat (nextmsg_idx c)"
    unfolding t [symmetric] using D by simp
  then show "length rs = unat (writeidx c) - unat (nextmsg_idx c)" by simp
  show "unread c = buf_frames (c_order cf) fs @ buf_rest (c_order cf) rs"
    unfolding f [symmetric] t [symmetric] unread_def using D by (simp add: seg_append)
qed

text \<open>The first frame of the queue, where it starts and what is left when it is skipped.\<close>

lemma head_frame:
  assumes inv: "rx_inv cf (f # fs) rs c"
  shows "load_at (c_order cf) (readidx c) c = ok (fst f)"
    and "unat (readidx c) + frame_len (fst f) \<le> unat (nextmsg_idx c)"
    and "readidx c \<noteq> nextmsg_idx c" and "8 \<le> frame_len (fst f)"
    and "seg (unat (readidx c) + 8) (unat (readidx c) + frame_len (fst f)) (recvbuf c) = snd f"
    and "k = round8 (hdr_size (fst f)) \<Longrightarrow> rx_inv cf fs rs (c\<lparr>readidx := readidx c + k\<rparr>)"
proof -
  note R = rx_invD [OF inv] and D = buf_invD [OF rx_invD(1) [OF inv]]
  let ?E = "c_order cf" and ?r = "unat (readidx c)" and ?n = "unat (nextmsg_idx c)" and ?k = "frame_len (fst f)"
  have len: "length (buf_frame ?E f) = ?k" "8 \<le> ?k"
    using R(2) by (simp_all add: length_buf_frame wf_frame_def)
  have le: "?r + ?k \<le> ?n" using R(7) len D(2) by simp
  then show "?r + ?k \<le> ?n" "8 \<le> ?k" by (simp_all add: len)
  show "readidx c \<noteq> nextmsg_idx c" using le len by auto
  have "?r + 8 \<le> length (recvbuf c)" "8 \<le> ?n - ?r" using le len D by linarith+
  then show "load_at ?E (readidx c) c = ok (fst f)"
    using load_header_seg [of ?n ?r ?E "recvbuf c"] R(4) by (simp add: load_at_def buf_frame_def)
  have first: "seg ?r (?r + ?k) (recvbuf c) = buf_frame ?E f"
    using take_seg [of ?k ?r ?n "recvbuf c"] le R(4) len by simp
  then show "seg (?r + 8) (?r + ?k) (recvbuf c) = snd f"
    using drop_seg [of 8 ?r "?r + ?k" "recvbuf c"] by (simp add: buf_frame_def)
  have second: "seg (?r + ?k) ?n (recvbuf c) = buf_frames ?E fs"
    using drop_seg [of ?k ?r ?n "recvbuf c"] R(4) len by simp
  show "rx_inv cf fs rs (c\<lparr>readidx := readidx c + k\<rparr>)" if k: "k = round8 (hdr_size (fst f))"
  proof -
    have "unat (readidx c + k) = ?r + ?k"
      using le D by (subst unat_add_less) (simp_all add: k frame_len_def)
    then show ?thesis using R(1-3,5,6) second le by (simp add: rx_inv_def buf_inv_def)
  qed
qed

lemma rx_inv_empty: "rx_inv cf [] rs c \<Longrightarrow> readidx c = nextmsg_idx c"
  using rx_invD(7) [of cf "[]" rs c] buf_invD(2) [OF rx_invD(1), of cf "[]" rs c]
  by (simp add: word_unat_eq_iff)

lemma round8_8: "unat k = 8 \<Longrightarrow> k = (8 :: u32)"
  by (simp add: word_unat_eq_iff)

text \<open>The first loop of \<open>Front\<close> skips the heartbeats at the head of the queue.\<close>

lemma front_queued_ok:
  assumes "rx_inv cf fs rs c" and "q_ptr c = Some q"
  shows "\<exists>c1. rx_inv cf (dropWhile is_hb fs) rs c1 \<and> q_ptr c1 = Some q \<and> sockfd c1 = sockfd c \<and>
    front_queued (c_order cf) c =
      (if dropWhile is_hb fs = [] \<or> last_my_ack c = ptcpq_MyAck q then Some (ok (None, c1))
       else Some (ok (Some (readidx c1), c1)))"
  using assms
proof (induction fs arbitrary: c)
  case Nil
  then show ?case
    using rx_inv_empty [OF Nil.prems(1)] by (intro exI [of _ c]) (simp add: front_queued.simps)
next
  case (Cons f fs)
  note H = head_frame [OF Cons.prems(1)]
  show ?case
  proof (cases "is_hb f")
    case True
    have "snd f = []" using rx_invD(3) [OF Cons.prems(1)] True by (simp add: hb_plain_def)
    then have "frame_len (fst f) = 8" using rx_invD(2) [OF Cons.prems(1)] by (simp add: wf_frame_def)
    then have "8 = round8 (hdr_size (fst f))" using round8_8 by (simp add: frame_len_def)
    note I = H(6) [OF this]
    have "front_queued (c_order cf) c = front_queued (c_order cf) (c\<lparr>readidx := readidx c + 8\<rparr>)"
      using True H(1,3) by (subst front_queued.simps) (simp add: is_hb_def)
    then show ?thesis using Cons.IH [OF I] Cons.prems(2) True by simp
  next
    case False
    let ?c1 = "if last_my_ack c = ptcpq_MyAck q then c else c\<lparr>last_my_ack := ptcpq_MyAck q\<rparr>"
    have "rx_inv cf (f # fs) rs ?c1" using Cons.prems(1) by (simp add: rx_inv_def buf_inv_def)
    then show ?thesis
      using Cons.prems(2) False H(1,3)
      by (intro exI [of _ ?c1], subst front_queued.simps) (auto simp: is_hb_def deref_def)
  qed
qed

text \<open>The buffer seen through the unread bytes, which a receive extends.\<close>

lemma unread_parts:
  assumes "buf_inv cf c"
  shows "seg (unat (readidx c)) (unat (nextmsg_idx c)) (recvbuf c) =
      take (unat (nextmsg_idx c) - unat (readidx c)) (unread c)"
    and "seg (unat (nextmsg_idx c)) (unat (writeidx c)) (recvbuf c) =
      drop (unat (nextmsg_idx c) - unat (readidx c)) (unread c)"
  using buf_invD [OF assms] by (simp_all add: unread_def take_seg drop_seg)

lemma rx_parts_after:
  assumes inv: "rx_inv cf fs rs c" and inv2: "buf_inv cf c2"
    and rel: "unat (nextmsg_idx c2) - unat (readidx c2) = unat (nextmsg_idx c) - unat (readidx c)"
    and bytes: "unread c2 = unread c @ bs"
  shows "seg (unat (readidx c2)) (unat (nextmsg_idx c2)) (recvbuf c2) = buf_frames (c_order cf) fs"
    and "seg (unat (nextmsg_idx c2)) (unat (writeidx c2)) (recvbuf c2) = buf_rest (c_order cf) rs @ bs"
  using rx_invD(7,9) [OF inv] unfolding unread_parts [OF inv2] rel bytes by simp_all

lemma buf_rest_append:
  "buf_rest E rs @ bs = (if 8 \<le> length rs then buf_rest E (rs @ bs) else rs @ bs)"
  by (auto simp: buf_rest_def wire_header_append)

lemma rx_state_after:
  assumes inv: "rx_inv cf fs rs c" and k: "kept c c2"
    and g: "buf_inv cf (grown c2 (length bs))" "unread (grown c2 (length bs)) = unread c @ bs"
      "unat (writeidx (grown c2 (length bs))) = unat (writeidx c2) + length bs"
  shows "rx_state cf (writeidx c2) fs (rs @ bs) (grown c2 (length bs))"
proof -
  let ?c = "grown c2 (length bs)"
  have sel: "nextmsg_idx ?c = nextmsg_idx c2" "readidx ?c = readidx c2" by (simp_all add: grown_def)
  have rel: "unat (nextmsg_idx ?c) - unat (readidx ?c) = unat (nextmsg_idx c) - unat (readidx c)"
    using k by (simp add: sel kept_def)
  note P = rx_parts_after [OF inv g(1) rel g(2)]
  note R = rx_invD [OF inv] and D = buf_invD [OF rx_invD(1) [OF inv]] and G = buf_invD [OF g(1)]
  have lr: "unat (writeidx c2) = unat (nextmsg_idx c2) + length rs"
  proof -
    have "length (unread ?c) = unat (writeidx ?c) - unat (readidx ?c)" by (rule length_unread [OF g(1)])
    then have "length (unread c) + length bs = unat (writeidx c2) + length bs - unat (readidx c2)"
      using g(2,3) by (simp add: sel)
    moreover have "length (unread c) = unat (nextmsg_idx c) - unat (readidx c) + length rs"
      using R(7,9) by simp
    moreover have "unat (readidx c2) \<le> unat (nextmsg_idx c2)" using G(2) by (simp add: sel)
    moreover have "unat (nextmsg_idx c2) \<le> unat (writeidx c2) + length bs" using G(3) g(3) by (simp add: sel)
    moreover have "unat (writeidx c2) - unat (readidx c2) = unat (writeidx c) - unat (readidx c)"
      "unat (nextmsg_idx c2) - unat (readidx c2) = unat (nextmsg_idx c) - unat (readidx c)"
      using k by (simp_all add: kept_def)
    ultimately show ?thesis using D(2,3) R(8) by arith
  qed
  then have conv: "converted (writeidx c2) ?c \<longleftrightarrow> 8 \<le> length rs"
    by (auto simp: converted_def sel)
  have "length rs < frame_len (wire_header (c_order cf) (rs @ bs))" if "8 \<le> length rs"
    using R(6) that by (auto simp: incomplete_def wire_header_append)
  then show ?thesis
    using P g R(2) conv lr by (simp add: rx_state_def buf_rest_append sel)
qed

lemma front_result_eq:
  "rx_inv cf fs rs c \<Longrightarrow> front_result c = (if fs = [] then None else Some (readidx c))"
  using rx_inv_empty head_frame(3) by (cases fs) (auto simp: front_result_def)

lemma list_all_dropWhile: "list_all P xs \<Longrightarrow> list_all P (dropWhile Q xs)"
  by (auto simp: list_all_iff dest: set_dropWhileD)

lemma Front_ok:
  assumes inv: "rx_inv cf fs rs c" and q: "q_ptr c = Some q" and N: "read_bounded N"
  obtains (queued) c1 where "pconn_Front N cf c e = Some (ok (Some (readidx c1), c1), e)"
      "rx_inv cf (dropWhile is_hb fs) rs c1" "dropWhile is_hb fs \<noteq> []" "q_ptr c1 = Some q"
      "sockfd c1 = sockfd c"
  | (quiet) c1 e1 where "pconn_Front N cf c e = Some (ok (front_result c1, c1), e1)"
      "rx_inv cf (dropWhile is_hb fs) rs c1" "no_data N (sockfd c) e e1" "q_ptr c1 = Some q"
      "sockfd c1 = sockfd c \<or> sockfd c1 < 0"
  | (received) n bs e1 where "os_read N (sockfd c) n e = (Inr bs, e1)" "bs \<noteq> []"
      "\<And>gs r q1. wire_frames (c_order cf) (rs @ bs) = (gs, r) \<Longrightarrow> list_all (wf_frame cf) gs \<Longrightarrow>
         list_all hb_plain gs \<Longrightarrow> incomplete cf r \<Longrightarrow>
         ack_all (c_order cf) (stream_acks (c_order cf) gs r) q = ok q1 \<Longrightarrow>
         \<exists>c1. pconn_Front N cf c e = Some (ok (front_result c1, c1), e1) \<and>
           rx_inv cf (enqueue (dropWhile is_hb fs) gs) r c1 \<and> q_ptr c1 = Some q1 \<and>
           sockfd c1 = sockfd c"
      "\<And>gs r f. wire_frames (c_order cf) (rs @ bs) = (gs, r) \<Longrightarrow> list_all (wf_frame cf) gs \<Longrightarrow>
         ack_all (c_order cf) (stream_acks (c_order cf) gs r) q = Inl f \<Longrightarrow>
         pconn_Front N cf c e = Some (Inl f, e1)"
proof -
  let ?fs = "dropWhile is_hb fs"
  have tcp: "\<not> UseShm c" using q by (simp add: UseShm_def)
  obtain c1 where I: "rx_inv cf ?fs rs c1" "q_ptr c1 = Some q" "sockfd c1 = sockfd c"
    and fq: "front_queued (c_order cf) c =
      (if ?fs = [] \<or> last_my_ack c = ptcpq_MyAck q then Some (ok (None, c1))
       else Some (ok (Some (readidx c1), c1)))"
    using front_queued_ok [OF inv q] by blast
  show thesis
  proof (cases "?fs = [] \<or> last_my_ack c = ptcpq_MyAck q")
    case False
    then have "front_queued (c_order cf) c = Some (ok (Some (readidx c1), c1))" "?fs \<noteq> []"
      using fq by metis+
    then have "pconn_Front N cf c e = Some (ok (Some (readidx c1), c1), e)" "?fs \<noteq> []"
      using tcp by (simp_all add: pconn_Front_def)
    then show thesis using queued I by blast
  next
    case True
    then have front: "pconn_Front N cf c e = (case DoRecv N cf c1 e of
             (Inl f, e1) \<Rightarrow> Some (Inl f, e1)
           | (Inr (len, c2), e1) \<Rightarrow>
               if len = 0 then Some (ok (front_result c2, c2), e1)
               else case recv_loop cf (writeidx c2) (grown c2 len) of
                 None \<Rightarrow> None
               | Some (Inl f) \<Rightarrow> Some (Inl f, e1)
               | Some (Inr (False, c3)) \<Rightarrow> Some (ok (None, c3), e1)
               | Some (Inr (True, c3)) \<Rightarrow> Some (ok (front_result c3, c3), e1))"
      unfolding grown_def using fq tcp by (simp add: pconn_Front_def)
    show thesis
    proof (cases rule: DoRecv_ok [OF rx_invD(1) [OF I(1)] N, of e])
      case (1 c2 e1)
      have "unat (nextmsg_idx c2) - unat (readidx c2) = unat (nextmsg_idx c1) - unat (readidx c1)"
        using 1(3) by (simp add: kept_def)
      then have "rx_inv cf ?fs rs c2"
        using rx_parts_after [OF I(1) 1(2), of "[]"] 1(2,4) rx_invD(2,3,6) [OF I(1)]
        by (simp add: rx_inv_def)
      moreover have "pconn_Front N cf c e = Some (ok (front_result c2, c2), e1)"
        using front 1(1) by simp
      moreover have "q_ptr c2 = Some q" "sockfd c2 = sockfd c \<or> sockfd c2 < 0"
        using 1(3) I(2,3) by (auto simp: kept_def)
      ultimately show thesis using quiet 1(5) I(3) by metis
    next
      case (2 fd n bs c2 e1)
      let ?c3 = "grown c2 (length bs)"
      note st = rx_state_after [OF I(1) 2(6-9)]
      have s3: "sockfd ?c3 = sockfd c" using 2(5) I(3) by (simp add: grown_def)
      have q3: "q_ptr ?c3 = Some q" using 2(6) I(2) by (simp add: kept_def grown_def)
      have front2: "pconn_Front N cf c e = (case recv_loop cf (writeidx c2) ?c3 of
                 None \<Rightarrow> None
               | Some (Inl f) \<Rightarrow> Some (Inl f, e1)
               | Some (Inr (False, c3)) \<Rightarrow> Some (ok (None, c3), e1)
               | Some (Inr (True, c3)) \<Rightarrow> Some (ok (front_result c3, c3), e1))"
        using front 2(1,2) by simp
      show thesis
      proof (rule received [of n bs e1])
        show "os_read N (sockfd c) n e = (Inr bs, e1)" "bs \<noteq> []" using 2 I(3) by simp_all
        fix gs r q1
        assume A: "wire_frames (c_order cf) (rs @ bs) = (gs, r)" "list_all (wf_frame cf) gs"
          "list_all hb_plain gs" "incomplete cf r"
          "ack_all (c_order cf) (stream_acks (c_order cf) gs r) q = ok q1"
        obtain c4 where L: "recv_loop cf (writeidx c2) ?c3 = Some (ok (True, c4))" "buf_inv cf c4"
          "q_ptr c4 = Some q1"
          "seg (unat (readidx c4)) (unat (nextmsg_idx c4)) (recvbuf c4) = buf_frames (c_order cf) (enqueue ?fs gs)"
          "seg (unat (nextmsg_idx c4)) (unat (writeidx c4)) (recvbuf c4) = buf_rest (c_order cf) r"
          "sockfd c4 = sockfd c"
          using s3 recv_loop_ok [OF st A(1,2,4) q3 A(5)] by auto
        have "rx_inv cf (enqueue ?fs gs) r c4"
          using L A rx_invD(2,3) [OF I(1)] by (simp add: rx_inv_def list_all_enqueue)
        then show "\<exists>c1. pconn_Front N cf c e = Some (ok (front_result c1, c1), e1) \<and>
           rx_inv cf (enqueue ?fs gs) r c1 \<and> q_ptr c1 = Some q1 \<and>
           sockfd c1 = sockfd c"
          using front2 L by simp
      next
        fix gs r f
        assume A: "wire_frames (c_order cf) (rs @ bs) = (gs, r)" "list_all (wf_frame cf) gs"
          "ack_all (c_order cf) (stream_acks (c_order cf) gs r) q = Inl f"
        show "pconn_Front N cf c e = Some (Inl f, e1)"
          using front2 recv_loop_fault [OF st A(1,2) q3 A(3)] by simp
      qed
    qed
  qed
qed

lemma Pop_ok:
  assumes inv: "rx_inv cf (f # fs) rs c" and q: "q_ptr c = Some q"
  shows "\<exists>c1. pconn_Pop cf c = ok c1 \<and> rx_inv cf fs rs c1 \<and>
    q_ptr c1 = Some (ptcpq_inc_MyAck q) \<and> sockfd c1 = sockfd c"
proof -
  note H = head_frame [OF inv]
  have "rx_inv cf fs rs (c\<lparr>readidx := readidx c + round8 (hdr_size (fst f)), q_ptr := x\<rparr>)" for x
    using H(6) [OF refl] by (simp add: rx_inv_def buf_inv_def)
  then show ?thesis using H(1) q by (simp add: pconn_Pop_def deref_def)
qed

section \<open>Runs of a connection\<close>

text \<open>
  The peer's stream is well formed when every frame in it has a size other than 0 and within
  the configured maximum, and heartbeats are bare headers.
\<close>

definition good_stream :: "conf \<Rightarrow> u8 list \<Rightarrow> bool" where
  "good_stream cf bs \<longleftrightarrow>
     list_all (wf_frame cf) (fst (wire_frames (c_order cf) bs)) \<and>
     list_all hb_plain (fst (wire_frames (c_order cf) bs)) \<and>
     incomplete cf (snd (wire_frames (c_order cf) bs))"

text \<open>The application messages of a stream.\<close>

definition app_frames :: "byte_order \<Rightarrow> u8 list \<Rightarrow> frame list" where
  "app_frames E bs = filter (\<lambda>f. \<not> is_hb f) (fst (wire_frames E bs))"

lemma good_stream_prefix:
  assumes "good_stream cf (bs @ cs)"
  shows "good_stream cf bs"
proof -
  let ?E = "c_order cf"
  obtain fs r where F: "wire_frames ?E bs = (fs, r)" by fastforce
  obtain gs r' where G: "wire_frames ?E (r @ cs) = (gs, r')" by fastforce
  have all: "wire_frames ?E (bs @ cs) = (fs @ gs, r')"
    by (subst wire_frames_append) (simp add: F G)
  have good: "list_all (wf_frame cf) (fs @ gs)" "list_all hb_plain fs" "incomplete cf r'"
    using assms all by (simp_all add: good_stream_def)
  have "incomplete cf r"
  proof (cases "length r < 8")
    case True
    then show ?thesis by (simp add: incomplete_def)
  next
    case False
    then have len: "8 \<le> length r" by simp
    let ?h = "wire_header ?E r"
    have h: "wire_header ?E (r @ cs) = ?h" using len by (rule wire_header_append)
    have stop: "frame_len ?h = 0 \<or> length r < frame_len ?h"
      using wire_frames_rest [OF F] wire_frames_step [OF len refl] by (metis Pair_inject linorder_not_less list.distinct(1))
    have "frame_len ?h \<noteq> 0 \<and> frame_len ?h \<le> unat (TcpRecvBufMaxSize cf)"
    proof (cases gs)
      case Nil
      then have r': "r' = r @ cs"
        using G by (subst (asm) wire_frames.simps) (auto simp: Let_def split: if_splits prod.splits)
      have "\<not> length r' < 8" using r' len by simp
      then show ?thesis using good(3) h r' by (auto simp: incomplete_def)
    next
      case (Cons g gs')
      have "fst g = ?h"
        using G Cons h by (subst (asm) wire_frames.simps) (auto simp: Let_def split: if_splits prod.splits)
      then show ?thesis using good(1) Cons by (auto simp: wf_frame_def)
    qed
    then show ?thesis using stop by (auto simp: incomplete_def)
  qed
  then show ?thesis using good F by (simp add: good_stream_def)
qed

text \<open>
  The documented behaviour of \<open>read\<close> on a stream socket \<open>s\<close>, stated with a log of the bytes
  it has delivered: a read that returns bytes appends them to the log, every other read
  leaves it, and a negative descriptor is an error.
\<close>

definition socket_log :: "'e os \<Rightarrow> fd \<Rightarrow> ('e \<Rightarrow> u8 list) \<Rightarrow> bool" where
  "socket_log N s log \<longleftrightarrow>
     (\<forall>n e r e1. os_read N s n e = (r, e1) \<longrightarrow>
        log e1 = log e @ (case r of Inl _ \<Rightarrow> [] | Inr bs \<Rightarrow> bs)) \<and>
     (\<forall>fd n e r e1. fd < 0 \<longrightarrow> os_read N fd n e = (r, e1) \<longrightarrow> (\<exists>err. r = Inl err) \<and> log e1 = log e)"

text \<open>
  The runs of the receiving side: the connection is opened, \<open>Front\<close> is called any number of
  times, a message at the read index is popped, and other operations may work on the send
  queue in between.  \<open>got\<close> are the messages popped, as the user saw them in the buffer.
\<close>

definition buf_shape :: "conf \<Rightarrow> pconn \<Rightarrow> bool" where
  "buf_shape cf c \<longleftrightarrow>
     length (recvbuf c) = unat (recvbuf_size c) \<and>
     unat (recvbuf_size c) \<le> unat (TcpRecvBufMaxSize cf) \<and>
     unat (TcpRecvBufInitSize cf) \<le> unat (TcpRecvBufMaxSize cf) \<and>
     unat (TcpRecvBufMaxSize cf) < 2147483648"

definition same_rx :: "pconn \<Rightarrow> pconn \<Rightarrow> bool" where
  "same_rx c c1 \<longleftrightarrow>
     recvbuf c1 = recvbuf c \<and> recvbuf_size c1 = recvbuf_size c \<and> readidx c1 = readidx c \<and>
     nextmsg_idx c1 = nextmsg_idx c \<and> writeidx c1 = writeidx c \<and>
     (q_ptr c1 = None \<longleftrightarrow> q_ptr c = None) \<and> (sockfd c1 = sockfd c \<or> sockfd c1 < 0)"

inductive rx_run ::
  "'e os \<Rightarrow> conf \<Rightarrow> fd \<Rightarrow> ('e \<Rightarrow> u8 list) \<Rightarrow> frame list \<Rightarrow> pconn \<Rightarrow> 'e \<Rightarrow> bool"
  for N cf s log
where
  run_open: "buf_shape cf c0 \<Longrightarrow> q_ptr c0 \<noteq> None \<Longrightarrow>
    pconn_Open N cf s ack now c0 e0 = Some (ok c, e) \<Longrightarrow> log e = [] \<Longrightarrow>
    rx_run N cf s log [] c e"
| run_front: "rx_run N cf s log got c e \<Longrightarrow> pconn_Front N cf c e = Some (ok (r, c1), e1) \<Longrightarrow>
    rx_run N cf s log got c1 e1"
| run_pop: "rx_run N cf s log got c e \<Longrightarrow> front_result c = Some i \<Longrightarrow>
    load_at (c_order cf) i c = ok h \<Longrightarrow> msg_type h \<noteq> HeartbeatMsg_type \<Longrightarrow>
    body = seg (unat i + 8) (unat i + frame_len h) (recvbuf c) \<Longrightarrow> pconn_Pop cf c = ok c1 \<Longrightarrow>
    rx_run N cf s log (got @ [(h, body)]) c1 e"
| run_other: "rx_run N cf s log got c e \<Longrightarrow> same_rx c c1 \<Longrightarrow> log e1 = log e \<Longrightarrow>
    rx_run N cf s log got c1 e1"

lemma same_rx_inv: "same_rx c c1 \<Longrightarrow> rx_inv cf fs rs c \<Longrightarrow> rx_inv cf fs rs c1"
  by (simp add: same_rx_def rx_inv_def buf_inv_def)

lemma same_rx_refl [simp]: "same_rx c c"
  by (simp add: same_rx_def)

lemma same_rx_trans: "same_rx a b \<Longrightarrow> same_rx b c \<Longrightarrow> same_rx a c"
  by (auto simp: same_rx_def)

lemma SendPending_same_rx:
  assumes "SendPending N cf c e = Some (ok (b, c1), e1)"
  shows "same_rx c c1"
  using assms
  by (auto simp: SendPending_def same_rx_def pconn_Close_def Let_def
      split: if_splits option.splits sum.splits prod.splits)

lemma Open_rx:
  assumes "buf_shape cf c0" "q_ptr c0 \<noteq> None" "pconn_Open N cf s ack now c0 e0 = Some (ok c, e)"
  shows "rx_inv cf [] [] c" and "q_ptr c \<noteq> None" and "sockfd c = s \<or> sockfd c < 0"
proof -
  obtain q where q: "q_ptr c0 = Some q" using assms(2) by auto
  let ?c = "\<lambda>q. c0\<lparr>sockfd := s, fd_to_close := s, writeidx := 0, readidx := 0,
      nextmsg_idx := 0, recv_time := now, send_time := now, now_time := now, q_ptr := Some q\<rparr>"
  obtain q1 b c1 where la: "ptcpq_LoginAck (c_order cf) ack q = ok q1"
    and sp: "SendPending N cf (?c q1) e0 = Some (ok (b, c1), e)"
    and c: "c = (if recvbuf_size c1 = 0 then c1\<lparr>recvbuf_size := TcpRecvBufInitSize cf,
        recvbuf := replicate (unat (TcpRecvBufInitSize cf)) 0\<rparr> else c1)"
    using assms(3) q
    by (auto simp: pconn_Open_def Let_def chk_bind_ok_iff split: sum.splits prod.splits)
  note S = SendPending_same_rx [OF sp]
  have 1: "recvbuf c1 = recvbuf c0" "recvbuf_size c1 = recvbuf_size c0" "readidx c1 = 0"
      "nextmsg_idx c1 = 0" "writeidx c1 = 0" "q_ptr c1 \<noteq> None" "sockfd c1 = s \<or> sockfd c1 < 0"
    using S by (simp_all add: same_rx_def)
  show "rx_inv cf [] [] c" "q_ptr c \<noteq> None" "sockfd c = s \<or> sockfd c < 0"
    using assms(1) 1 by (auto simp: c rx_inv_def buf_inv_def buf_shape_def incomplete_def buf_rest_def)
qed

lemma no_data_log:
  assumes "no_data N (sockfd c) e e1" "socket_log N s log" "sockfd c = s \<or> sockfd c < 0"
  shows "log e1 = log e"
  using assms unfolding no_data_def socket_log_def
  by (metis append_Nil2 sum.case_eq_if sum.collapse(2))

text \<open>Whatever has been delivered is a prefix of the stream the peer sends.\<close>

definition delivers :: "('e \<Rightarrow> u8 list) \<Rightarrow> u8 list \<Rightarrow> bool" where
  "delivers log stream \<longleftrightarrow> (\<forall>e. \<exists>rest. stream = log e @ rest)"

definition rx_ok :: "conf \<Rightarrow> fd \<Rightarrow> u8 list \<Rightarrow> frame list \<Rightarrow> pconn \<Rightarrow> bool" where
  "rx_ok cf s rx got c \<longleftrightarrow>
     (\<exists>fs. rx_inv cf fs (snd (wire_frames (c_order cf) rx)) c \<and>
       app_frames (c_order cf) rx = got @ filter (\<lambda>f. \<not> is_hb f) fs) \<and>
     q_ptr c \<noteq> None \<and> (sockfd c = s \<or> sockfd c < 0)"

text \<open>After \<open>Front\<close> the first frame is not a heartbeat, and a pointer returned is the first frame's.\<close>

definition rx_ready :: "conf \<Rightarrow> fd \<Rightarrow> u8 list \<Rightarrow> frame list \<Rightarrow> u32 option \<Rightarrow> pconn \<Rightarrow> bool" where
  "rx_ready cf s rx got r c \<longleftrightarrow>
     (\<exists>fs. rx_inv cf fs (snd (wire_frames (c_order cf) rx)) c \<and>
       app_frames (c_order cf) rx = got @ filter (\<lambda>f. \<not> is_hb f) fs \<and> dropWhile is_hb fs = fs \<and>
       (r \<noteq> None \<longrightarrow> r = front_result c)) \<and>
     q_ptr c \<noteq> None \<and> (sockfd c = s \<or> sockfd c < 0)"

lemma dropWhile_enqueue: "dropWhile is_hb (enqueue (dropWhile is_hb fs) gs) = enqueue (dropWhile is_hb fs) gs"
proof (cases "dropWhile is_hb fs")
  case Nil
  then show ?thesis by (simp add: enqueue_def)
next
  case (Cons x xs)
  then have "\<not> is_hb x" by (simp add: dropWhile_eq_Cons_conv)
  then show ?thesis by (simp add: enqueue_def Cons)
qed

lemma Front_rx_ready:
  assumes ok: "rx_ok cf s (log e) got c" and N: "read_bounded N" "socket_log N s log"
    and D: "delivers log stream" "good_stream cf stream"
    and F: "pconn_Front N cf c e = Some (Inr (r, c1), e1)"
  shows "rx_ready cf s (log e1) got r c1"
proof -
  let ?E = "c_order cf" and ?app = "filter (\<lambda>f. \<not> is_hb f)"
  define rs where "rs = snd (wire_frames ?E (log e))"
  obtain fs q where fs: "rx_inv cf fs rs c" "app_frames ?E (log e) = got @ ?app fs" "q_ptr c = Some q"
      and sock: "sockfd c = s \<or> sockfd c < 0"
    using ok by (auto simp: rx_ok_def rs_def)
  show ?thesis
  proof (cases rule: Front_ok [OF fs(1,3) N(1), of e])
    case (1 c2)
    then have "c1 = c2" "e1 = e" using F by simp_all
    then show ?thesis
      using 1 fs(2) sock F front_result_eq [OF 1(2)] by (auto simp: rx_ready_def rs_def filter_dropWhile)
  next
    case (2 c2 e2)
    then have "c1 = c2" "e1 = e2" using F by simp_all
    then show ?thesis
      using 2 fs(2) sock no_data_log [OF 2(3) N(2) sock] F
      by (auto simp: rx_ready_def rs_def filter_dropWhile)
  next
    case (3 n bs e2)
    have s: "sockfd c = s"
    proof (rule ccontr)
      assume "sockfd c \<noteq> s"
      then have "sockfd c < 0" using sock by simp
      then show False using 3(1) N(2) unfolding socket_log_def by blast
    qed
    obtain gs r' where G: "wire_frames ?E (rs @ bs) = (gs, r')" by fastforce
    have log: "log e2 = log e @ bs" using 3(1) N(2) s unfolding socket_log_def by fastforce
    have W: "wire_frames ?E (log e2) = (fst (wire_frames ?E (log e)) @ gs, r')"
      unfolding log by (subst wire_frames_append) (simp add: G flip: rs_def)
    have "good_stream cf (log e2)"
      using D good_stream_prefix unfolding delivers_def by metis
    then have good: "list_all (wf_frame cf) gs" "list_all hb_plain gs" "incomplete cf r'"
      by (simp_all add: good_stream_def W)
    obtain q1 where a: "ack_all ?E (stream_acks ?E gs r') q = ok q1"
      using 3(4) [OF G good(1)] F by (cases "ack_all ?E (stream_acks ?E gs r') q") auto
    obtain c2 where c2: "pconn_Front N cf c e = Some (ok (front_result c2, c2), e2)"
        "rx_inv cf (enqueue (dropWhile is_hb fs) gs) r' c2" "q_ptr c2 = Some q1" "sockfd c2 = sockfd c"
      using 3(3) [OF G good a] by blast
    then have "c1 = c2" "e1 = e2" using F by simp_all
    moreover have "app_frames ?E (log e2) = got @ ?app (enqueue (dropWhile is_hb fs) gs)"
      using fs(2) by (simp add: app_frames_def W filter_enqueue filter_dropWhile)
    ultimately show ?thesis using c2 sock F dropWhile_enqueue by (auto simp: rx_ready_def W)
  qed
qed

lemma rx_ready_ok: "rx_ready cf s rx got r c \<Longrightarrow> rx_ok cf s rx got c"
  by (auto simp: rx_ready_def rx_ok_def)

lemmas Front_rx_ok = rx_ready_ok [OF Front_rx_ready]

lemma Pop_rx_ok:
  assumes ok: "rx_ok cf s rx got c" and i: "front_result c = Some i"
    and h: "load_at (c_order cf) i c = Inr h" "msg_type h \<noteq> HeartbeatMsg_type"
    and P: "pconn_Pop cf c = Inr c1"
  shows "rx_ok cf s rx (got @ [(h, seg (unat i + 8) (unat i + frame_len h) (recvbuf c))]) c1"
proof -
  obtain fs q where fs: "rx_inv cf fs (snd (wire_frames (c_order cf) rx)) c" "q_ptr c = Some q"
      "app_frames (c_order cf) rx = got @ filter (\<lambda>f. \<not> is_hb f) fs"
    and sock: "sockfd c = s \<or> sockfd c < 0"
    using ok by (auto simp: rx_ok_def)
  obtain f fs' where f: "fs = f # fs'" and ri: "i = readidx c"
    using front_result_eq [OF fs(1)] i by (cases fs) auto
  note H = head_frame [OF fs(1) [unfolded f]]
  have hf: "h = fst f" using H(1) h(1) ri by simp
  have "f = (h, seg (unat i + 8) (unat i + frame_len h) (recvbuf c))"
    using H(5) hf ri by simp
  moreover have "\<not> is_hb f" using h(2) hf by (simp add: is_hb_def)
  moreover obtain c2 where "pconn_Pop cf c = ok c2" "rx_inv cf fs' (snd (wire_frames (c_order cf) rx)) c2"
      "q_ptr c2 = Some (ptcpq_inc_MyAck q)" "sockfd c2 = sockfd c"
    using Pop_ok [OF fs(1) [unfolded f] fs(2)] by blast
  ultimately show ?thesis using fs(3) f P sock by (auto simp: rx_ok_def)
qed

lemma rx_run_ok:
  assumes "rx_run N cf s log got c e" and "read_bounded N" "socket_log N s log"
    and "delivers log stream" "good_stream cf stream"
  shows "rx_ok cf s (log e) got c"
  using assms
proof (induction rule: rx_run.induct)
  case (run_open c0 ack now e0 c e)
  then show ?case
    using Open_rx [OF run_open(1-3)]
    by (auto simp: rx_ok_def app_frames_def wire_frames_short intro!: exI [of _ "[]"])
next
  case (run_front got c e r c1 e1)
  show ?case
    by (rule Front_rx_ok [OF run_front.IH [OF run_front.prems] run_front.prems run_front.hyps(2)])
next
  case (run_pop got c e i h body c1)
  show ?case
    unfolding run_pop.hyps(5)
    by (rule Pop_rx_ok [OF run_pop.IH [OF run_pop.prems] run_pop.hyps(2-4,6)])
next
  case (run_other got c e c1 e1)
  then have "rx_ok cf s (log e) got c" by simp
  then show ?case
    using run_other(2,3) same_rx_inv by (fastforce simp: rx_ok_def same_rx_def)
qed

section \<open>What is sent\<close>

text \<open>
  The documented behaviour of \<open>send\<close> on a stream socket \<open>s\<close>, with a log of the bytes it has
  accepted: it takes a prefix of what it is given, not empty unless nothing was given; on a
  negative descriptor it fails.
\<close>

definition send_log :: "'e os \<Rightarrow> fd \<Rightarrow> ('e \<Rightarrow> u8 list) \<Rightarrow> bool" where
  "send_log N s log \<longleftrightarrow>
     (\<forall>bs e e1 n. os_send N s bs e = (Inr n, e1) \<longrightarrow>
        n \<le> length bs \<and> (bs \<noteq> [] \<longrightarrow> 0 < n) \<and> log e1 = log e @ take n bs) \<and>
     (\<forall>bs e e1 err. os_send N s bs e = (Inl err, e1) \<longrightarrow> log e1 = log e) \<and>
     (\<forall>fd bs e r e1. fd < 0 \<longrightarrow> os_send N fd bs e = (r, e1) \<longrightarrow> (\<exists>err. r = Inl err) \<and> log e1 = log e)"

lemma send_logD:
  "send_log N s log \<Longrightarrow> os_send N s bs e = (Inr n, e1) \<Longrightarrow>
     n \<le> length bs \<and> (bs \<noteq> [] \<longrightarrow> 0 < n) \<and> log e1 = log e @ take n bs"
  "send_log N s log \<Longrightarrow> os_send N s bs e = (Inl err, e1) \<Longrightarrow> log e1 = log e"
  "send_log N s log \<Longrightarrow> fd < 0 \<Longrightarrow> os_send N fd bs e = (r, e1) \<Longrightarrow>
     (\<exists>err. r = Inl err) \<and> log e1 = log e"
  unfolding send_log_def by blast+

lemma and_7: "unat (x AND 7 :: u32) = unat x mod 8"
  using take_bit_eq_mask [of 3 "unat x"]
  by (simp add: unsigned_and_eq take_bit_eq_mod mask_eq_exp_minus_1)

text \<open>The loop ends, and what it reports as left is what the socket did not take.\<close>

lemma send_loop_ok:
  assumes "send_log N s log" "0 < sz" "p + unat sz \<le> length mem"
  shows "\<exists>r e1 k. send_loop N s mem p sz e = Some (r, e1) \<and> k \<le> unat sz \<and>
    log e1 = log e @ seg p (p + k) mem \<and>
    (\<forall>left. r = Inr left \<longrightarrow> unat left = unat sz - k \<and> unat left mod 8 = 0)"
  using assms(2,3)
proof (induction "unat sz" arbitrary: sz p e rule: less_induct)
  case less
  let ?bs = "seg p (p + unat sz) mem"
  have sz: "0 < unat sz" using less.prems(1) by (simp add: word_less_nat_alt)
  have len: "length ?bs = unat sz" using less.prems(2) by simp
  obtain r e1 where S: "os_send N s ?bs e = (r, e1)" by fastforce
  show ?case
  proof (cases r)
    case (Inl err)
    then have log: "log e1 = log e" using send_logD(2) [OF assms(1)] S by blast
    show ?thesis
    proof (cases "err \<noteq> EAGAIN \<or> sz AND 7 \<noteq> 0")
      case True
      then have "send_loop N s mem p sz e = Some (Inl err, e1)"
        using S Inl by (subst send_loop.simps) simp
      then show ?thesis using log by (intro exI [of _ "Inl err"] exI [of _ e1] exI [of _ 0]) simp
    next
      case False
      then have "send_loop N s mem p sz e = Some (Inr sz, e1)"
        using S Inl by (subst send_loop.simps) simp
      moreover have "unat sz mod 8 = 0" using False and_7 [of sz] by simp
      ultimately show ?thesis using log by (intro exI [of _ "Inr sz"] exI [of _ e1] exI [of _ 0]) simp
    qed
  next
    case (Inr n)
    have n: "n \<le> unat sz" "0 < n" "log e1 = log e @ seg p (p + n) mem"
    proof -
      have "n \<le> length ?bs \<and> (?bs \<noteq> [] \<longrightarrow> 0 < n) \<and> log e1 = log e @ take n ?bs"
        using send_logD(1) [OF assms(1)] S Inr by blast
      moreover have "?bs \<noteq> []" using len sz by (metis list.size(3) less_numeral_extra(3))
      ultimately show "n \<le> unat sz" "0 < n" "log e1 = log e @ seg p (p + n) mem"
        using len by (simp_all add: take_seg)
    qed
    define sz1 where "sz1 = sz - of_nat n"
    have "unat (of_nat n :: u32) = n" using n(1) unat_u32_less [of sz] by (intro unat_of_nat_u32) linarith
    then have sz1: "unat sz1 = unat sz - n" using n(1) by (simp add: sz1_def unat_sub_le)
    show ?thesis
    proof (cases "0 < sz1")
      case False
      then have z: "unat sz1 = 0" by (simp add: word_less_nat_alt)
      have "send_loop N s mem p sz e = Some (Inr sz1, e1)"
        using S Inr False by (subst send_loop.simps) (simp add: sz1_def)
      then show ?thesis using n sz1 z by (intro exI [of _ "Inr sz1"] exI [of _ e1] exI [of _ n]) simp
    next
      case True
      then have step: "send_loop N s mem p sz e = send_loop N s mem (p + n) sz1 e1"
        using S Inr by (subst send_loop.simps) (simp add: sz1_def Let_def)
      have "unat sz1 < unat sz" "p + n + unat sz1 \<le> length mem" using sz1 n sz less.prems(2) by linarith+
      from less.hyps [OF this(1) True this(2), of e1] obtain r' e2 k where IH:
        "send_loop N s mem (p + n) sz1 e1 = Some (r', e2)" "k \<le> unat sz1"
        "log e2 = log e1 @ seg (p + n) (p + n + k) mem"
        "\<forall>left. r' = Inr left \<longrightarrow> unat left = unat sz1 - k \<and> unat left mod 8 = 0" by blast
      have "log e2 = log e @ seg p (p + (n + k)) mem"
        using IH(3) n(3) seg_append [of p "p + n" "p + n + k" mem] by (simp add: add.assoc)
      then show ?thesis
        using step IH sz1 n(1) by (intro exI [of _ r'] exI [of _ e2] exI [of _ "n + k"]) auto
    qed
  qed
qed

lemma length_blocks_bytes [simp]: "length (blocks_bytes E bs) = 8 * length bs"
  by (induction bs) (simp_all add: blocks_bytes_def)

lemma blocks_bytes_Nil [simp]: "blocks_bytes E [] = []"
  by (simp add: blocks_bytes_def)

lemma blocks_bytes_append: "blocks_bytes E (xs @ ys) = blocks_bytes E xs @ blocks_bytes E ys"
  by (simp add: blocks_bytes_def)

lemma seg_blocks_bytes:
  assumes "i \<le> j" "j \<le> length bs"
  shows "seg (8 * i) (8 * j) (blocks_bytes E bs) = blocks_bytes E (seg i j bs)"
proof -
  have bs: "bs = take i bs @ seg i j bs @ drop j bs"
    using assms by (simp add: seg_def) (metis append_take_drop_id drop_drop le_add_diff_inverse2)
  have "seg (8 * i) (8 * j) (blocks_bytes E (take i bs @ seg i j bs @ drop j bs)) = blocks_bytes E (seg i j bs)"
    using assms unfolding blocks_bytes_append by (simp add: seg_def)
  then show ?thesis using bs by simp
qed

text \<open>
  \<open>SendPending\<close> returns; it puts whole blocks from the send index on into the socket and
  moves the index behind them, or it closes the connection and leaves the queue as it is.
\<close>

lemma SendPending_ok:
  assumes q: "q_ptr c = Some q" and inv: "ptcpq_inv Bytes E q" and opn: "\<not> IsClosed c"
    and log: "send_log N (sockfd c) log" and E: "E = c_order cf"
  obtains (sent) b c1 e1 n where "SendPending N cf c e = Some (ok (b, c1), e1)"
      "unat (send_idx q) + n \<le> unat (write_idx q)"
      "log e1 = log e @ blocks_bytes E (seg (unat (send_idx q)) (unat (send_idx q) + n) (blk q))"
      "q_ptr c1 = Some (q\<lparr>send_idx := send_idx q + of_nat n\<rparr>)" "sockfd c1 = sockfd c"
      "b \<longleftrightarrow> send_idx q \<noteq> write_idx q"
  | (failed) c1 e1 k err where "SendPending N cf c e = Some (ok (False, c1), e1)"
      "IsClosed c1" "q_ptr c1 = Some q" "c1 = pconn_Close ''Send error'' err c"
      "log e1 = log e @ take k (blocks_bytes E (seg (unat (send_idx q)) (unat (write_idx q)) (blk q)))"
proof -
  note D = ptcpq_invD [OF inv] and B = BLK_CNT_bound [of Bytes]
  let ?s = "unat (send_idx q)" and ?w = "unat (write_idx q)" and ?mem = "blocks_bytes E (blk q)"
  define m where "m = ?w - ?s"
  have d: "unat (write_idx q - send_idx q) = m" unfolding m_def by (rule unat_sub_le [OF D(3)])
  have gs: "ptcpq_GetSendable q = (int m, send_idx q)"
  proof -
    have "unat (write_idx q - send_idx q) < 2147483648" using d D B m_def by linarith
    from sint_small [OF this] show ?thesis unfolding ptcpq_GetSendable_def d by (rule arg_cong)
  qed
  show thesis
  proof (cases "send_idx q = write_idx q")
    case True
    then have "SendPending N cf c e = Some (ok (False, c), e)"
      using opn q gs by (simp add: SendPending_def m_def)
    then show thesis using sent [of False c e 0] True q D by simp
  next
    case False
    then have lt: "?s < ?w" using D(3) by (metis le_neq_implies_less word_unat_eq_iff)
    then have m: "0 < m" "?s + m = ?w" by (simp_all add: m_def)
    define sz where "sz = (push_bit 3 (of_nat m) :: u32)"
    have blk3: "unat (of_nat m :: u32) = m" using D B m by (intro unat_of_nat_u32) linarith
    have sz: "unat sz = 8 * m"
    proof -
      define x where "x = (of_nat m :: u32)"
      have "sz = push_bit 3 x" unfolding sz_def x_def ..
      moreover have "8 * unat x < 4294967296" using blk3 D B m by (simp only: x_def)
      ultimately have "unat sz = 8 * unat x" by (simp add: push_bit_eq_mult unat_word_ariths mult.commute)
      then show ?thesis using blk3 by (simp only: x_def)
    qed
    have "0 < sz" using sz m by (simp add: word_less_nat_alt)
    moreover have "8 * ?s + unat sz \<le> length ?mem" using sz D m by simp
    ultimately obtain r e1 k where L: "send_loop N (sockfd c) ?mem (8 * ?s) sz e = Some (r, e1)"
        "k \<le> unat sz" "log e1 = log e @ seg (8 * ?s) (8 * ?s + k) ?mem"
        "\<And>left. r = Inr left \<Longrightarrow> unat left = unat sz - k \<and> unat left mod 8 = 0"
      using send_loop_ok [OF log, of sz "8 * ?s" ?mem e] by blast
    show thesis
    proof (cases r)
      case (Inl err)
      have "SendPending N cf c e = Some (ok (False, pconn_Close ''Send error'' err c), e1)"
        using opn q gs m(1) L(1) Inl E by (simp add: SendPending_def Let_def flip: sz_def)
      moreover have "seg (8 * ?s) (8 * ?s + k) ?mem = take k (blocks_bytes E (seg ?s ?w (blk q)))"
      proof -
        have "blocks_bytes E (seg ?s ?w (blk q)) = seg (8 * ?s) (8 * ?w) ?mem"
          using seg_blocks_bytes [of ?s ?w "blk q" E] D by simp
        moreover have "8 * ?s + k \<le> 8 * ?w" using L(2) sz m by linarith
        ultimately show ?thesis by (simp add: take_seg)
      qed
      ultimately show thesis using failed L(3) q by (metis pconn_Close_sel(6,11))
    next
      case (Inr left)
      define n where "n = k div 8"
      have left: "unat left = 8 * m - k" "k \<le> 8 * m" "k mod 8 = 0"
        using L(2) L(4) [OF Inr] sz by (simp_all add: mod_diff_eq) presburger
      then have k: "k = 8 * n" unfolding n_def by presburger
      have n: "?s + n \<le> ?w" using left(2) k m by linarith
      have dl: "unat (drop_bit 3 left) = m - n"
        using left(1) k by (simp add: drop_bit_eq_div unat_div flip: diff_mult_distrib2)
      have sb: "sint (of_nat m - drop_bit 3 left :: u32) = int n"
      proof -
        have "unat (of_nat m - drop_bit 3 left :: u32) = n"
          using dl blk3 n m by (simp add: unat_sub_le)
        then show ?thesis using n m D B by (simp add: sint_u32)
      qed
      have log1: "log e1 = log e @ blocks_bytes E (seg ?s (?s + n) (blk q))"
        using L(3) k seg_blocks_bytes [of ?s "?s + n" "blk q" E] n D by (simp add: algebra_simps)
      show thesis
      proof (cases "n = 0")
        case True
        then have "SendPending N cf c e = Some (ok (True, c), e1)"
          using opn q gs m(1) L(1) Inr E sb by (simp add: SendPending_def Let_def flip: sz_def)
        then show thesis using sent [of True c e1 0] True log1 q False m by simp
      next
        case nz: False
        let ?c1 = "c\<lparr>send_time := now_time c, q_ptr := Some (ptcpq_Sendout (int n) q)\<rparr>"
        have "SendPending N cf c e = Some (ok (True, ?c1), e1)"
          using opn q gs m(1) L(1) Inr E sb nz by (simp add: SendPending_def Let_def flip: sz_def)
        then show thesis using sent [of True ?c1 e1 n] log1 n False by (simp add: ptcpq_Sendout_def)
      qed
    qed
  qed
qed

section \<open>Properties\<close>

text \<open>
  The witnesses run on a host without files whose socket 5 delivers a fixed stream, at most
  ten bytes at a time, and accepts at most twelve bytes at a time; its state is the number
  of bytes delivered and the bytes accepted.
\<close>

definition no_os :: "'e os" where
  "no_os =
     \<lparr>os_open = \<lambda>f e. (Inl 2, e), os_shm_open = \<lambda>f e. (Inl 2, e), os_ftruncate = \<lambda>fd n e. (Inl 9, e),
      os_mmap_ptcp = \<lambda>fd n e. (Inl 9, e), os_mmap_ring = \<lambda>fd n e. (Inl 9, e),
      os_mmap_name = \<lambda>fd n e. (Inl 9, e), os_munmap_ptcp = \<lambda>q e. e, os_munmap_ring = \<lambda>q e. e,
      os_munmap_name = \<lambda>q e. e, os_close = \<lambda>fd e. e, os_send = \<lambda>fd bs e. (Inl 9, e),
      os_read = \<lambda>fd n e. (Inl 9, e), os_socket = \<lambda>e. (Inl 24, e),
      os_setsockopt = \<lambda>fd opt e. (Inl 9, e), os_nonblock = \<lambda>fd e. e, os_connect = \<lambda>fd a p e. (Inl 9, e),
      os_bind = \<lambda>fd a p e. (Inl 9, e), os_listen = \<lambda>fd e. (Inl 9, e), os_accept = \<lambda>fd e. (Inl 9, e)\<rparr>"

definition stream_os :: "u8 list \<Rightarrow> (nat \<times> u8 list) os" where
  "stream_os stream = no_os
     \<lparr>os_read := \<lambda>fd n (k, out).
        if fd = 5 then
          (let bs = take (min n 10) (drop k stream)
           in if bs = [] then (Inl EAGAIN, (k, out)) else (Inr bs, (min (k + length bs) (length stream), out)))
        else (Inl 9, (k, out)),
      os_send := \<lambda>fd bs (k, out).
        if fd = 5 then (Inr (min 12 (length bs)), (k, out @ take 12 bs)) else (Inl 9, (k, out))\<rparr>"

definition delivered :: "u8 list \<Rightarrow> nat \<times> u8 list \<Rightarrow> u8 list" where
  "delivered stream e = take (fst e) stream"

lemma stream_os_bounded: "read_bounded (stream_os stream)"
  unfolding read_bounded_def stream_os_def by (auto simp: Let_def split: if_splits)

lemma stream_os_log: "socket_log (stream_os stream) 5 (delivered stream)"
proof -
  have "take (min (k + length bs) (length stream)) stream = take k stream @ bs"
    if "bs = take (min n 10) (drop k stream)" for n k bs
  proof -
    have "take (k + min n 10) stream = take k stream @ bs" using that by (simp add: take_add)
    moreover have "take (min (k + length bs) (length stream)) stream = take (k + min n 10) stream"
      using that by (cases "k + min n 10 \<le> length stream") (auto simp: min_def)
    ultimately show ?thesis by simp
  qed
  then show ?thesis
    unfolding socket_log_def stream_os_def delivered_def by (auto simp: Let_def split: if_splits)
qed

lemma stream_os_delivers: "delivers (delivered stream) stream"
  unfolding delivers_def delivered_def by (metis append_take_drop_id)

lemma stream_os_send: "send_log (stream_os stream) 5 snd"
  unfolding send_log_def stream_os_def by (auto simp: min_def)

definition small_conf :: conf where
  "small_conf = \<lparr>c_order = le_host, NameSize = 16, TcpQueueSize = 64, ShmQueueSize = 256,
     TcpRecvBufInitSize = 32, TcpRecvBufMaxSize = 64, TcpNoDelay = True, ConnectionTimeout = 10,
     HeartBeatInverval = 3\<rparr>"

definition small_conn :: pconn where
  "small_conn = (pconn_new small_conf)\<lparr>q_ptr := Some (ptcpq_new (replicate 8 zero_header))\<rparr>"

text \<open>A message of twelve bytes, a heartbeat, and the start of another message.\<close>

definition small_stream :: "u8 list" where
  "small_stream = header_bytes le_host \<lparr>hdr_size = 12, msg_type = 5, ack_seq = 0\<rparr> @ [1, 2, 3, 4, 0, 0, 0, 0] @
     header_bytes le_host \<lparr>hdr_size = 8, msg_type = 0, ack_seq = 0\<rparr> @
     header_bytes le_host \<lparr>hdr_size = 16, msg_type = 6, ack_seq = 0\<rparr>"

lemma small_conf_sel [simp]:
  "c_order small_conf = le_host" "unat (TcpRecvBufMaxSize small_conf) = 64"
  "TcpRecvBufInitSize small_conf = 32" "TcpRecvBufMaxSize small_conf = 64"
  by (simp_all add: small_conf_def)

lemma le_host_conv [simp]: "ConvertByteOrder le_host h = h"
  by (simp add: ConvertByteOrder_def Convert16_def Convert32_def le_host_def)

lemma small_frames: "wire_frames le_host small_stream =
    ([(\<lparr>hdr_size = 12, msg_type = 5, ack_seq = 0\<rparr>, [1, 2, 3, 4, 0, 0, 0, 0]),
      (\<lparr>hdr_size = 8, msg_type = 0, ack_seq = 0\<rparr>, [])],
     header_bytes le_host \<lparr>hdr_size = 16, msg_type = 6, ack_seq = 0\<rparr>)"
proof -
  let ?h = "\<lambda>n t. \<lparr>hdr_size = n, msg_type = t, ack_seq = 0\<rparr>"
  have len: "frame_len (?h 12 5) = 16" "frame_len (?h 8 0) = 8" "frame_len (?h 16 6) = 16"
    by (simp_all add: frame_len_def unat_round8)
  have wh: "wire_header le_host (header_bytes le_host h @ bs) = h" for h bs
    by (simp add: wire_header_def)
  let ?r2 = "header_bytes le_host (?h 16 6)"
  have 3: "wire_frames le_host ?r2 = ([], ?r2)"
    using wh [of "?h 16 6" "[]"] len by (intro wire_frames_stop [OF _ refl]) simp_all
  let ?r1 = "header_bytes le_host (?h 8 0) @ ?r2"
  have 2: "wire_frames le_host ?r1 = ([(?h 8 0, [])], ?r2)"
    using wire_frames_step [of ?r1 "?h 8 0" le_host] wh len 3 by simp
  have "wire_frames le_host (header_bytes le_host (?h 12 5) @ ([1, 2, 3, 4, 0, 0, 0, 0] @ ?r1)) =
      ((?h 12 5, [1, 2, 3, 4, 0, 0, 0, 0]) # [(?h 8 0, [])], ?r2)"
    using wire_frames_step [of "header_bytes le_host (?h 12 5) @ ([1, 2, 3, 4, 0, 0, 0, 0] @ ?r1)" "?h 12 5" le_host]
      wh len 2 by (simp add: seg_def)
  then show ?thesis by (simp add: small_stream_def)
qed

lemma small_good: "good_stream small_conf small_stream"
  by (simp add: good_stream_def small_frames wf_frame_def hb_plain_def is_hb_def HeartbeatMsg_type_def
      incomplete_def frame_len_def unat_round8 wire_header_def)
     (simp add: load_header_bytes [where bs = "[]", simplified] unat_round8)

definition open_conn :: pconn where
  "open_conn = small_conn\<lparr>sockfd := 5, fd_to_close := 5, recvbuf_size := 32, recvbuf := replicate 32 0\<rparr>"

lemma small_open:
  "pconn_Open (stream_os stream) small_conf 5 0 0 small_conn e = Some (ok open_conn, e)"
  by (simp add: pconn_Open_def small_conn_def pconn_new_def ptcpq_LoginAck_def ptcpq_Ack_def
      ptcpq_new_def SendPending_def IsClosed_def ptcpq_GetSendable_def open_conn_def Let_def)

lemma small_shape: "buf_shape small_conf small_conn" "q_ptr small_conn \<noteq> None"
  by (simp_all add: buf_shape_def small_conn_def pconn_new_def small_conf_def)

lemma open_run:
  "rx_run (stream_os stream) small_conf 5 (delivered stream) [] open_conn (0, out)"
  by (rule run_open [OF small_shape small_open]) (simp add: delivered_def)

text \<open>
  C2. The application gets every message once, whole and in order, however the network cuts
  the stream: in every run, the messages popped are a prefix of the application messages of
  the bytes received so far, heartbeats left out, and once \<open>Front\<close> finds nothing they are
  all of them.
\<close>

theorem rx_messages_in_order:
  assumes "rx_run N cf s log got c e" and "read_bounded N" and "socket_log N s log"
    and "delivers log stream" and "good_stream cf stream"
  shows "\<exists>waiting. app_frames (c_order cf) (log e) = got @ waiting \<and>
    (front_result c = None \<longrightarrow> waiting = [])"
proof -
  obtain fs where fs: "rx_inv cf fs (snd (wire_frames (c_order cf) (log e))) c"
      "app_frames (c_order cf) (log e) = got @ filter (\<lambda>f. \<not> is_hb f) fs"
    using rx_run_ok [OF assms] by (auto simp: rx_ok_def)
  then show ?thesis
    using front_result_eq [OF fs(1)] by (auto split: if_splits)
qed

lemma small_stream_split:
  "small_stream = header_bytes le_host \<lparr>hdr_size = 12, msg_type = 5, ack_seq = 0\<rparr> @
     [1, 2, 3, 4, 0, 0, 0, 0] @ drop 16 small_stream" "length small_stream = 32"
  by (simp_all add: small_stream_def)

lemma small_recv:
  "DoRecv (stream_os small_stream) small_conf open_conn (0, out) =
    (ok (10, open_conn\<lparr>recvbuf := take 10 small_stream @ replicate 22 0\<rparr>), (10, out))"
proof -
  have "small_stream \<noteq> []" using small_stream_split(2) by auto
  then show ?thesis
    by (simp add: DoRecv_def open_conn_def small_conn_def pconn_new_def stream_os_def
        small_stream_split(2) Let_def place_received_def write_at_def blit_def min_def)
qed

definition half_conn :: pconn where
  "half_conn = open_conn\<lparr>recvbuf := take 10 small_stream @ replicate 22 0, writeidx := 10\<rparr>"

lemma open_sel [simp]:
  "readidx open_conn = 0" "nextmsg_idx open_conn = 0" "writeidx open_conn = 0"
  "q_ptr open_conn = Some (ptcpq_new (replicate 8 zero_header))"
  by (simp_all add: open_conn_def small_conn_def pconn_new_def)

lemma small_recv_loop: "recv_loop small_conf 0 half_conn = Some (ok (True, half_conn))"
proof -
  let ?h = "\<lparr>hdr_size = 12, msg_type = 5, ack_seq = 0\<rparr>"
  have sel: "readidx half_conn = 0" "nextmsg_idx half_conn = 0" "writeidx half_conn = 10"
    "q_ptr half_conn = Some (ptcpq_new (replicate 8 zero_header))"
    by (simp_all add: half_conn_def)
  have buf: "recvbuf half_conn = header_bytes le_host ?h @ [1, 2] @ replicate 22 0"
    unfolding half_conn_def by (subst small_stream_split(1)) simp
  have "convert_at le_host 0 half_conn = ok (?h, half_conn)"
    by (simp add: convert_at_def load_at_def store_at_def write_at_def sel buf blit_def Let_def)
  moreover have "round8 12 = 16" by (simp add: round8_def)
  ultimately show ?thesis
    by (subst recv_loop.simps)
       (simp add: sel ack_queue_Some ptcpq_Ack_def ptcpq_new_def Let_def)
qed
lemma small_front:
  "pconn_Front (stream_os small_stream) small_conf open_conn (0, out) = Some (ok (None, half_conn), (10, out))"
proof -
  have "front_queued le_host open_conn = Some (ok (None, open_conn))"
    by (subst front_queued.simps) simp
  moreover have "front_result (open_conn\<lparr>recvbuf := x, writeidx := 10\<rparr>) = None" for x
    by (simp add: front_result_def)
  ultimately show ?thesis
    using small_recv [of out] small_recv_loop
    by (simp add: pconn_Front_def UseShm_def half_conn_def)
qed

theorem rx_messages_in_order_witness:
  "app_frames le_host (delivered small_stream (10, [])) = []"
proof -
  have "rx_run (stream_os small_stream) small_conf 5 (delivered small_stream) [] half_conn (10, [])"
    by (rule run_front [OF open_run small_front])
  from rx_messages_in_order [OF this stream_os_bounded stream_os_log stream_os_delivers small_good]
  show ?thesis by (simp add: front_result_def half_conn_def)
qed


lemma open_inv: "rx_inv small_conf [] [] open_conn"
  using Open_rx(1) [OF small_shape small_open] .

lemma small_start:
  assumes "m \<le> 10"
  shows "wire_frames le_host (take m small_stream) = ([], take m small_stream)"
    and "stream_acks le_host [] (take m small_stream) \<in> {[], [0]}"
proof -
  let ?h = "\<lparr>hdr_size = 12, msg_type = 5, ack_seq = 0\<rparr>"
  have len: "length (take m small_stream) = m" using assms small_stream_split(2) by simp
  have wh: "wire_header le_host (take m small_stream) = ?h" if "8 \<le> m"
  proof -
    have "take m small_stream = header_bytes le_host ?h @ take (m - 8) ([1, 2, 3, 4, 0, 0, 0, 0] @ drop 16 small_stream)"
      using that by (subst small_stream_split(1)) simp
    then show ?thesis by (simp add: wire_header_def)
  qed
  show "wire_frames le_host (take m small_stream) = ([], take m small_stream)"
  proof (cases "m < 8")
    case True
    then show ?thesis using len by (intro wire_frames_short) simp
  next
    case False
    then show ?thesis
      using wh len assms by (intro wire_frames_stop [OF _ refl]) (simp_all add: frame_len_def unat_round8)
  qed
  show "stream_acks le_host [] (take m small_stream) \<in> {[], [0]}"
    using wh len by (simp add: stream_acks_def)
qed


definition zero_header_at_next :: "byte_order \<Rightarrow> pconn \<Rightarrow> bool" where
  "zero_header_at_next E c \<longleftrightarrow>
     8 \<le> unat (writeidx c - nextmsg_idx c) \<and>
     unat (nextmsg_idx c) + 8 \<le> length (recvbuf c) \<and>
     hdr_size (load_header E (drop (unat (nextmsg_idx c)) (recvbuf c))) = 0 \<and>
     (\<exists>q. q_ptr c = Some q \<and>
        ptcpq_Ack E (ack_seq (load_header E (drop (unat (nextmsg_idx c)) (recvbuf c)))) q = ok q)"

lemma zero_header_convert:
  assumes z: "zero_header_at_next E c" and E: "ToLittle E = is_little_endian E"
  obtains h c1 where "convert_at E old c = ok (h, c1)" "hdr_size h = 0" "zero_header_at_next E c1"
    "ack_queue E (ack_seq h) c1 = ok c1" "nextmsg_idx c1 = nextmsg_idx c"
proof -
  define n where "n = unat (nextmsg_idx c)"
  define h where "h = load_header E (drop n (recvbuf c))"
  have Z: "n + 8 \<le> length (recvbuf c)" "hdr_size h = 0" using z by (simp_all add: zero_header_at_next_def n_def h_def)
  obtain q where q: "q_ptr c = Some q" "ptcpq_Ack E (ack_seq h) q = ok q"
    using z by (auto simp: zero_header_at_next_def n_def h_def)
  have conv: "ConvertByteOrder E h = h" using E by (simp add: ConvertByteOrder_def Convert16_def Convert32_def)
  have load: "load_at E (nextmsg_idx c) c = ok h" using Z(1) by (simp add: load_at_def h_def n_def)
  show thesis
  proof (cases "sint old - sint (nextmsg_idx c) < 8")
    case False
    then have "convert_at E old c = ok (h, c)" using load by (simp add: convert_at_def)
    moreover have "ack_queue E (ack_seq h) c = ok c" using q by (simp add: ack_queue_Some)
    ultimately show thesis using that Z(2) z by blast
  next
    case True
    let ?buf = "blit (header_bytes E h) n (recvbuf c)"
    have room: "n + length (header_bytes E h) \<le> length (recvbuf c)" using Z(1) by simp
    have "convert_at E old c = ok (h, c\<lparr>recvbuf := ?buf\<rparr>)"
      using True load conv room by (simp add: convert_at_def store_at_def write_at_def n_def Let_def)
    moreover have "load_header E (drop n ?buf) = h"
      using Z(1) by (simp add: blit_def)
    then have "zero_header_at_next E (c\<lparr>recvbuf := ?buf\<rparr>)"
      using z q Z length_blit [OF room] by (simp add: zero_header_at_next_def flip: n_def)
    moreover have "ack_queue E (ack_seq h) (c\<lparr>recvbuf := ?buf\<rparr>) = ok (c\<lparr>recvbuf := ?buf\<rparr>)"
      using q by (simp add: ack_queue_Some)
    ultimately show thesis using that Z(2) by simp
  qed
qed

lemma recv_loop_zero:
  assumes "recv_loop cf old c = Some y" and "ToLittle (c_order cf) = is_little_endian (c_order cf)"
  shows "\<not> zero_header_at_next (c_order cf) c"
proof -
  let ?P = "\<lambda>cf old c y. ToLittle (c_order cf) = is_little_endian (c_order cf) \<longrightarrow>
    \<not> zero_header_at_next (c_order cf) c"
  have "?P cf old c y"
  proof (rule recv_loop.raw_induct [where P = ?P, OF _ assms(1)])
    fix recv cf old c y
    assume IH: "\<And>cf old c y. recv cf old c = Some y \<Longrightarrow> ?P cf old c y"
      and eq: "(if writeidx c - nextmsg_idx c < 8 then Some (ok (True, c))
      else case convert_at (c_order cf) old c of
        Inl f \<Rightarrow> Some (Inl f)
      | Inr (h, c1) \<Rightarrow>
          (case ack_queue (c_order cf) (ack_seq h) c1 of
             Inl f \<Rightarrow> Some (Inl f)
           | Inr c2 \<Rightarrow>
               let msg_size = round8 (hdr_size h) in
               if TcpRecvBufMaxSize cf < msg_size
               then Some (ok (False, pconn_Close ''Msg size larger than recv buf max size'' 0 c2))
               else if writeidx c2 - nextmsg_idx c2 < msg_size then Some (ok (True, c2))
               else
                 let c3 = (if msg_type h = HeartbeatMsg_type \<and> readidx c2 = nextmsg_idx c2
                           then c2\<lparr>readidx := readidx c2 + msg_size\<rparr> else c2)
                 in recv cf old (c3\<lparr>nextmsg_idx := nextmsg_idx c3 + msg_size\<rparr>))) = Some y"
    show "?P cf old c y"
    proof (intro impI notI)
      assume E: "ToLittle (c_order cf) = is_little_endian (c_order cf)"
        and z: "zero_header_at_next (c_order cf) c"
      obtain h c1 where C: "convert_at (c_order cf) old c = ok (h, c1)" "hdr_size h = 0"
          "zero_header_at_next (c_order cf) c1" "ack_queue (c_order cf) (ack_seq h) c1 = ok c1"
        by (rule zero_header_convert [OF z E])
      have "8 \<le> unat (writeidx c - nextmsg_idx c)" using z by (simp add: zero_header_at_next_def)
      then have "\<not> writeidx c - nextmsg_idx c < 8" by (simp add: word_less_nat_alt)
      moreover have r0: "round8 0 = 0" by simp
      moreover have same: "readidx c1 = nextmsg_idx c1 \<Longrightarrow> c1\<lparr>readidx := nextmsg_idx c1\<rparr> = c1"
        by (cases c1) simp
      ultimately have "recv cf old c1 = Some y"
        using eq C(1,2,4) 
        by (cases "msg_type h = HeartbeatMsg_type \<and> readidx c1 = nextmsg_idx c1") (simp_all add: Let_def r0 same)
      then show False using IH C(3) E by blast
    qed
  qed
  then show ?thesis using assms(2) by blast
qed

lemma recv_loop_diverges:
  "ToLittle (c_order cf) = is_little_endian (c_order cf) \<Longrightarrow> zero_header_at_next (c_order cf) c \<Longrightarrow>
     recv_loop cf old c = None"
  using recv_loop_zero by (cases "recv_loop cf old c") blast+


definition zero_stream :: "u8 list" where
  "zero_stream = header_bytes le_host \<lparr>hdr_size = 0, msg_type = 5, ack_seq = 0\<rparr>"


text \<open>
  A frame larger than the maximal receive buffer ends the connection: the loop stops at
  it, the connection is closed with the reason given, and nothing behind it is taken as a
  message.
\<close>

theorem oversized_frame_closes:
  assumes "rx_state cf old fs R c" and "8 \<le> length R" and "q_ptr c = Some q"
    and "unat (TcpRecvBufMaxSize cf) < frame_len (wire_header (c_order cf) R)"
    and "ptcpq_Ack (c_order cf) (ack_seq (wire_header (c_order cf) R)) q = ok q1"
  shows "\<exists>c1. recv_loop cf old c = Some (ok (False, c1)) \<and> IsClosed c1 \<and>
    (\<not> IsClosed c \<longrightarrow> GetCloseReason c1 = (''Msg size larger than recv buf max size'', 0)) \<and>
    nextmsg_idx c1 = nextmsg_idx c"
proof -
  note S = rx_stateD [OF assms(1)] and D = buf_invD [OF rx_stateD(1) [OF assms(1)]]
  obtain buf where B: "convert_at (c_order cf) old c =
      ok (wire_header (c_order cf) R, c\<lparr>recvbuf := buf\<rparr>)"
    by (rule convert_at_ok [OF assms(1,2)])
  have d: "unat (writeidx c - nextmsg_idx c) = length R"
    unfolding S(7) by (rule unat_sub_le) (use D in linarith)
  have "TcpRecvBufMaxSize cf < round8 (hdr_size (wire_header (c_order cf) R))"
    using assms(4) by (simp add: word_less_nat_alt frame_len_def)
  then have "recv_loop cf old c = Some (ok (False, pconn_Close ''Msg size larger than recv buf max size'' 0
      (c\<lparr>recvbuf := buf, q_ptr := Some q1\<rparr>)))"
    using assms(2,3,5) d by (subst recv_loop.simps) (simp add: word_less_nat_alt B ack_queue_Some Let_def)
  then show ?thesis by (simp add: GetCloseReason_def pconn_Close_def IsClosed_def)
qed

definition big_stream :: "u8 list" where
  "big_stream = header_bytes le_host \<lparr>hdr_size = 65, msg_type = 5, ack_seq = 0\<rparr>"

theorem oversized_frame_closes_witness:
  "\<exists>c1. recv_loop small_conf 0 (open_conn\<lparr>recvbuf := big_stream @ replicate 24 0, writeidx := 8\<rparr>) =
     Some (ok (False, c1)) \<and> IsClosed c1"
proof -
  let ?c = "open_conn\<lparr>recvbuf := big_stream @ replicate 24 0, writeidx := 8\<rparr>"
  have len: "length big_stream = 8" by (simp add: big_stream_def)
  have wh: "wire_header le_host big_stream = \<lparr>hdr_size = 65, msg_type = 5, ack_seq = 0\<rparr>"
    using load_header_bytes [of le_host _ "[]"] by (simp add: wire_header_def big_stream_def)
  have "rx_state small_conf 0 [] big_stream ?c"
    using len by (simp add: rx_state_def buf_inv_def converted_def seg_def buf_frames_def)
       (simp add: open_conn_def)
  then show ?thesis
    using oversized_frame_closes [of small_conf 0 "[]" big_stream ?c "ptcpq_new (replicate 8 zero_header)"
      "ptcpq_new (replicate 8 zero_header)"]
    by (auto simp: len wh frame_len_def unat_round8 ptcpq_Ack_def ptcpq_new_def)
qed



text \<open>
  C7. \<open>SendPending\<close> keeps the socket at block boundaries: it returns for every behaviour of
  \<open>send\<close>; if the connection stays open, exactly the whole blocks it moves the send index
  over have been accepted, in order, and the result says whether anything was pending; if a
  send fails (or stops inside a block) the connection is closed and the queue is unchanged,
  so that a later login sends the blocks again.
\<close>

theorem SendPending_whole_blocks:
  assumes "q_ptr c = Some q" and "ptcpq_inv Bytes (c_order cf) q" and "\<not> IsClosed c"
    and "send_log N (sockfd c) log"
  shows "\<exists>b c1 e1. SendPending N cf c e = Some (ok (b, c1), e1) \<and>
    (if IsClosed c1 then \<not> b \<and> q_ptr c1 = Some q \<and>
       (\<exists>k. log e1 = log e @ take k (blocks_bytes (c_order cf)
          (seg (unat (send_idx q)) (unat (write_idx q)) (blk q))))
     else \<exists>n. unat (send_idx q) + n \<le> unat (write_idx q) \<and>
       log e1 = log e @ blocks_bytes (c_order cf)
         (seg (unat (send_idx q)) (unat (send_idx q) + n) (blk q)) \<and>
       q_ptr c1 = Some (q\<lparr>send_idx := send_idx q + of_nat n\<rparr>) \<and>
       (b \<longleftrightarrow> send_idx q \<noteq> write_idx q))"
proof (cases rule: SendPending_ok [OF assms refl, of e])
  case (1 b c1 e1 n)
  moreover have "\<not> IsClosed c1" using 1(5) assms(3) by (simp add: IsClosed_def)
  ultimately show ?thesis by auto
next
  case (2 c1 e1 k err)
  then show ?thesis by auto
qed

definition full_conn :: pconn where
  "full_conn = open_conn\<lparr>q_ptr := Some (sample_queue\<lparr>send_idx := 0\<rparr>)\<rparr>"

lemma full_conn_sel [simp]: "sockfd full_conn = 5" "\<not> IsClosed full_conn"
    "q_ptr full_conn = Some (sample_queue\<lparr>send_idx := 0\<rparr>)"
  by (simp_all add: full_conn_def open_conn_def IsClosed_def)

lemma full_inv: "ptcpq_inv 64 le_host (sample_queue\<lparr>send_idx := 0\<rparr>)"
  using sample_inv by (simp add: ptcpq_inv_def live_def sample_queue_def)

theorem SendPending_whole_blocks_witness:
  "\<exists>b c1 e1. SendPending (stream_os []) small_conf full_conn (0, []) = Some (ok (b, c1), e1) \<and>
     (\<not> IsClosed c1 \<longrightarrow> b)"
proof -
  have "send_log (stream_os []) (sockfd full_conn) snd" using stream_os_send by simp
  from SendPending_whole_blocks [OF full_conn_sel(3), of 64 small_conf, OF _ full_conn_sel(2) this]
  have "\<exists>b c1 e1. SendPending (stream_os []) small_conf full_conn (0, []) = Some (ok (b, c1), e1) \<and>
     (\<not> IsClosed c1 \<longrightarrow> (b \<longleftrightarrow> send_idx (sample_queue\<lparr>send_idx := 0\<rparr>) \<noteq> write_idx (sample_queue\<lparr>send_idx := 0\<rparr>)))"
    using full_inv by (metis small_conf_sel(1))
  then show ?thesis by (simp add: sample_queue_def)
qed

text \<open>
  C23. Heartbeats never cut into a message: \<open>SendHB\<close> does nothing within the heartbeat
  interval, otherwise sends pending blocks, and only when nothing is pending puts a bare
  header with the current acknowledgement number into the socket, whole unless the
  connection is closed.
\<close>

theorem SendHB_between_messages:
  assumes "q_ptr c = Some q" and "ptcpq_inv Bytes (c_order cf) q" and "\<not> IsClosed c"
    and "send_log N (sockfd c) log"
    and "hbmsg c = ConvertByteOrder (c_order cf) \<lparr>hdr_size = 8, msg_type = HeartbeatMsg_type, ack_seq = a\<rparr>"
  shows "\<exists>c1 e1. SendHB N cf now c e = Some (ok c1, e1) \<and>
    (log e1 = log e \<or>
     send_idx q \<noteq> write_idx q \<and> (\<exists>k. log e1 = log e @ take k (blocks_bytes (c_order cf)
          (seg (unat (send_idx q)) (unat (write_idx q)) (blk q)))) \<or>
     send_idx q = write_idx q \<and> HeartBeatInverval cf \<le> now - send_time c \<and>
       (\<exists>k. log e1 = log e @ take k (header_bytes (c_order cf) (ConvertByteOrder (c_order cf)
          \<lparr>hdr_size = 8, msg_type = HeartbeatMsg_type, ack_seq = ack_seq_num q\<rparr>)) \<and>
        (k = 8 \<or> IsClosed c1)))"
proof -
  let ?E = "c_order cf" and ?c = "c\<lparr>now_time := now\<rparr>"
  have sel: "q_ptr ?c = Some q" "\<not> IsClosed ?c" "sockfd ?c = sockfd c" "hbmsg ?c = hbmsg c"
    using assms(1,3) by (simp_all add: IsClosed_def)
  show ?thesis
  proof (cases "now - send_time c < HeartBeatInverval cf")
    case True
    then show ?thesis by (simp add: SendHB_def)
  next
    case late: False
    show ?thesis
    proof (cases rule: SendPending_ok [OF sel(1) assms(2) sel(2) _ refl, of N log e])
      case 1
      then show ?case using assms(4) by simp
    next
      case (2 b c1 e1 n)
      show ?thesis
      proof (cases "send_idx q = write_idx q")
        case False
        then have "SendHB N cf now c e = Some (ok c1, e1)"
          using late 2 assms(1) by (simp add: SendHB_def)
        moreover have "seg (unat (send_idx q)) (unat (send_idx q) + n) (blk q) =
            take n (seg (unat (send_idx q)) (unat (write_idx q)) (blk q))"
          using 2(2) by (simp add: take_seg)
        then have "\<exists>k. log e1 = log e @ take k (blocks_bytes ?E (seg (unat (send_idx q)) (unat (write_idx q)) (blk q)))"
        proof -
          let ?s = "seg (unat (send_idx q)) (unat (write_idx q)) (blk q)"
          have "blocks_bytes ?E ?s = blocks_bytes ?E (take n ?s) @ blocks_bytes ?E (drop n ?s)"
            by (simp flip: blocks_bytes_append)
          then have "take (length (blocks_bytes ?E (take n ?s))) (blocks_bytes ?E ?s) = blocks_bytes ?E (take n ?s)"
            by simp
          then show ?thesis using 2(3) \<open>seg _ (_ + n) _ = take n ?s\<close> by metis
        qed
        ultimately show ?thesis using False by blast
      next
        case eq: True
        have n0: "n = 0" using 2(2) eq by simp
        define hb where "hb = header_bytes ?E (ConvertByteOrder ?E
            \<lparr>hdr_size = 8, msg_type = HeartbeatMsg_type, ack_seq = ack_seq_num q\<rparr>)"
        let ?c1 = "c1\<lparr>hbmsg := (hbmsg c1)\<lparr>ack_seq := Convert32 ?E (ptcpq_MyAck q)\<rparr>\<rparr>"
        have c1: "q_ptr c1 = Some q" "sockfd c1 = sockfd c" "log e1 = log e" "\<not> b"
          using 2 n0 eq by simp_all
        have hbc: "hbmsg c1 = hbmsg c"
          using 2(1) by (auto simp: SendPending_def Let_def split: if_splits option.splits sum.splits prod.splits)
        then have hb: "header_bytes ?E (hbmsg ?c1) = hb"
          using assms(5) by (simp add: hb_def ConvertByteOrder_def ptcpq_MyAck_def)
        have len: "length hb = 8" by (simp add: hb_def)
        obtain r e2 where S: "os_send N (sockfd c) hb e1 = (r, e2)" by fastforce
        have eqn: "SendHB N cf now c e = Some (case r of
              Inl err \<Rightarrow>
                if err = EAGAIN then (ok ?c1, e2) else (ok (pconn_Close ''Send error'' err ?c1), e2)
            | Inr sent \<Rightarrow>
                if sent \<noteq> 8 then (ok (pconn_Close ''Send error'' 0 ?c1), e2)
                else (ok (?c1\<lparr>send_time := now_time ?c1\<rparr>), e2))"
          using late 2(1) c1 assms(1) S hb
          by (simp add: SendHB_def deref_def split: sum.splits)
        show ?thesis
        proof (cases r)
          case (Inl err)
          then have "log e2 = log e" using send_logD(2) [OF assms(4)] S c1(3) by metis
          then show ?thesis using eqn Inl by auto
        next
          case (Inr n')
          then have L: "n' \<le> 8" "log e2 = log e @ take n' hb"
            using send_logD(1) [OF assms(4), of hb e1 n' e2] S c1(3) len by auto
          let ?c2 = "if n' \<noteq> 8 then pconn_Close ''Send error'' 0 ?c1 else ?c1\<lparr>send_time := now_time ?c1\<rparr>"
          have "SendHB N cf now c e = Some (ok ?c2, e2)" using eqn Inr by simp
          moreover have "n' = 8 \<or> IsClosed ?c2" by simp
          ultimately show ?thesis using L(2) eq late unfolding hb_def by (metis linorder_not_less)
        qed
      qed
    next
      case (3 c1 e1 k err)
      have "send_idx q \<noteq> write_idx q"
      proof
        assume "send_idx q = write_idx q"
        then have "SendPending N cf ?c e = Some (ok (False, ?c), e)"
          using sel by (simp add: SendPending_def ptcpq_GetSendable_def)
        then show False using 3(1,2) sel(2) by simp
      qed
      moreover have "\<exists>c2 e2. SendHB N cf now c e = Some (ok c2, e2) \<and> log e2 = log e1"
      proof -
        let ?c1 = "c1\<lparr>hbmsg := (hbmsg c1)\<lparr>ack_seq := Convert32 ?E (ptcpq_MyAck q)\<rparr>\<rparr>"
        have cl: "sockfd c1 < 0" using 3(2) by (simp add: IsClosed_def)
        obtain err' e2 where S: "os_send N (sockfd c1) (header_bytes ?E (hbmsg ?c1)) e1 = (Inl err', e2)"
            "log e2 = log e1"
          using send_logD(3) [OF assms(4) cl] by (metis surj_pair)
        then have "SendHB N cf now c e =
            Some (ok (if err' = EAGAIN then ?c1 else pconn_Close ''Send error'' err' ?c1), e2)"
          using late 3(1,3) assms(1) by (simp add: SendHB_def deref_def)
        then show ?thesis using S(2) by blast
      qed
      ultimately show ?thesis using 3(5) by metis
    qed
  qed
qed
lemma new_queue_inv: "ptcpq_inv 64 le_host (ptcpq_new (replicate 8 zero_header))"
  by (simp add: ptcpq_inv_def ptcpq_new_def live_def ptcpq_BLK_CNT_def)

theorem SendHB_between_messages_witness:
  "\<exists>c1 e1 k. SendHB (stream_os []) small_conf 3 open_conn (0, []) = Some (ok c1, e1) \<and>
     snd e1 = take k (header_bytes le_host \<lparr>hdr_size = 8, msg_type = 0, ack_seq = 0\<rparr>)"
proof -
  let ?q = "ptcpq_new (replicate 8 zero_header)"
  have sock: "sockfd open_conn = 5" "\<not> IsClosed open_conn" by (simp_all add: open_conn_def IsClosed_def)
  have log: "send_log (stream_os []) (sockfd open_conn) snd" using stream_os_send sock by simp
  have hb: "hbmsg open_conn = ConvertByteOrder (c_order small_conf)
      \<lparr>hdr_size = 8, msg_type = HeartbeatMsg_type, ack_seq = 0\<rparr>"
    by (simp add: open_conn_def small_conn_def pconn_new_def)
  have eq: "send_idx ?q = write_idx ?q" "ack_seq_num ?q = 0" by (simp_all add: ptcpq_new_def)
  have inv: "ptcpq_inv 64 (c_order small_conf) ?q" using new_queue_inv by simp
  have nil: "snd (0 :: nat, [] :: u8 list) = take 0 x" for x by simp
  from SendHB_between_messages [OF open_sel(4) inv sock(2) log hb, of 3 "(0, [])"]
  show ?thesis
    unfolding eq HeartbeatMsg_type_def small_conf_sel le_host_conv using nil
    by (metis append_Nil snd_conv take0)
qed

end
