(* ===== verification/ConnKept.thy ===== *)
theory ConnKept
  imports PTCPConn
begin

text \<open>
  What the operations of an open connection keep.  Apart from \<open>Open\<close>, \<open>TryCloseFd\<close>, \<open>Pop\<close>
  and the posting of messages, an operation changes a connection only in four ways: it works
  on the receive buffer and the times, marks the connection as closed, acknowledges messages in the
  queue or moves the send index.  A relation that allows these four holds between the
  connection before and after, for every behaviour of the system calls.
\<close>

section \<open>The contract\<close>

locale step_kept =
  fixes R :: "pconn \<Rightarrow> pconn \<Rightarrow> bool"
  assumes same: "sockfd c1 = sockfd c \<Longrightarrow> fd_to_close c1 = fd_to_close c \<Longrightarrow> q_ptr c1 = q_ptr c \<Longrightarrow> R c c1"
    and trans: "R a b \<Longrightarrow> R b c \<Longrightarrow> R a c"
    and closing: "R c (pconn_Close reason err c)"
    and acking: "q_ptr c = Some q \<Longrightarrow> ptcpq_Ack E ack q = ok q1 \<Longrightarrow> R c (c\<lparr>q_ptr := Some q1\<rparr>)"
    and sending: "q_ptr c = Some q \<Longrightarrow> R c (c\<lparr>send_time := t, q_ptr := Some (ptcpq_Sendout n q)\<rparr>)"
begin

lemma refl [simp, intro]: "R c c"
  by (rule same) simp_all

lemma before:
  "R c1 d \<Longrightarrow> sockfd c1 = sockfd c \<Longrightarrow> fd_to_close c1 = fd_to_close c \<Longrightarrow> q_ptr c1 = q_ptr c \<Longrightarrow> R c d"
  by (rule trans [OF same]) simp_all

lemma after:
  "R c c1 \<Longrightarrow> sockfd d = sockfd c1 \<Longrightarrow> fd_to_close d = fd_to_close c1 \<Longrightarrow> q_ptr d = q_ptr c1 \<Longrightarrow> R c d"
  by (rule trans [OF _ same]) simp_all

lemma closed_after: "R c c1 \<Longrightarrow> R c (pconn_Close reason err c1)"
  using closing by (rule trans [rotated])

lemma SendPending_kept: "SendPending N cf c e = Some (ok (b, c1), e1) \<Longrightarrow> R c c1"
  by (auto simp: SendPending_def Let_def intro: closing sending
      split: if_splits option.splits sum.splits prod.splits)

lemma SendHB_kept:
  assumes "SendHB N cf now c e = Some (ok c1, e1)"
  shows "R c c1"
proof -
  have sp: "R c c2" if "SendPending N cf (c\<lparr>now_time := now\<rparr>) e = Some (ok (b, c2), e2)" for b c2 e2
    using SendPending_kept [OF that] by (rule before) simp_all
  have hb: "R c d" if "(case os_send N fd bs e2 of
        (Inl err, e3) \<Rightarrow> if err = EAGAIN then (ok c2, e3) else (ok (pconn_Close ''Send error'' err c2), e3)
      | (Inr sent, e3) \<Rightarrow> if sent \<noteq> 8 then (ok (pconn_Close ''Send error'' 0 c2), e3)
          else (ok (c2\<lparr>send_time := now_time c2\<rparr>), e3)) = (ok d, e4)" "R c c2" for fd bs e2 e4 c2 d
    using that(1) closed_after [OF that(2)] after [OF that(2)] that(2)
    by (auto split: prod.splits sum.splits if_splits)
  show ?thesis
  proof (cases "now - send_time c < HeartBeatInverval cf")
    case True
    then show ?thesis using assms by (auto simp: SendHB_def intro: same)
  next
    case late: False
    show ?thesis
    proof (cases "q_ptr c")
      case None
      then show ?thesis
        using assms late by (simp add: SendHB_def Let_def) (rule hb, assumption, rule same, simp_all)
    next
      case (Some q)
      obtain b c2 e2 where sp2: "SendPending N cf (c\<lparr>now_time := now\<rparr>) e = Some (ok (b, c2), e2)"
        using assms late Some by (auto simp: SendHB_def Let_def split: option.splits sum.splits)
      show ?thesis
      proof (cases b)
        case True
        then show ?thesis using assms late Some sp2 sp [OF sp2] by (simp add: SendHB_def Let_def)
      next
        case False
        obtain q2 where "deref c2 = ok q2"
          using assms late Some sp2 False by (auto simp: SendHB_def Let_def split: sum.splits)
        then show ?thesis
          using assms late Some sp2 False
          by (simp add: SendHB_def Let_def) (rule hb, assumption, rule after [OF sp [OF sp2]], simp_all)
      qed
    qed
  qed
qed

lemma place_received_kept: "place_received cf w bs c = ok c1 \<Longrightarrow> R c c1"
  by (auto simp: place_received_def Let_def chk_bind_ok_iff intro: same split: if_splits)

lemma DoRecv_kept:
  assumes "DoRecv N cf c e = (ok (n, c1), e1)"
  shows "R c c1"
proof -
  have pl: "R c c2" if "place_received cf w bs (c0\<lparr>recv_time := t\<rparr>) = ok c2" "R c c0" for w bs c0 t c2
    using trans [OF after [OF that(2)] place_received_kept [OF that(1)]] by simp
  have z: "R c (c\<lparr>readidx := 0, nextmsg_idx := 0, writeidx := 0\<rparr>)" by (rule same) simp_all
  show ?thesis
    using assms
    by (auto simp: DoRecv_def Let_def chk_bind_ok_iff z intro: closed_after dest!: pl
        split: if_splits sum.splits prod.splits)
qed

lemma front_queued_kept:
  assumes "front_queued E c = Some (ok (r, c1))"
  shows "R c c1"
proof -
  let ?P = "\<lambda>E c x. \<forall>r c1. x = Inr (r, c1) \<longrightarrow> R c c1"
  have "?P E c (ok (r, c1))"
  proof (rule front_queued.raw_induct [where P = ?P, OF _ assms])
    fix fq E c x
    assume IH: "\<And>E c x. fq E c = Some x \<Longrightarrow> ?P E c x"
      and eq: "(if nextmsg_idx c = readidx c then Some (ok (None, c))
          else case load_at E (readidx c) c of Inl f \<Rightarrow> Some (Inl f)
          | Inr h \<Rightarrow> if msg_type h = HeartbeatMsg_type then fq E (c\<lparr>readidx := readidx c + 8\<rparr>)
              else case deref c of Inl f \<Rightarrow> Some (Inl f)
              | Inr q \<Rightarrow> if last_my_ack c = ptcpq_MyAck q then Some (ok (None, c))
                  else Some (ok (Some (readidx c), c\<lparr>last_my_ack := ptcpq_MyAck q\<rparr>))) = Some x"
    have IH1: "R c d" if "fq E (c\<lparr>readidx := i\<rparr>) = Some (Inr (r, d))" for i r d
    proof -
      have "R (c\<lparr>readidx := i\<rparr>) d" using IH [OF that] by simp
      then show ?thesis by (rule before) simp_all
    qed
    show "?P E c x"
      using eq by (auto intro: same dest!: IH1 split: if_splits sum.splits)
  qed
  then show ?thesis by simp
qed

lemma ack_queue_kept: "ack_queue E a c = ok c1 \<Longrightarrow> R c c1"
  by (auto simp: ack_queue_def deref_def chk_bind_ok_iff intro: acking split: option.splits)

lemma convert_at_kept: "convert_at E w c = ok (h, c1) \<Longrightarrow> R c c1"
  by (auto simp: convert_at_def store_at_def chk_bind_ok_iff Let_def intro: same split: if_splits)

lemma recv_loop_kept:
  assumes "recv_loop cf old c = Some (ok (b, c1))"
  shows "R c c1"
proof -
  let ?P = "\<lambda>cf old c y. \<forall>b c1. y = Inr (b, c1) \<longrightarrow> R c c1"
  have "?P cf old c (ok (b, c1))"
  proof (rule recv_loop.raw_induct [where P = ?P, OF _ assms])
    fix recv cf old c y
    assume IH: "\<And>cf old c y. recv cf old c = Some y \<Longrightarrow> ?P cf old c y"
      and eq: "(if writeidx c - nextmsg_idx c < 8 then Some (ok (True, c))
      else case convert_at (c_order cf) old c of
        Inl f \<Rightarrow> Some (Inl f)
      | Inr (h, c1) \<Rightarrow>
          (case ack_queue (c_order cf) (ack_seq h) c1 of
             Inl f \<Rightarrow> Some (Inl f)
           | Inr c2 \<Rightarrow>
               let msg_size = round8 (hdr_size h) in
               if TcpRecvBufMaxSize cf < msg_size
               then Some (ok (False, pconn_Close ''Msg size larger than recv buf max size'' 0 c2))
               else if writeidx c2 - nextmsg_idx c2 < msg_size then Some (ok (True, c2))
               else
                 let c3 = (if msg_type h = HeartbeatMsg_type \<and> readidx c2 = nextmsg_idx c2
                           then c2\<lparr>readidx := readidx c2 + msg_size\<rparr> else c2)
                 in recv cf old (c3\<lparr>nextmsg_idx := nextmsg_idx c3 + msg_size\<rparr>))) = Some y"
    show "?P cf old c y"
    proof (intro allI impI)
      fix b d
      assume y: "y = Inr (b, d)"
      show "R c d"
      proof (cases "writeidx c - nextmsg_idx c < 8")
        case True
        then show ?thesis using eq y by simp
      next
        case False
        obtain h c1 c2 where st: "convert_at (c_order cf) old c = ok (h, c1)"
            "ack_queue (c_order cf) (ack_seq h) c1 = ok c2"
          using eq y False by (auto split: sum.splits)
        have k: "R c c2"
          using convert_at_kept [OF st(1)] ack_queue_kept [OF st(2)] by (rule trans)
        have adv: "R c2 d" if "recv cf old c3 = Some (Inr (b, d))" "sockfd c3 = sockfd c2"
          "fd_to_close c3 = fd_to_close c2" "q_ptr c3 = q_ptr c2" for c3
        proof -
          have "R c3 d" using IH [OF that(1)] by simp
          then show ?thesis by (rule before) (use that in simp_all)
        qed
        have "R c2 d"
          using eq y False st closing by (auto simp: Let_def split: if_splits dest: adv)
        with k show ?thesis by (rule trans)
      qed
    qed
  qed
  then show ?thesis by simp
qed

lemma pconn_Front_kept:
  assumes "pconn_Front N cf c e = Some (ok (r, c1), e1)"
  shows "R c c1"
proof (cases "UseShm c")
  case True
  then show ?thesis
    using assms by (auto simp: pconn_Front_def chk_bind_ok_iff dest: DoRecv_kept split: prod.splits)
next
  case False
  obtain i c0 where fq: "front_queued (c_order cf) c = Some (ok (i, c0))"
    using assms False by (auto simp: pconn_Front_def split: option.splits sum.splits)
  show ?thesis
  proof (cases i)
    case (Some j)
    then show ?thesis using assms False fq front_queued_kept [OF fq] by (simp add: pconn_Front_def)
  next
    case None
    obtain n c2 e2 where rv: "DoRecv N cf c0 e = (ok (n, c2), e2)"
      using assms False fq None by (auto simp: pconn_Front_def split: prod.splits sum.splits)
    have k: "R c c2" using front_queued_kept [OF fq] DoRecv_kept [OF rv] by (rule trans)
    have lp: "R c2 d" if "recv_loop cf w (c2\<lparr>writeidx := w1\<rparr>) = Some (ok (b, d))" for w w1 b d
      using recv_loop_kept [OF that] by (rule before) simp_all
    have "R c2 c1"
      using assms False fq None rv
      by (auto simp: pconn_Front_def split: if_splits option.splits sum.splits prod.splits bool.splits dest: lp)
    with k show ?thesis by (rule trans)
  qed
qed

end

section \<open>The descriptor\<close>

text \<open>An operation keeps the descriptor or marks it as closed.\<close>

definition sock_kept :: "pconn \<Rightarrow> pconn \<Rightarrow> bool" where
  "sock_kept c c1 \<longleftrightarrow> fd_to_close c1 = fd_to_close c \<and> (sockfd c1 = sockfd c \<or> sockfd c1 < 0)"

interpretation sock: step_kept sock_kept
  by unfold_locales (auto simp: sock_kept_def)

lemmas sock_kept_refl = sock.refl
lemmas sock_kept_trans = sock.trans
lemmas sock_kept_Close [simp] = sock.closing
lemmas SendPending_sock = sock.SendPending_kept
lemmas SendHB_sock = sock.SendHB_kept
lemmas pconn_Front_sock = sock.pconn_Front_kept

section \<open>The own acknowledgement number\<close>

text \<open>Only \<open>Pop\<close> advances the number of messages consumed.\<close>

definition my_ack :: "pconn \<Rightarrow> u32 option" where
  "my_ack c = map_option ptcpq_MyAck (q_ptr c)"

definition ack_kept :: "pconn \<Rightarrow> pconn \<Rightarrow> bool" where
  "ack_kept c c1 \<longleftrightarrow> my_ack c1 = my_ack c"

lemma ack_loop_MyAck: "ptcpq_ack_loop E a q = ok q1 \<Longrightarrow> ack_seq_num q1 = ack_seq_num q"
proof (induction E a q rule: ptcpq_ack_loop.induct)
  case (1 E a q)
  then show ?case
    by (subst (asm) (2) ptcpq_ack_loop.simps) (auto simp: Let_def split: if_splits)
qed

lemma Ack_MyAck: "ptcpq_Ack E a q = ok q1 \<Longrightarrow> ack_seq_num q1 = ack_seq_num q"
  by (auto simp: ptcpq_Ack_def dest: ack_loop_MyAck split: if_splits sum.splits)

interpretation acks: step_kept ack_kept
  by unfold_locales (auto simp: ack_kept_def my_ack_def ptcpq_MyAck_def ptcpq_Sendout_def dest: Ack_MyAck)

end
