(* ===== verification/TcpShmConn.thy ===== *)
theory TcpShmConn
  imports ConnKept
begin

text \<open>
  Model of \<^verbatim>\<open>tcpshm_conn.h\<close>: the connection a user sees, which sends and receives through
  shared memory rings when they are mapped and through the TCP connection otherwise.  A
  mapped ring is kept as a value; what the peer does to it between two operations is the
  subject of the step system of the ring's theory.
\<close>

section \<open>State\<close>

record tconn =
  local_name :: string
  remote_name :: string
  ptcp_dir :: string
  ptcp_conn :: pconn
  shm_sendq :: "ring option"
  shm_recvq :: "ring option"

text \<open>
  The constructor followed by \<open>init\<close>.  The array for the remote name has \<open>NameSize\<close>
  characters; only the first is set.
\<close>

definition tconn_new :: "conf \<Rightarrow> string \<Rightarrow> tconn" where
  "tconn_new cf garbage =
     \<lparr>local_name = '''', remote_name = garbage[0 := NUL], ptcp_dir = '''', ptcp_conn = pconn_new cf,
      shm_sendq = None, shm_recvq = None\<rparr>"

definition tconn_init :: "string \<Rightarrow> string \<Rightarrow> tconn \<Rightarrow> tconn" where
  "tconn_init dir name c = c\<lparr>ptcp_dir := dir, local_name := name\<rparr>"

text \<open>A pointer to a message is a place in the ring, in the TCP queue or in the receive buffer.\<close>

datatype msg_ptr = InRing nat | InQueue u32 | InRecvBuf u32

section \<open>Operations\<close>

definition GetPtcpFile :: "tconn \<Rightarrow> string" where
  "GetPtcpFile c =
     c_str (ptcp_dir c) @ ''/'' @ c_str (local_name c) @ ''_'' @ c_str (remote_name c) @ ''.ptcp''"

definition tconn_IsClosed :: "tconn \<Rightarrow> bool" where
  "tconn_IsClosed c \<longleftrightarrow> IsClosed (ptcp_conn c)"

definition tconn_Close :: "tconn \<Rightarrow> tconn" where
  "tconn_Close c = c\<lparr>ptcp_conn := RequestClose (ptcp_conn c)\<rparr>"

definition tconn_GetCloseReason :: "tconn \<Rightarrow> string \<times> errno" where
  "tconn_GetCloseReason c = GetCloseReason (ptcp_conn c)"

definition with_pconn :: "tconn \<Rightarrow> pconn checked \<Rightarrow> tconn checked" where
  "with_pconn c r = chk_bind r (\<lambda>p. ok (c\<lparr>ptcp_conn := p\<rparr>))"

definition tconn_Alloc :: "conf \<Rightarrow> u16 \<Rightarrow> tconn \<Rightarrow> (msg_ptr option \<times> tconn) checked" where
  "tconn_Alloc cf sz c =
     (case shm_sendq c of
        Some q \<Rightarrow> (case shmq_Alloc (ShmQueueSize cf) sz q of
                     (p, q1) \<Rightarrow> ok (map_option InRing p, c\<lparr>shm_sendq := Some q1\<rparr>))
      | None \<Rightarrow> chk_bind (pconn_Alloc cf sz (ptcp_conn c))
                  (\<lambda>(p, pc). ok (map_option InQueue p, c\<lparr>ptcp_conn := pc\<rparr>)))"

definition tconn_Push :: "'e os \<Rightarrow> conf \<Rightarrow> tconn \<Rightarrow> 'e \<Rightarrow> (tconn checked \<times> 'e) option" where
  "tconn_Push N cf c e =
     (case shm_sendq c of
        Some q \<Rightarrow> Some (ok (c\<lparr>shm_sendq := Some (shmq_Push (ShmQueueSize cf) q)\<rparr>), e)
      | None \<Rightarrow> map_option (\<lambda>(r, e1). (with_pconn c r, e1)) (pconn_Push N cf (ptcp_conn c) e))"

definition tconn_PushMore :: "conf \<Rightarrow> tconn \<Rightarrow> tconn checked" where
  "tconn_PushMore cf c =
     (case shm_sendq c of
        Some q \<Rightarrow> ok (c\<lparr>shm_sendq := Some (shmq_Push (ShmQueueSize cf) q)\<rparr>)
      | None \<Rightarrow> with_pconn c (pconn_PushMore cf (ptcp_conn c)))"

definition tconn_Front ::
  "'e os \<Rightarrow> conf \<Rightarrow> tconn \<Rightarrow> 'e \<Rightarrow> ((msg_ptr option \<times> tconn) checked \<times> 'e) option"
where
  "tconn_Front N cf c e =
     (case shm_recvq c of
        Some q \<Rightarrow> (case shmq_Front (ShmQueueSize cf) q of
                     (p, q1) \<Rightarrow> Some (ok (map_option InRing p, c\<lparr>shm_recvq := Some q1\<rparr>), e))
      | None \<Rightarrow> map_option (\<lambda>(r, e1). (chk_bind r (\<lambda>(p, pc).
                  ok (map_option InRecvBuf p, c\<lparr>ptcp_conn := pc\<rparr>)), e1)) (pconn_Front N cf (ptcp_conn c) e))"

definition tconn_Pop :: "conf \<Rightarrow> tconn \<Rightarrow> tconn checked" where
  "tconn_Pop cf c =
     (case shm_recvq c of
        Some q \<Rightarrow> ok (c\<lparr>shm_recvq := Some (shmq_Pop (ShmQueueSize cf) q)\<rparr>)
      | None \<Rightarrow> with_pconn c (pconn_Pop cf (ptcp_conn c)))"

text \<open>\<open>OpenFile\<close>: the result is an error (message and \<open>errno\<close>) or nothing.\<close>

definition shm_file :: "string \<Rightarrow> string \<Rightarrow> string" where
  "shm_file a b = ''/'' @ c_str a @ ''_'' @ c_str b @ ''.shm''"

definition open_ring ::
  "'e os \<Rightarrow> conf \<Rightarrow> string \<Rightarrow> ring option \<Rightarrow> 'e \<Rightarrow> ((string \<times> errno) + ring) \<times> 'e"
where
  "open_ring N cf file r e =
     (case r of
        Some q \<Rightarrow> (Inr q, e)
      | None \<Rightarrow> my_mmap N (os_mmap_ring N) (sizeof_shmq (ShmQueueSize cf)) file True e)"

definition tconn_OpenFile ::
  "'e os \<Rightarrow> conf \<Rightarrow> bool \<Rightarrow> tconn \<Rightarrow> 'e \<Rightarrow> ((string \<times> errno) option \<times> tconn) \<times> 'e"
where
  "tconn_OpenFile N cf use_shm c e =
     (if use_shm then
        (case open_ring N cf (shm_file (local_name c) (remote_name c)) (shm_sendq c) e of
           (Inl err, e1) \<Rightarrow> ((Some err, c), e1)
         | (Inr sq, e1) \<Rightarrow>
             let c1 = c\<lparr>shm_sendq := Some sq\<rparr> in
             (case open_ring N cf (shm_file (remote_name c) (local_name c)) (shm_recvq c) e1 of
                (Inl err, e2) \<Rightarrow> ((Some err, c1), e2)
              | (Inr rq, e2) \<Rightarrow> ((None, c1\<lparr>shm_recvq := Some rq\<rparr>), e2)))
      else
        (case pconn_OpenFile N cf (GetPtcpFile c) (ptcp_conn c) e of
           ((r, pc), e1) \<Rightarrow> ((r, c\<lparr>ptcp_conn := pc\<rparr>), e1)))"

text \<open>
  \<open>GetSeq\<close> leaves the caller's variables alone when shared memory is used; they are its
  argument here, in the order acknowledgement, start and end.
\<close>

definition tconn_GetSeq ::
  "conf \<Rightarrow> u32 \<times> u32 \<times> u32 \<Rightarrow> tconn \<Rightarrow> ((string \<times> errno) + (u32 \<times> u32 \<times> u32)) checked option"
where
  "tconn_GetSeq cf vals c =
     (case shm_sendq c of
        Some _ \<Rightarrow> Some (ok (Inr vals))
      | None \<Rightarrow> map_option (\<lambda>r. chk_bind r (\<lambda>(a, s).
          ok (case s of None \<Rightarrow> Inl (''Ptcp file corrupt'', 0) | Some (x, y) \<Rightarrow> Inr (a, x, y))))
          (pconn_GetSeq cf (ptcp_conn c)))"

definition reset_ring :: "ring option \<Rightarrow> ring option checked" where
  "reset_ring r = (case r of None \<Rightarrow> Inl NullPointer | Some q \<Rightarrow> ok (Some (shmq_new (q_blk q))))"

definition tconn_Reset :: "tconn \<Rightarrow> tconn checked" where
  "tconn_Reset c =
     (if shm_sendq c \<noteq> None then
        chk_bind (reset_ring (shm_sendq c)) (\<lambda>sq.
        chk_bind (reset_ring (shm_recvq c)) (\<lambda>rq. ok (c\<lparr>shm_sendq := sq, shm_recvq := rq\<rparr>)))
      else with_pconn c (pconn_Reset (ptcp_conn c)))"

definition unmap_ring :: "'e os \<Rightarrow> ring option \<Rightarrow> 'e \<Rightarrow> 'e" where
  "unmap_ring N r e = (case r of None \<Rightarrow> e | Some q \<Rightarrow> my_munmap (os_munmap_ring N) q e)"

definition tconn_Release :: "'e os \<Rightarrow> tconn \<Rightarrow> 'e \<Rightarrow> tconn \<times> 'e" where
  "tconn_Release N c e =
     (let e1 = unmap_ring N (shm_sendq c) e;
          e2 = unmap_ring N (shm_recvq c) e1
      in case pconn_Release N (ptcp_conn c) e2 of
           (pc, e3) \<Rightarrow>
             (c\<lparr>remote_name := (remote_name c)[0 := NUL], shm_sendq := None, shm_recvq := None,
                ptcp_conn := pc\<rparr>, e3))"

definition tconn_Open ::
  "'e os \<Rightarrow> conf \<Rightarrow> fd \<Rightarrow> u32 \<Rightarrow> int \<Rightarrow> tconn \<Rightarrow> 'e \<Rightarrow> (tconn checked \<times> 'e) option"
where
  "tconn_Open N cf sock_fd remote_ack_seq now c e =
     map_option (\<lambda>(r, e1). (with_pconn c r, e1))
       (pconn_Open N cf sock_fd remote_ack_seq now (ptcp_conn c) e)"

definition tconn_TryCloseFd :: "'e os \<Rightarrow> tconn \<Rightarrow> 'e \<Rightarrow> bool \<times> tconn \<times> 'e" where
  "tconn_TryCloseFd N c e =
     (case TryCloseFd N (ptcp_conn c) e of (b, pc, e1) \<Rightarrow> (b, c\<lparr>ptcp_conn := pc\<rparr>, e1))"

definition TcpFront ::
  "'e os \<Rightarrow> conf \<Rightarrow> int \<Rightarrow> tconn \<Rightarrow> 'e \<Rightarrow> ((msg_ptr option \<times> tconn) checked \<times> 'e) option"
where
  "TcpFront N cf now c e =
     (case SendHB N cf now (ptcp_conn c) e of
        None \<Rightarrow> None
      | Some (Inl f, e1) \<Rightarrow> Some (Inl f, e1)
      | Some (Inr pc, e1) \<Rightarrow>
          map_option (\<lambda>(r, e2). (chk_bind r (\<lambda>(p, pc1).
            ok (map_option InRecvBuf p, c\<lparr>ptcp_conn := pc1\<rparr>)), e2)) (pconn_Front N cf pc e1))"

definition ShmFront :: "conf \<Rightarrow> tconn \<Rightarrow> (msg_ptr option \<times> tconn) checked" where
  "ShmFront cf c =
     (case shm_recvq c of
        None \<Rightarrow> Inl NullPointer
      | Some q \<Rightarrow> (case shmq_Front (ShmQueueSize cf) q of
                     (p, q1) \<Rightarrow> ok (map_option InRing p, c\<lparr>shm_recvq := Some q1\<rparr>)))"

section \<open>Properties\<close>

text \<open>The names of the files.\<close>

lemma c_str_id: "NUL \<notin> set a \<Longrightarrow> c_str a = a"
  using c_str_prefix [of a "[]"] by (simp add: c_str_def)

lemma c_str_Cons: "ch \<noteq> NUL \<Longrightarrow> c_str (ch # s) = ch # c_str s"
  by (simp add: c_str_def)

lemma join_inj:
  assumes "ch \<notin> set a" "ch \<notin> set b" "a @ ch # x = b @ ch # y"
  shows "a = b \<and> x = y"
  using assms
proof (induction a arbitrary: b)
  case Nil
  then show ?case by (cases b) auto
next
  case (Cons z a)
  then show ?case by (cases b) auto
qed

text \<open>
  The queue file identifies the connection when the local names contain no underscore:
  two connections in one directory with the same file have the same local and the same
  remote name.
\<close>

theorem GetPtcpFile_inj:
  assumes "GetPtcpFile a = GetPtcpFile b" and "c_str (ptcp_dir a) = c_str (ptcp_dir b)"
    and "CHR ''_'' \<notin> set (c_str (local_name a))" and "CHR ''_'' \<notin> set (c_str (local_name b))"
  shows "c_str (local_name a) = c_str (local_name b) \<and> c_str (remote_name a) = c_str (remote_name b)"
proof -
  have "c_str (local_name a) @ CHR ''_'' # (c_str (remote_name a) @ ''.ptcp'') =
      c_str (local_name b) @ CHR ''_'' # (c_str (remote_name b) @ ''.ptcp'')"
    using assms(1,2) by (simp add: GetPtcpFile_def)
  from join_inj [OF assms(3,4) this] show ?thesis by simp
qed

definition named :: "string \<Rightarrow> string \<Rightarrow> tconn" where
  "named l r = (tconn_new small_conf (replicate 16 NUL))
     \<lparr>local_name := l, remote_name := r, ptcp_dir := ''dir''\<rparr>"

theorem GetPtcpFile_inj_witness:
  "GetPtcpFile (named ''s'' ''a'') \<noteq> GetPtcpFile (named ''s'' ''b'')"
  using GetPtcpFile_inj [of "named ''s'' ''a''" "named ''s'' ''b''"]
  by (auto simp: named_def c_str_def)

text \<open>
  With underscores it does not: for all names, the connection of local name \<open>x_y\<close> and
  remote name \<open>z\<close> and the connection of \<open>x\<close> and \<open>y_z\<close> use the same queue file and
  the same shared memory files, so they corrupt each other's queues.
\<close>

theorem file_names_collide:
  "NUL \<notin> set x \<Longrightarrow> NUL \<notin> set y \<Longrightarrow> ptcp_dir a = ptcp_dir b \<Longrightarrow>
   local_name a = x @ ''_'' @ y \<Longrightarrow> remote_name a = z \<Longrightarrow>
   local_name b = x \<Longrightarrow> remote_name b = y @ ''_'' @ z \<Longrightarrow>
   GetPtcpFile a = GetPtcpFile b \<and>
   shm_file (local_name a) (remote_name a) = shm_file (local_name b) (remote_name b)"
  by (simp add: GetPtcpFile_def shm_file_def c_str_id c_str_prefix c_str_Cons)

theorem file_names_collide_witness:
  "GetPtcpFile (named ''server_1'' ''bob'') = GetPtcpFile (named ''server'' ''1_bob'')"
  using file_names_collide [of "''server''" "''1''" "named ''server_1'' ''bob''" "named ''server'' ''1_bob''" "''bob''"]
  by (simp add: named_def)

text \<open>
  Opening the files is idempotent: after a successful \<open>OpenFile\<close> another one for the
  same transport makes no system call and changes nothing, so a reconnect keeps the mapped
  queues and what they hold.
\<close>

theorem OpenFile_idempotent:
  assumes "tconn_OpenFile N cf use_shm c e = ((None, c1), e1)"
  shows "tconn_OpenFile N cf use_shm c1 e2 = ((None, c1), e2)"
  using assms
  by (auto simp: tconn_OpenFile_def open_ring_def pconn_OpenFile_def Let_def
      split: if_splits option.splits sum.splits prod.splits)

definition file_os :: "nat os" where
  "file_os = no_os
     \<lparr>os_open := \<lambda>f n. (Inr 7, Suc n), os_shm_open := \<lambda>f n. (Inr 7, Suc n),
      os_ftruncate := \<lambda>fd len n. (Inr (), n),
      os_mmap_ptcp := \<lambda>fd len n. (Inr (ptcpq_new (replicate 8 zero_header)), n),
      os_mmap_ring := \<lambda>fd len n. (Inr (shmq_new (replicate 4 \<lparr>header = zero_header, rest = replicate 56 0\<rparr>)), n)\<rparr>"

definition ring_conn :: tconn where
  "ring_conn = snd (fst (tconn_OpenFile file_os small_conf True (named ''s'' ''c'') 0))"

lemma ring_conn_open:
  "tconn_OpenFile file_os small_conf True (named ''s'' ''c'') 0 = ((None, ring_conn), 2)"
  by (simp add: ring_conn_def tconn_OpenFile_def open_ring_def my_mmap_def file_os_def no_os_def named_def
      tconn_new_def Let_def numeral_2_eq_2)

theorem OpenFile_idempotent_witness:
  "tconn_OpenFile file_os small_conf True ring_conn 5 = ((None, ring_conn), 5)"
  by (rule OpenFile_idempotent [OF ring_conn_open])

text \<open>
  C39. The transport sticks: a connection that once used shared memory and was not released
  keeps sending through the ring after \<open>OpenFile\<close> for TCP has succeeded, and \<open>GetSeq\<close>
  skips the check of the TCP queue file and reports the caller's initial values.
\<close>

theorem transport_sticks:
  assumes "shm_sendq c = Some q" and "tconn_OpenFile N cf False c e = ((None, c1), e1)"
  shows "q_ptr (ptcp_conn c1) \<noteq> None \<and> \<not> UseShm (ptcp_conn c1) \<and>
    tconn_Alloc cf sz c1 = (case shmq_Alloc (ShmQueueSize cf) sz q of
      (p, q1) \<Rightarrow> ok (map_option InRing p, c1\<lparr>shm_sendq := Some q1\<rparr>)) \<and>
    tconn_GetSeq cf vals c1 = Some (ok (Inr vals))"
proof -
  obtain pc where pc: "pconn_OpenFile N cf (GetPtcpFile c) (ptcp_conn c) e = ((None, pc), e1)"
      and c1: "c1 = c\<lparr>ptcp_conn := pc\<rparr>"
    using assms(2) by (auto simp: tconn_OpenFile_def split: prod.splits)
  have "q_ptr pc \<noteq> None"
    using pc by (auto simp: pconn_OpenFile_def split: if_splits sum.splits prod.splits)
  then show ?thesis
    using assms(1) by (simp add: c1 UseShm_def tconn_Alloc_def tconn_GetSeq_def)
qed

theorem transport_sticks_witness:
  "\<exists>c1 e1. tconn_OpenFile file_os small_conf False ring_conn 2 = ((None, c1), e1) \<and>
     tconn_GetSeq small_conf (0, 0, 0) c1 = Some (ok (Inr (0, 0, 0)))"
proof -
  obtain q where q: "shm_sendq ring_conn = Some q"
    by (simp add: ring_conn_def tconn_OpenFile_def open_ring_def my_mmap_def file_os_def no_os_def named_def
        tconn_new_def Let_def)
  have o: "\<exists>c1 e1. tconn_OpenFile file_os small_conf False ring_conn 2 = ((None, c1), e1)"
    by (cases "q_ptr (ptcp_conn ring_conn)")
       (simp_all add: tconn_OpenFile_def pconn_OpenFile_def my_mmap_def file_os_def no_os_def)
  then obtain c1 e1 where o: "tconn_OpenFile file_os small_conf False ring_conn 2 = ((None, c1), e1)" by blast
  from transport_sticks [OF q o] o show ?thesis by blast
qed

text \<open>
  \<open>Release\<close> leaves nothing behind: the connection is closed, its descriptor is closed,
  both rings and the queue are unmapped, and the name is empty, so the place can be given
  to another peer.
\<close>

theorem Release_clean:
  assumes "tconn_Release N c e = (c1, e1)" and "remote_name c \<noteq> []"
  shows "tconn_IsClosed c1 \<and> fd_to_close (ptcp_conn c1) < 0 \<and> q_ptr (ptcp_conn c1) = None \<and>
    shm_sendq c1 = None \<and> shm_recvq c1 = None \<and> c_str (remote_name c1) = [] \<and>
    length (remote_name c1) = length (remote_name c) \<and> local_name c1 = local_name c"
  using assms
  by (cases "remote_name c"; cases "fd_to_close (ptcp_conn c) < 0")
     (auto simp: tconn_Release_def pconn_Release_def TryCloseFd_def pconn_Close_def tconn_IsClosed_def
       IsClosed_def c_str_def Let_def split: if_splits option.splits)

theorem Release_clean_witness:
  "tconn_IsClosed (fst (tconn_Release file_os ring_conn 2)) \<and>
     shm_sendq (fst (tconn_Release file_os ring_conn 2)) = None"
proof -
  have "remote_name ring_conn \<noteq> []"
    by (simp add: ring_conn_def tconn_OpenFile_def open_ring_def my_mmap_def file_os_def no_os_def named_def
        tconn_new_def Let_def)
  then show ?thesis
    using Release_clean [of file_os ring_conn 2 "fst (tconn_Release file_os ring_conn 2)"
      "snd (tconn_Release file_os ring_conn 2)"] by simp
qed

section \<open>What the operations keep\<close>

text \<open>The connection as a whole keeps its descriptor or marks it as closed, and its names.\<close>

definition conn_kept :: "tconn \<Rightarrow> tconn \<Rightarrow> bool" where
  "conn_kept c c1 \<longleftrightarrow>
     local_name c1 = local_name c \<and> remote_name c1 = remote_name c \<and> ptcp_dir c1 = ptcp_dir c \<and>
     sock_kept (ptcp_conn c) (ptcp_conn c1)"

lemma conn_kept_refl [simp, intro]: "conn_kept c c"
  by (simp add: conn_kept_def)

lemma conn_kept_trans: "conn_kept a b \<Longrightarrow> conn_kept b c \<Longrightarrow> conn_kept a c"
  by (auto simp: conn_kept_def intro: sock_kept_trans)

lemma TcpFront_kept:
  assumes "TcpFront N cf now c e = Some (ok (r, c1), e1)"
  shows "conn_kept c c1"
proof -
  obtain p e2 where hb: "SendHB N cf now (ptcp_conn c) e = Some (ok p, e2)"
    using assms by (auto simp: TcpFront_def split: option.splits sum.splits)
  obtain p1 pc1 where fr: "pconn_Front N cf p e2 = Some (ok (p1, pc1), e1)" and c1: "c1 = c\<lparr>ptcp_conn := pc1\<rparr>"
    using assms hb by (auto simp: TcpFront_def chk_bind_ok_iff)
  show ?thesis
    using sock_kept_trans [OF SendHB_sock [OF hb] pconn_Front_sock [OF fr]] by (simp add: c1 conn_kept_def)
qed

lemma ShmFront_kept: "ShmFront cf c = ok (r, c1) \<Longrightarrow> conn_kept c c1"
  by (auto simp: ShmFront_def conn_kept_def split: option.splits prod.splits)

lemma OpenFile_kept:
  assumes "tconn_OpenFile N cf shm c e = ((r, c1), e1)"
  shows "conn_kept c c1"
  using assms
  by (auto simp: tconn_OpenFile_def open_ring_def pconn_OpenFile_def conn_kept_def sock_kept_def Let_def
      split: if_splits option.splits sum.splits prod.splits)

lemma Reset_kept: "tconn_Reset c = ok c1 \<Longrightarrow> conn_kept c c1"
  by (auto simp: tconn_Reset_def with_pconn_def pconn_Reset_def conn_kept_def sock_kept_def chk_bind_ok_iff
      split: if_splits)

lemma Open_sock:
  assumes "tconn_Open N cf fd ack now c e = Some (ok c1, e1)"
  shows "local_name c1 = local_name c" "remote_name c1 = remote_name c" "fd_to_close (ptcp_conn c1) = fd"
    "sockfd (ptcp_conn c1) = fd \<or> sockfd (ptcp_conn c1) < 0"
proof -
  obtain p where c1: "c1 = c\<lparr>ptcp_conn := p\<rparr>" and p: "pconn_Open N cf fd ack now (ptcp_conn c) e = Some (ok p, e1)"
    using assms by (auto simp: tconn_Open_def with_pconn_def chk_bind_ok_iff)
  show "local_name c1 = local_name c" "remote_name c1 = remote_name c" by (simp_all add: c1)
  have sp: "fd_to_close d = fd \<and> (sockfd d = fd \<or> sockfd d < 0)"
    if "SendPending N cf (x\<lparr>sockfd := fd, fd_to_close := fd, writeidx := 0, readidx := 0,
                 nextmsg_idx := 0, recv_time := now, send_time := now, now_time := now, q_ptr := q\<rparr>) e = Some (ok (b, d), e2)"
    for x q b d e2
    using SendPending_sock [OF that] by (simp add: sock_kept_def)
  have "fd_to_close p = fd \<and> (sockfd p = fd \<or> sockfd p < 0)"
    using p by (auto simp: pconn_Open_def Let_def chk_bind_ok_iff dest!: sp split: option.splits sum.splits if_splits)
  then show "fd_to_close (ptcp_conn c1) = fd" "sockfd (ptcp_conn c1) = fd \<or> sockfd (ptcp_conn c1) < 0"
    by (simp_all add: c1)
qed

lemma TryCloseFd_cases:
  assumes "tconn_TryCloseFd N c e = (b, c1, e1)"
  shows "local_name c1 = local_name c" "remote_name c1 = remote_name c" "sockfd (ptcp_conn c1) = sockfd (ptcp_conn c)"
    "b \<longleftrightarrow> sockfd (ptcp_conn c) < 0 \<and> 0 \<le> fd_to_close (ptcp_conn c)"
    "b \<Longrightarrow> fd_to_close (ptcp_conn c1) = -1 \<and> e1 = os_close N (fd_to_close (ptcp_conn c)) e"
    "\<not> b \<Longrightarrow> c1 = c \<and> e1 = e"
  using assms by (auto simp: tconn_TryCloseFd_def TryCloseFd_def split: if_splits)

end
