(* ===== verification/Login.thy ===== *)
theory Login
  imports TcpShmConn
begin

text \<open>
  The two messages of the login, \<open>LoginMsgTpl\<close> and \<open>LoginRspMsgTpl\<close> of
  \<^verbatim>\<open>ptcp_conn.h\<close>: their fields, their layout in memory and the conversion of their byte
  order.  The user data of both is a sequence of bytes of a configured length (its type is a
  template argument; it is taken to have at most the alignment of the sequence numbers).
\<close>

section \<open>The structs\<close>

record login_msg =
  client_seq_start :: u32
  client_seq_end :: u32
  login_user_data :: "u8 list"
  use_shm :: u8
  client_name :: string
  last_server_name :: string

record login_rsp =
  server_seq_start :: u32
  server_seq_end :: u32
  rsp_user_data :: "u8 list"
  status :: u8
  server_name :: string
  error_msg :: string

definition LoginMsg_type :: u16 where
  "LoginMsg_type = 1"

definition LoginRspMsg_type :: u16 where
  "LoginRspMsg_type = 2"

definition LoginMsg_ConvertByteOrder :: "byte_order \<Rightarrow> login_msg \<Rightarrow> login_msg" where
  "LoginMsg_ConvertByteOrder E m =
     m\<lparr>client_seq_start := Convert32 E (client_seq_start m),
       client_seq_end := Convert32 E (client_seq_end m)\<rparr>"

definition LoginRspMsg_ConvertByteOrder :: "byte_order \<Rightarrow> login_rsp \<Rightarrow> login_rsp" where
  "LoginRspMsg_ConvertByteOrder E m =
     m\<lparr>server_seq_start := Convert32 E (server_seq_start m),
       server_seq_end := Convert32 E (server_seq_end m)\<rparr>"

interpretation login_conv: involution "LoginMsg_ConvertByteOrder E" for E
  by unfold_locales (simp add: LoginMsg_ConvertByteOrder_def conv32.conv_conv)

interpretation rsp_conv: involution "LoginRspMsg_ConvertByteOrder E" for E
  by unfold_locales (simp add: LoginRspMsg_ConvertByteOrder_def conv32.conv_conv)

section \<open>Layout\<close>

text \<open>
  \<open>U\<close> is the size of the user data and \<open>n\<close> the size of a name.  A struct is padded to a
  multiple of four bytes, the buffer it is sent from to a multiple of eight.
\<close>

definition round_to :: "nat \<Rightarrow> nat \<Rightarrow> nat" where
  "round_to k x = (x + (k - 1)) div k * k"

definition sizeof_LoginMsg :: "nat \<Rightarrow> nat \<Rightarrow> nat" where
  "sizeof_LoginMsg U n = round_to 4 (8 + U + 1 + 2 * n)"

definition sizeof_LoginRspMsg :: "nat \<Rightarrow> nat \<Rightarrow> nat" where
  "sizeof_LoginRspMsg U n = round_to 4 (8 + U + 1 + n + 32)"

definition sizeof_buf :: "nat \<Rightarrow> nat" where
  "sizeof_buf struct = 8 * (1 + (struct + 7) div 8)"

definition byte_of :: "char \<Rightarrow> u8" where
  "byte_of ch = of_char ch"

definition chr_of :: "u8 \<Rightarrow> char" where
  "chr_of b = char_of (unat b)"

definition store_login :: "byte_order \<Rightarrow> login_msg \<Rightarrow> u8 list" where
  "store_login E m =
     mem32 E (client_seq_start m) @ mem32 E (client_seq_end m) @ login_user_data m @ [use_shm m] @
     map byte_of (client_name m) @ map byte_of (last_server_name m)"

definition load_login :: "byte_order \<Rightarrow> nat \<Rightarrow> nat \<Rightarrow> u8 list \<Rightarrow> login_msg" where
  "load_login E U n bs =
     \<lparr>client_seq_start = load32 E (take 4 bs), client_seq_end = load32 E (take 4 (drop 4 bs)),
      login_user_data = take U (drop 8 bs), use_shm = bs ! (8 + U),
      client_name = map chr_of (take n (drop (9 + U) bs)),
      last_server_name = map chr_of (take n (drop (9 + U + n) bs))\<rparr>"

definition store_rsp :: "byte_order \<Rightarrow> login_rsp \<Rightarrow> u8 list" where
  "store_rsp E m =
     mem32 E (server_seq_start m) @ mem32 E (server_seq_end m) @ rsp_user_data m @ [status m] @
     map byte_of (server_name m) @ map byte_of (error_msg m)"

definition load_rsp :: "byte_order \<Rightarrow> nat \<Rightarrow> nat \<Rightarrow> u8 list \<Rightarrow> login_rsp" where
  "load_rsp E U n bs =
     \<lparr>server_seq_start = load32 E (take 4 bs), server_seq_end = load32 E (take 4 (drop 4 bs)),
      rsp_user_data = take U (drop 8 bs), status = bs ! (8 + U),
      server_name = map chr_of (take n (drop (9 + U) bs)),
      error_msg = map chr_of (take 32 (drop (9 + U + n) bs))\<rparr>"

text \<open>The bytes sent: the header, the struct, and whatever the rest of the buffer holds.\<close>

definition login_buf :: "byte_order \<Rightarrow> msg_header \<Rightarrow> u8 list \<Rightarrow> u8 list \<Rightarrow> nat \<Rightarrow> u8 list" where
  "login_buf E h body junk len = take len (header_bytes E h @ body @ junk @ replicate len 0)"

definition login_wf :: "nat \<Rightarrow> nat \<Rightarrow> login_msg \<Rightarrow> bool" where
  "login_wf U n m \<longleftrightarrow>
     length (login_user_data m) = U \<and> length (client_name m) = n \<and> length (last_server_name m) = n"

definition rsp_wf :: "nat \<Rightarrow> nat \<Rightarrow> login_rsp \<Rightarrow> bool" where
  "rsp_wf U n m \<longleftrightarrow>
     length (rsp_user_data m) = U \<and> length (server_name m) = n \<and> length (error_msg m) = 32"

lemma chr_byte [simp]: "chr_of (byte_of ch) = ch"
proof -
  have c: "(of_char ch :: nat) < 256" by (metis mod_less_divisor of_char_mod_256 zero_less_numeral)
  have "(of_char ch :: u8) = of_nat (of_char ch)" by (rule of_nat_of_char [symmetric])
  then have "unat (of_char ch :: u8) = of_char ch"
    using c by (simp only: unat_of_nat) simp
  then show ?thesis by (simp add: chr_of_def byte_of_def)
qed

lemma map_chr_byte [simp]: "map chr_of (map byte_of s) = s"
  by (simp add: map_idI)

lemma chr_comp_byte [simp]: "chr_of \<circ> byte_of = id"
  by (simp add: fun_eq_iff)

lemma drop_append_exact: "length a = k \<Longrightarrow> drop k (a @ b) = b"
  by simp

lemma take_append_exact: "length a = k \<Longrightarrow> take k (a @ b) = a"
  by simp

lemma load_store_login:
  assumes "login_wf U n m"
  shows "load_login E U n (store_login E m @ tail0) = m"
proof -
  let ?s = "mem32 E (client_seq_start m)" and ?e = "mem32 E (client_seq_end m)" and ?u = "login_user_data m"
    and ?c = "map byte_of (client_name m)" and ?l = "map byte_of (last_server_name m)"
  have len: "length ?s = 4" "length ?e = 4" "length ?u = U" "length ?c = n" "length ?l = n"
    using assms by (simp_all add: login_wf_def)
  have bs: "store_login E m @ tail0 = ?s @ ?e @ ?u @ use_shm m # ?c @ ?l @ tail0"
    by (simp add: store_login_def)
  have d4: "drop 4 (store_login E m @ tail0) = ?e @ ?u @ use_shm m # ?c @ ?l @ tail0"
    unfolding bs using len by simp
  then have d8: "drop 8 (store_login E m @ tail0) = ?u @ use_shm m # ?c @ ?l @ tail0"
    using len drop_drop [of 4 4 "store_login E m @ tail0"] by simp
  then have d8u: "drop (8 + U) (store_login E m @ tail0) = use_shm m # ?c @ ?l @ tail0"
    using len drop_drop [of U 8 "store_login E m @ tail0"] by (simp add: add.commute)
  then have d9: "drop (9 + U) (store_login E m @ tail0) = ?c @ ?l @ tail0"
    using drop_drop [of 1 "8 + U" "store_login E m @ tail0"] by simp
  then have d9n: "drop (9 + U + n) (store_login E m @ tail0) = ?l @ tail0"
    using len drop_drop [of n "9 + U" "store_login E m @ tail0"] by (simp add: add.commute)
  have "8 + U < length (store_login E m @ tail0)" unfolding bs using len by simp
  then have nth: "(store_login E m @ tail0) ! (8 + U) = use_shm m"
    using d8u Cons_nth_drop_Suc [of "8 + U" "store_login E m @ tail0"] by simp
  have t4: "take 4 (store_login E m @ tail0) = ?s" unfolding bs using len by simp
  show ?thesis
    unfolding load_login_def d4 d8 d9 d9n nth t4 using len by simp
qed

lemma load_store_rsp:
  assumes "rsp_wf U n m"
  shows "load_rsp E U n (store_rsp E m @ tail0) = m"
proof -
  let ?s = "mem32 E (server_seq_start m)" and ?e = "mem32 E (server_seq_end m)" and ?u = "rsp_user_data m"
    and ?c = "map byte_of (server_name m)" and ?l = "map byte_of (error_msg m)"
  have len: "length ?s = 4" "length ?e = 4" "length ?u = U" "length ?c = n" "length ?l = 32"
    using assms by (simp_all add: rsp_wf_def)
  have bs: "store_rsp E m @ tail0 = ?s @ ?e @ ?u @ status m # ?c @ ?l @ tail0"
    by (simp add: store_rsp_def)
  have d4: "drop 4 (store_rsp E m @ tail0) = ?e @ ?u @ status m # ?c @ ?l @ tail0"
    unfolding bs using len by simp
  then have d8: "drop 8 (store_rsp E m @ tail0) = ?u @ status m # ?c @ ?l @ tail0"
    using len drop_drop [of 4 4 "store_rsp E m @ tail0"] by simp
  then have d8u: "drop (8 + U) (store_rsp E m @ tail0) = status m # ?c @ ?l @ tail0"
    using len drop_drop [of U 8 "store_rsp E m @ tail0"] by (simp add: add.commute)
  then have d9: "drop (9 + U) (store_rsp E m @ tail0) = ?c @ ?l @ tail0"
    using drop_drop [of 1 "8 + U" "store_rsp E m @ tail0"] by simp
  then have d9n: "drop (9 + U + n) (store_rsp E m @ tail0) = ?l @ tail0"
    using len drop_drop [of n "9 + U" "store_rsp E m @ tail0"] by (simp add: add.commute)
  have "8 + U < length (store_rsp E m @ tail0)" unfolding bs using len by simp
  then have nth: "(store_rsp E m @ tail0) ! (8 + U) = status m"
    using d8u Cons_nth_drop_Suc [of "8 + U" "store_rsp E m @ tail0"] by simp
  have t4: "take 4 (store_rsp E m @ tail0) = ?s" unfolding bs using len by simp
  show ?thesis
    unfolding load_rsp_def d4 d8 d9 d9n nth t4 using len by simp
qed

section \<open>Between two hosts\<close>

text \<open>What a host stores after its conversion does not depend on the host.\<close>

lemma store_login_wire:
  "store_login E (LoginMsg_ConvertByteOrder E m) = store_login (wire_order E) m"
  by (simp add: store_login_def LoginMsg_ConvertByteOrder_def mem32_Convert32)

lemma store_rsp_wire:
  "store_rsp E (LoginRspMsg_ConvertByteOrder E m) = store_rsp (wire_order E) m"
  by (simp add: store_rsp_def LoginRspMsg_ConvertByteOrder_def mem32_Convert32)

text \<open>
  The login survives the wire: for hosts of any byte order that agree on
  \<open>ToLittleEndian\<close>, the server decodes from the buffer exactly the header and the login
  message the client put in, and the client exactly the response of the server.
\<close>

theorem login_wire_roundtrip:
  assumes "ToLittle A = ToLittle B" and "login_wf U n m" and "rsp_wf V n r"
  shows "(let buf = header_bytes A (ConvertByteOrder A h) @ store_login A (LoginMsg_ConvertByteOrder A m) @ junk
          in ConvertByteOrder B (load_header B buf) = h \<and>
             LoginMsg_ConvertByteOrder B (load_login B U n (drop 8 buf)) = m)
    \<and> (let buf = header_bytes B (ConvertByteOrder B h) @ store_rsp B (LoginRspMsg_ConvertByteOrder B r) @ junk
       in ConvertByteOrder A (load_header A buf) = h \<and>
          LoginRspMsg_ConvertByteOrder A (load_rsp A V n (drop 8 buf)) = r)"
proof -
  have w: "wire_order A = wire_order B" using assms(1) by (simp add: wire_order_def)
  have m: "store_login A (LoginMsg_ConvertByteOrder A m) = store_login B (LoginMsg_ConvertByteOrder B m)"
    and r: "store_rsp B (LoginRspMsg_ConvertByteOrder B r) = store_rsp A (LoginRspMsg_ConvertByteOrder A r)"
    by (simp_all add: store_login_wire store_rsp_wire w)
  have wf: "login_wf U n (LoginMsg_ConvertByteOrder B m)" "rsp_wf V n (LoginRspMsg_ConvertByteOrder A r)"
    using assms(2,3) by (simp_all add: login_wf_def rsp_wf_def LoginMsg_ConvertByteOrder_def LoginRspMsg_ConvertByteOrder_def)
  show ?thesis
    unfolding Let_def m r
    using load_header_wire [OF assms(1)] load_header_wire [OF assms(1) [symmetric]]
      load_store_login [OF wf(1)] load_store_rsp [OF wf(2)]
    by (simp add: login_conv.conv_conv rsp_conv.conv_conv)
qed

definition sample_login :: login_msg where
  "sample_login = \<lparr>client_seq_start = 3, client_seq_end = 5, login_user_data = [7], use_shm = 0,
     client_name = ''bob'' @ replicate 13 NUL, last_server_name = ''srv'' @ replicate 13 NUL\<rparr>"

definition sample_rsp :: login_rsp where
  "sample_rsp = \<lparr>server_seq_start = 1, server_seq_end = 2, rsp_user_data = [9], status = 0,
     server_name = ''srv'' @ replicate 13 NUL, error_msg = replicate 32 NUL\<rparr>"

theorem login_wire_roundtrip_witness:
  "LoginMsg_ConvertByteOrder le_host (load_login le_host 1 16 (store_login \<lparr>ToLittle = True, is_little_endian = False\<rparr>
     (LoginMsg_ConvertByteOrder \<lparr>ToLittle = True, is_little_endian = False\<rparr> sample_login) @ [1, 2])) = sample_login"
  using login_wire_roundtrip [of "\<lparr>ToLittle = True, is_little_endian = False\<rparr>" le_host 1 16 sample_login 1 sample_rsp
      zero_header "[1, 2]"]
  by (simp add: le_host_def login_wf_def rsp_wf_def sample_login_def sample_rsp_def Let_def)

end
