(* ===== verification/TcpShmServer.thy ===== *)
theory TcpShmServer
  imports Login
begin

text \<open>
  Model of \<^verbatim>\<open>tcpshm_server.h\<close>: listening, the table of connections that have not logged in
  yet, the login, the connection groups and their polling.  A pointer to a connection is its
  index in the pool.  The callbacks that only inform the user are recorded as events; the two
  that take part (\<open>OnNewConnection\<close>, \<open>OnClientMsg\<close>) are parameters.  Each operation is one
  step; the serving threads and the control thread are not interleaved inside an operation.
\<close>

section \<open>Configuration and state\<close>

record sconf =
  s_conf :: conf
  MaxNewConnections :: nat
  MaxShmConnsPerGrp :: nat
  MaxShmGrps :: nat
  MaxTcpConnsPerGrp :: nat
  MaxTcpGrps :: nat
  NewConnectionTimeout :: int
  UserDataSize :: nat
  RspUserDataSize :: nat

record new_conn =
  nc_time :: int
  nc_fd :: fd
  nc_addr :: string

record grp =
  live_cnt :: nat
  conns :: "nat list"

datatype event =
    OnSystemError string errno
  | OnClientFileError nat string errno
  | OnSeqNumberMismatch nat "u32 \<times> u32 \<times> u32" "u32 \<times> u32 \<times> u32"
  | OnClientLogon string nat
  | OnClientDisconnected nat string errno

record server =
  srv_name :: string
  srv_dir :: string
  listenfd :: fd
  new_conns :: "new_conn list"
  avail_idx :: nat
  conn_pool :: "tconn list"
  shm_grps :: "grp list"
  tcp_grps :: "grp list"
  events :: "event list"

record 'e server_app =
  OnNewConnection :: "string \<Rightarrow> login_msg \<Rightarrow> login_rsp \<Rightarrow> 'e \<Rightarrow> (int \<times> login_rsp) \<times> 'e"
  OnClientMsg :: "msg_ptr \<Rightarrow> tconn \<Rightarrow> 'e \<Rightarrow> (tconn checked \<times> 'e) option"

text \<open>What the response buffer on the stack holds before it is filled in.\<close>

record stack_junk =
  junk_ack :: u32
  junk_rsp :: login_rsp
  junk_pad :: "u8 list"

definition emit :: "event \<Rightarrow> server \<Rightarrow> server" where
  "emit ev srv = srv\<lparr>events := events srv @ [ev]\<rparr>"

definition set_conn :: "nat \<Rightarrow> tconn \<Rightarrow> server \<Rightarrow> server" where
  "set_conn k c srv = srv\<lparr>conn_pool := (conn_pool srv)[k := c]\<rparr>"

definition grps_of :: "bool \<Rightarrow> server \<Rightarrow> grp list" where
  "grps_of shm srv = (if shm then shm_grps srv else tcp_grps srv)"

definition set_grp :: "bool \<Rightarrow> nat \<Rightarrow> grp \<Rightarrow> server \<Rightarrow> server" where
  "set_grp shm g G srv =
     (if shm then srv\<lparr>shm_grps := (shm_grps srv)[g := G]\<rparr>
      else srv\<lparr>tcp_grps := (tcp_grps srv)[g := G]\<rparr>)"

text \<open>\<open>std::swap\<close> of two elements of an array.\<close>

definition swap :: "'a list \<Rightarrow> nat \<Rightarrow> nat \<Rightarrow> 'a list" where
  "swap xs i j = xs[i := xs ! j, j := xs ! i]"

section \<open>Construction, start and stop\<close>

text \<open>The constructor gives the connections of the pool to the groups in order.\<close>

definition make_grps :: "nat \<Rightarrow> nat \<Rightarrow> nat \<Rightarrow> grp list" where
  "make_grps first count per =
     map (\<lambda>g. \<lparr>live_cnt = 0, conns = [first + g * per ..< first + Suc g * per]\<rparr>) [0 ..< count]"

definition server_new :: "sconf \<Rightarrow> string \<Rightarrow> string \<Rightarrow> string \<Rightarrow> server" where
  "server_new S name dir garbage =
     (let n = NameSize (s_conf S);
          srv = (strncpy (replicate n NUL) name (n - 1))[n - 1 := NUL];
          shm_total = MaxShmConnsPerGrp S * MaxShmGrps S
      in \<lparr>srv_name = srv, srv_dir = dir, listenfd = -1,
          new_conns = replicate (MaxNewConnections S) \<lparr>nc_time = 0, nc_fd = -1, nc_addr = ''''\<rparr>,
          avail_idx = 0,
          conn_pool = replicate (shm_total + MaxTcpConnsPerGrp S * MaxTcpGrps S)
            (tconn_init dir srv (tconn_new (s_conf S) garbage)),
          shm_grps = make_grps 0 (MaxShmGrps S) (MaxShmConnsPerGrp S),
          tcp_grps = make_grps shm_total (MaxTcpGrps S) (MaxTcpConnsPerGrp S),
          events = []\<rparr>)"

definition Start :: "'e os \<Rightarrow> sconf \<Rightarrow> string \<Rightarrow> u16 \<Rightarrow> server \<Rightarrow> 'e \<Rightarrow> (bool \<times> server) \<times> 'e" where
  "Start N S listen_ipv4 listen_port srv e =
     (if 0 \<le> listenfd srv then ((False, emit (OnSystemError ''already started'' 0) srv), e)
      else case os_socket N e of
        (Inl err, e1) \<Rightarrow> ((False, emit (OnSystemError ''socket'' err) (srv\<lparr>listenfd := -1\<rparr>)), e1)
      | (Inr fd, e1) \<Rightarrow>
          let srv = srv\<lparr>listenfd := fd\<rparr>; e2 = os_nonblock N fd e1 in
          (case os_setsockopt N fd ''SO_REUSEADDR'' e2 of
             (Inl err, e3) \<Rightarrow> ((False, emit (OnSystemError ''setsockopt SO_REUSEADDR'' err) srv), e3)
           | (Inr _, e3) \<Rightarrow>
               (case (if TcpNoDelay (s_conf S) then os_setsockopt N fd ''TCP_NODELAY'' e3 else (Inr (), e3)) of
                  (Inl err, e4) \<Rightarrow> ((False, emit (OnSystemError ''setsockopt TCP_NODELAY'' err) srv), e4)
                | (Inr _, e4) \<Rightarrow>
                    (case os_bind N fd listen_ipv4 listen_port e4 of
                       (Inl err, e5) \<Rightarrow> ((False, emit (OnSystemError ''bind'' err) srv), e5)
                     | (Inr _, e5) \<Rightarrow>
                         (case os_listen N fd e5 of
                            (Inl err, e6) \<Rightarrow> ((False, emit (OnSystemError ''listen'' err) srv), e6)
                          | (Inr _, e6) \<Rightarrow> ((True, srv), e6))))))"

fun close_new :: "'e os \<Rightarrow> new_conn list \<Rightarrow> 'e \<Rightarrow> new_conn list \<times> 'e" where
  "close_new N [] e = ([], e)"
| "close_new N (c # cs) e =
     (let (c1, e1) = (if 0 \<le> nc_fd c then (c\<lparr>nc_fd := -1\<rparr>, os_close N (nc_fd c) e) else (c, e));
          (cs1, e2) = close_new N cs e1
      in (c1 # cs1, e2))"

fun release_conns :: "'e os \<Rightarrow> nat list \<Rightarrow> tconn list \<Rightarrow> 'e \<Rightarrow> tconn list \<times> 'e" where
  "release_conns N [] pool e = (pool, e)"
| "release_conns N (k # ks) pool e =
     (let (c, e1) = tconn_Release N (pool ! k) e in release_conns N ks (pool[k := c]) e1)"

fun release_grps :: "'e os \<Rightarrow> grp list \<Rightarrow> tconn list \<Rightarrow> 'e \<Rightarrow> grp list \<times> tconn list \<times> 'e" where
  "release_grps N [] pool e = ([], pool, e)"
| "release_grps N (g # gs) pool e =
     (let (pool1, e1) = release_conns N (conns g) pool e;
          (gs1, pool2, e2) = release_grps N gs pool1 e1
      in (g\<lparr>live_cnt := 0\<rparr> # gs1, pool2, e2))"

definition Stop :: "'e os \<Rightarrow> server \<Rightarrow> 'e \<Rightarrow> server \<times> 'e" where
  "Stop N srv e =
     (if listenfd srv < 0 then (srv, e)
      else
        let e1 = os_close N (listenfd srv) e;
            (ncs, e2) = close_new N (new_conns srv) e1;
            (sg, pool1, e3) = release_grps N (shm_grps srv) (conn_pool srv) e2;
            (tg, pool2, e4) = release_grps N (tcp_grps srv) pool1 e3
        in (srv\<lparr>listenfd := -1, new_conns := ncs, avail_idx := 0, shm_grps := sg, tcp_grps := tg,
                conn_pool := pool2\<rparr>, e4))"

section \<open>Login\<close>

text \<open>\<open>CheckAckInQueue\<close>: is \<open>seq_start <= ack_seq <= seq_end\<close>, considering wrap-around.\<close>

definition CheckAckInQueue :: "u32 \<Rightarrow> u32 \<Rightarrow> u32 \<Rightarrow> bool" where
  "CheckAckInQueue ack seq_start seq_end \<longleftrightarrow>
     0 \<le> sint (ack - seq_start) \<and> 0 \<le> sint (seq_end - ack)"

text \<open>
  The loop over the connections of a group up to the one that belongs to the client: the
  first with its name, or an unused one before it, which gets the name.
\<close>

fun find_slot :: "nat \<Rightarrow> string \<Rightarrow> nat list \<Rightarrow> nat \<Rightarrow> tconn list \<Rightarrow> nat option \<times> tconn list" where
  "find_slot n name [] i pool = (None, pool)"
| "find_slot n name (k # ks) i pool =
     (let c = pool ! k;
          c1 = (if remote_name c ! 0 = NUL then c\<lparr>remote_name := strncpy (remote_name c) name n\<rparr> else c);
          pool1 = pool[k := c1]
      in if strncmp_eq (remote_name c1) name n then (Some i, pool1)
         else find_slot n name ks (Suc i) pool1)"

definition set_error :: "login_rsp \<Rightarrow> string \<Rightarrow> login_rsp" where
  "set_error rsp msg = rsp\<lparr>error_msg := strncpy (error_msg rsp) msg 32\<rparr>"

definition rsp_len :: "sconf \<Rightarrow> nat" where
  "rsp_len S = sizeof_buf (sizeof_LoginRspMsg (RspUserDataSize S) (NameSize (s_conf S)))"

definition send_rsp ::
  "'e os \<Rightarrow> sconf \<Rightarrow> stack_junk \<Rightarrow> fd \<Rightarrow> msg_header \<Rightarrow> login_rsp \<Rightarrow> 'e \<Rightarrow> (errno + nat) \<times> 'e"
where
  "send_rsp N S J fd h rsp e =
     (let E = c_order (s_conf S)
      in os_send N fd (login_buf E h (store_rsp E rsp) (junk_pad J) (rsp_len S)) e)"

text \<open>Every refusal sends the response, ignores the result and leaves the socket to the caller.\<close>

definition refuse ::
  "'e os \<Rightarrow> sconf \<Rightarrow> stack_junk \<Rightarrow> fd \<Rightarrow> msg_header \<Rightarrow> login_rsp \<Rightarrow> server \<Rightarrow> 'e \<Rightarrow>
     ((fd \<times> server) checked \<times> 'e) option"
where
  "refuse N S J fd h rsp srv e = Some (ok (fd, srv), snd (send_rsp N S J fd h rsp e))"

text \<open>The last part: the sequence numbers are known; \<open>lseq\<close> and \<open>rseq\<close> are (ack, start, end).\<close>

definition login_check ::
  "'e os \<Rightarrow> sconf \<Rightarrow> stack_junk \<Rightarrow> int \<Rightarrow> fd \<Rightarrow> string \<Rightarrow> bool \<Rightarrow> nat \<Rightarrow> nat \<Rightarrow> nat \<Rightarrow> msg_header \<Rightarrow>
     login_rsp \<Rightarrow> u32 \<times> u32 \<times> u32 \<Rightarrow> u32 \<times> u32 \<times> u32 \<Rightarrow> server \<Rightarrow> 'e \<Rightarrow>
     ((fd \<times> server) checked \<times> 'e) option"
where
  "login_check N S J now fd addr shm g i k h rsp lseq rseq srv e =
     (let E = c_order (s_conf S);
          (local_ack, local_start, local_end) = lseq;
          (remote_ack, remote_start, remote_end) = rseq;
          h = h\<lparr>ack_seq := Convert32 E local_ack\<rparr>;
          rsp = LoginRspMsg_ConvertByteOrder E
                  (rsp\<lparr>server_seq_start := local_start, server_seq_end := local_end\<rparr>)
      in if \<not> CheckAckInQueue remote_ack local_start local_end \<or>
            \<not> CheckAckInQueue local_ack remote_start remote_end
         then refuse N S J fd h (rsp\<lparr>status := 1\<rparr>) (emit (OnSeqNumberMismatch k lseq rseq) srv) e
         else case send_rsp N S J fd h (rsp\<lparr>status := 0\<rparr>) e of
           (r, e1) \<Rightarrow>
             if r \<noteq> Inr (rsp_len S) then Some (ok (fd, srv), e1)
             else case tconn_Open N (s_conf S) fd remote_ack now (conn_pool srv ! k) e1 of
               None \<Rightarrow> None
             | Some (Inl f, e2) \<Rightarrow> Some (Inl f, e2)
             | Some (Inr c, e2) \<Rightarrow>
                 let G = grps_of shm srv ! g;
                     G = G\<lparr>conns := swap (conns G) i (live_cnt G), live_cnt := live_cnt G + 1\<rparr>
                 in Some (ok (-1, emit (OnClientLogon addr k) (set_grp shm g G (set_conn k c srv))), e2))"

text \<open>The part for the connection found: open its files, then reset it or get its numbers.\<close>

definition login_slot ::
  "'e os \<Rightarrow> sconf \<Rightarrow> stack_junk \<Rightarrow> int \<Rightarrow> fd \<Rightarrow> string \<Rightarrow> bool \<Rightarrow> nat \<Rightarrow> nat \<Rightarrow> msg_header \<Rightarrow>
     login_msg \<Rightarrow> msg_header \<Rightarrow> login_rsp \<Rightarrow> server \<Rightarrow> 'e \<Rightarrow> ((fd \<times> server) checked \<times> 'e) option"
where
  "login_slot N S J now fd addr shm g i req login h rsp srv e =
     (let cf = s_conf S; k = conns (grps_of shm srv ! g) ! i in
      case tconn_OpenFile N cf (use_shm login \<noteq> 0) (conn_pool srv ! k) e of
        ((Some (msg, err), c1), e1) \<Rightarrow>
          refuse N S J fd h (set_error rsp ''System error'')
            (emit (OnClientFileError k msg err) (set_conn k c1 srv)) e1
      | ((None, c1), e1) \<Rightarrow>
          if \<not> strncmp_eq (last_server_name login) (srv_name srv) (NameSize cf) then
            (case tconn_Reset c1 of
               Inl f \<Rightarrow> Some (Inl f, e1)
             | Inr c2 \<Rightarrow>
                 login_check N S J now fd addr shm g i k h rsp (0, 0, 0) (0, 0, 0) (set_conn k c2 srv) e1)
          else
            (case tconn_GetSeq cf (0, 0, 0) c1 of
               None \<Rightarrow> None
             | Some (Inl f) \<Rightarrow> Some (Inl f, e1)
             | Some (Inr (Inl (msg, err))) \<Rightarrow>
                 refuse N S J fd h (set_error rsp ''System error'')
                   (emit (OnClientFileError k msg err) (set_conn k c1 srv)) e1
             | Some (Inr (Inr lseq)) \<Rightarrow>
                 login_check N S J now fd addr shm g i k h rsp lseq
                   (ack_seq req, client_seq_start login, client_seq_end login) (set_conn k c1 srv) e1))"

text \<open>
  \<open>HandleLogin\<close>, for a decoded login message; the result has the descriptor that is left in
  the entry of the new connection, -1 when the connection has taken it over.
\<close>

definition HandleLogin ::
  "'e os \<Rightarrow> sconf \<Rightarrow> 'e server_app \<Rightarrow> stack_junk \<Rightarrow> int \<Rightarrow> fd \<Rightarrow> string \<Rightarrow> bool \<Rightarrow> msg_header \<Rightarrow>
     login_msg \<Rightarrow> server \<Rightarrow> 'e \<Rightarrow> ((fd \<times> server) checked \<times> 'e) option"
where
  "HandleLogin N S app J now fd addr shm req login srv e =
     (let cf = s_conf S; n = NameSize cf;
          h = ConvertByteOrder (c_order cf)
                \<lparr>hdr_size = of_nat (8 + sizeof_LoginRspMsg (RspUserDataSize S) n),
                 msg_type = LoginRspMsg_type, ack_seq = junk_ack J\<rparr>;
          rsp = (junk_rsp J)
                \<lparr>server_name := strncpy (server_name (junk_rsp J)) (srv_name srv) n, status := 2,
                 error_msg := (error_msg (junk_rsp J))[0 := NUL]\<rparr>
      in if client_name login ! 0 = NUL
         then refuse N S J fd h (set_error rsp ''Invalid client name'') srv e
         else
           let login = login\<lparr>client_name := (client_name login)[n - 1 := NUL]\<rparr> in
           (case OnNewConnection app addr login rsp e of
              ((grpid, rsp), e1) \<Rightarrow>
                if grpid < 0 then
                  refuse N S J fd h
                    (if error_msg rsp ! 0 = NUL then set_error rsp ''Login Reject'' else rsp) srv e1
                else if length (grps_of shm srv) \<le> nat grpid then Some (Inl OutOfBounds, e1)
                else
                  let G = grps_of shm srv ! nat grpid in
                  (case find_slot n (client_name login) (conns G) 0 (conn_pool srv) of
                     (None, pool) \<Rightarrow>
                       refuse N S J fd h (set_error rsp ''Max client cnt exceeded'')
                         (srv\<lparr>conn_pool := pool\<rparr>) e1
                   | (Some i, pool) \<Rightarrow>
                       if i < live_cnt G
                       then refuse N S J fd h (set_error rsp ''Already loggned on'')
                              (srv\<lparr>conn_pool := pool\<rparr>) e1
                       else login_slot N S J now fd addr shm (nat grpid) i req login h rsp
                              (srv\<lparr>conn_pool := pool\<rparr>) e1)))"

section \<open>Polling\<close>

text \<open>
  The parts of \<open>PollCtl\<close>.  It accepts at most one connection, into the entry
  \<open>avail_idx\<close> unless that is \<open>MaxNewConnections\<close>; the errors of \<open>accept\<close> are ignored.
\<close>

definition accept_new :: "'e os \<Rightarrow> sconf \<Rightarrow> int \<Rightarrow> server \<Rightarrow> 'e \<Rightarrow> server \<times> 'e" where
  "accept_new N S now srv e =
     (let i = avail_idx srv; ncs = new_conns srv in
      if i = MaxNewConnections S then (srv, e)
      else case os_accept N (listenfd srv) e of
        (Inl err, e1) \<Rightarrow> (srv\<lparr>new_conns := ncs[i := (ncs ! i)\<lparr>nc_fd := -1\<rparr>]\<rparr>, e1)
      | (Inr (fd, addr), e1) \<Rightarrow>
          (srv\<lparr>new_conns := ncs[i := \<lparr>nc_time = now, nc_fd = fd, nc_addr = addr\<rparr>],
               avail_idx := MaxNewConnections S\<rparr>, os_nonblock N fd e1))"

text \<open>The login message in the bytes received, when it looks like a valid one.\<close>

definition msg_len :: "sconf \<Rightarrow> nat" where
  "msg_len S = sizeof_buf (sizeof_LoginMsg (UserDataSize S) (NameSize (s_conf S)))"

definition decode_login :: "sconf \<Rightarrow> u8 list \<Rightarrow> (msg_header \<times> login_msg) option" where
  "decode_login S bs =
     (let E = c_order (s_conf S); U = UserDataSize S; n = NameSize (s_conf S);
          h = ConvertByteOrder E (load_header E bs)
      in if length bs = msg_len S \<and> unat (hdr_size h) = 8 + sizeof_LoginMsg U n \<and>
            msg_type h = LoginMsg_type
         then Some (h, LoginMsg_ConvertByteOrder E (load_login E U n (drop 8 bs))) else None)"

definition close_entry :: "'e os \<Rightarrow> nat \<Rightarrow> fd \<Rightarrow> server \<Rightarrow> 'e \<Rightarrow> server \<times> 'e" where
  "close_entry N i fd srv e =
     (srv\<lparr>new_conns := (new_conns srv)[i := (new_conns srv ! i)\<lparr>nc_fd := -1\<rparr>], avail_idx := i\<rparr>,
      if 0 \<le> fd then os_close N fd e else e)"

definition visit_entry ::
  "'e os \<Rightarrow> sconf \<Rightarrow> 'e server_app \<Rightarrow> stack_junk \<Rightarrow> int \<Rightarrow> nat \<Rightarrow> server \<Rightarrow> 'e \<Rightarrow>
     (server checked \<times> 'e) option"
where
  "visit_entry N S app J now i srv e =
     (let nc = new_conns srv ! i; fd = nc_fd nc in
      if fd < 0 then Some (ok (srv\<lparr>avail_idx := i\<rparr>), e)
      else case os_read N fd (msg_len S) e of
        (Inl err, e1) \<Rightarrow>
          if err = EAGAIN \<and> now - nc_time nc \<le> NewConnectionTimeout S then Some (ok srv, e1)
          else (case close_entry N i fd srv e1 of (srv1, e2) \<Rightarrow> Some (ok srv1, e2))
      | (Inr bs, e1) \<Rightarrow>
          (case decode_login S bs of
             None \<Rightarrow> (case close_entry N i fd srv e1 of (srv1, e2) \<Rightarrow> Some (ok srv1, e2))
           | Some (h, login) \<Rightarrow>
               map_option (\<lambda>(r, e2). case r of
                   Inl f \<Rightarrow> (Inl f, e2)
                 | Inr (fd1, srv1) \<Rightarrow>
                     (case close_entry N i fd1 srv1 e2 of (srv2, e3) \<Rightarrow> (ok srv2, e3)))
                 (HandleLogin N S app J now fd (nc_addr nc) (use_shm login \<noteq> 0) h login srv e1)))"

text \<open>One step after another, and steps over a list; both stop at the first fault.\<close>

definition and_then ::
  "('s checked \<times> 'e) option \<Rightarrow> ('s \<Rightarrow> 'e \<Rightarrow> ('t checked \<times> 'e) option) \<Rightarrow> ('t checked \<times> 'e) option"
where
  "and_then r f =
     (case r of
        None \<Rightarrow> None
      | Some (Inl flt, e1) \<Rightarrow> Some (Inl flt, e1)
      | Some (Inr s1, e1) \<Rightarrow> f s1 e1)"

fun each :: "('i \<Rightarrow> 's \<Rightarrow> 'e \<Rightarrow> ('s checked \<times> 'e) option) \<Rightarrow> 'i list \<Rightarrow> 's \<Rightarrow> 'e \<Rightarrow>
    ('s checked \<times> 'e) option" where
  "each f [] s e = Some (ok s, e)"
| "each f (i # is) s e = and_then (f i s e) (each f is)"

text \<open>
  One live connection: for shared memory the TCP side is polled for heartbeats, the result
  is ignored; then a connection that has been closed is taken out of the live ones.
\<close>

definition keep_alive ::
  "'e os \<Rightarrow> sconf \<Rightarrow> bool \<Rightarrow> int \<Rightarrow> tconn \<Rightarrow> 'e \<Rightarrow> ((bool \<times> tconn) checked \<times> 'e) option"
where
  "keep_alive N S shm now c e =
     map_option (\<lambda>(r, e1). case r of
         Inl f \<Rightarrow> (Inl f, e1)
       | Inr c1 \<Rightarrow> (case tconn_TryCloseFd N c1 e1 of (b, c2, e2) \<Rightarrow> (ok (b, c2), e2)))
       (if shm then map_option (\<lambda>(r, e1). (chk_bind r (\<lambda>(_, c1). ok c1), e1)) (TcpFront N (s_conf S) now c e)
        else Some (ok c, e))"

function poll_live ::
  "'e os \<Rightarrow> sconf \<Rightarrow> bool \<Rightarrow> int \<Rightarrow> nat \<Rightarrow> nat \<Rightarrow> grp \<Rightarrow> server \<Rightarrow> 'e \<Rightarrow> (server checked \<times> 'e) option"
where
  "poll_live N S shm now g i G srv e =
     (if live_cnt G \<le> i then Some (ok (set_grp shm g G srv), e)
      else
        let k = conns G ! i in
        case keep_alive N S shm now (conn_pool srv ! k) e of
          None \<Rightarrow> None
        | Some (Inl f, e1) \<Rightarrow> Some (Inl f, e1)
        | Some (Inr (True, c), e1) \<Rightarrow>
            poll_live N S shm now g i
              (G\<lparr>conns := swap (conns G) i (live_cnt G - 1), live_cnt := live_cnt G - 1\<rparr>)
              (emit (case tconn_GetCloseReason c of (reason, err) \<Rightarrow> OnClientDisconnected k reason err)
                 (set_conn k c srv)) e1
        | Some (Inr (False, c), e1) \<Rightarrow> poll_live N S shm now g (Suc i) G (set_conn k c srv) e1)"
  by pat_completeness auto
termination
  by (relation "measure (\<lambda>(N, S, shm, now, g, i, G, srv, e). live_cnt G - i)") auto

definition PollCtl ::
  "'e os \<Rightarrow> sconf \<Rightarrow> 'e server_app \<Rightarrow> stack_junk \<Rightarrow> int \<Rightarrow> server \<Rightarrow> 'e \<Rightarrow> (server checked \<times> 'e) option"
where
  "PollCtl N S app J now srv e =
     (case accept_new N S now srv e of
        (srv1, e1) \<Rightarrow>
          and_then (each (\<lambda>i. visit_entry N S app J now i) [0 ..< MaxNewConnections S] srv1 e1) (\<lambda>srv2 e2.
          and_then (each (\<lambda>g srv. poll_live N S True now g 0 (shm_grps srv ! g) srv) [0 ..< MaxShmGrps S] srv2 e2)
            (each (\<lambda>g srv. poll_live N S False now g 0 (tcp_grps srv ! g) srv) [0 ..< MaxTcpGrps S])))"

text \<open>
  The polling functions of the serving threads.  A message found is given to the user,
  whose reaction (popping it, sending) is a parameter.
\<close>

definition serve ::
  "'e server_app \<Rightarrow> nat \<Rightarrow> ((msg_ptr option \<times> tconn) checked \<times> 'e) option \<Rightarrow> server \<Rightarrow>
     (server checked \<times> 'e) option"
where
  "serve app k polled srv =
     (case polled of
        None \<Rightarrow> None
      | Some (Inl f, e1) \<Rightarrow> Some (Inl f, e1)
      | Some (Inr (None, c), e1) \<Rightarrow> Some (ok (set_conn k c srv), e1)
      | Some (Inr (Some p, c), e1) \<Rightarrow>
          map_option (\<lambda>(r, e2). (chk_bind r (\<lambda>c1. ok (set_conn k c1 srv)), e2)) (OnClientMsg app p c e1))"

definition PollTcp ::
  "'e os \<Rightarrow> sconf \<Rightarrow> 'e server_app \<Rightarrow> int \<Rightarrow> nat \<Rightarrow> server \<Rightarrow> 'e \<Rightarrow> (server checked \<times> 'e) option"
where
  "PollTcp N S app now grpid srv e =
     (if length (tcp_grps srv) \<le> grpid then Some (Inl OutOfBounds, e)
      else each (\<lambda>i srv e.
             let k = conns (tcp_grps srv ! grpid) ! i
             in serve app k (TcpFront N (s_conf S) now (conn_pool srv ! k) e) srv)
           [0 ..< live_cnt (tcp_grps srv ! grpid)] srv e)"

definition PollShm ::
  "sconf \<Rightarrow> 'e server_app \<Rightarrow> nat \<Rightarrow> server \<Rightarrow> 'e \<Rightarrow> (server checked \<times> 'e) option"
where
  "PollShm S app grpid srv e =
     (if length (shm_grps srv) \<le> grpid then Some (Inl OutOfBounds, e)
      else each (\<lambda>i srv e.
             let k = conns (shm_grps srv ! grpid) ! i
             in serve app k (Some (ShmFront (s_conf S) (conn_pool srv ! k), e)) srv)
           [0 ..< live_cnt (shm_grps srv ! grpid)] srv e)"

end
