(* ===== verification/TcpShmClient.thy ===== *)
theory TcpShmClient
  imports TcpShmServer
begin

text \<open>
  Model of \<^verbatim>\<open>tcpshm_client.h\<close>: connecting and logging in, polling and stopping.  The
  name of the last server is a mapped file, kept as a value while it is mapped.  The
  configuration is the server's record; only the members the client uses matter.
\<close>

section \<open>State\<close>

datatype client_event =
    CliSystemError string errno
  | CliSeqNumberMismatch "u32 \<times> u32 \<times> u32" "u32 \<times> u32 \<times> u32"
  | CliLoginReject login_rsp
  | CliDisconnected string errno

record client =
  cli_name :: string
  cli_dir :: string
  server_file :: "string option"
  cli_conn :: tconn
  cli_events :: "client_event list"

record 'e client_app =
  OnLoginSuccess :: "login_rsp \<Rightarrow> 'e \<Rightarrow> int \<times> 'e"
  OnServerMsg :: "msg_ptr \<Rightarrow> tconn \<Rightarrow> 'e \<Rightarrow> (tconn checked \<times> 'e) option"

definition cemit :: "client_event \<Rightarrow> client \<Rightarrow> client" where
  "cemit ev cl = cl\<lparr>cli_events := cli_events cl @ [ev]\<rparr>"

text \<open>A name copied into an array of \<open>n\<close> characters and terminated.\<close>

definition set_name :: "nat \<Rightarrow> string \<Rightarrow> string \<Rightarrow> string" where
  "set_name n dst src = (strncpy dst src (n - 1))[n - 1 := NUL]"

definition client_new :: "sconf \<Rightarrow> string \<Rightarrow> string \<Rightarrow> string \<Rightarrow> client" where
  "client_new S name dir garbage =
     (let n = NameSize (s_conf S); me = set_name n (replicate n NUL) name
      in \<lparr>cli_name = me, cli_dir = dir, server_file = None,
          cli_conn = tconn_init dir me (tconn_new (s_conf S) garbage), cli_events = []\<rparr>)"

section \<open>Connecting\<close>

text \<open>What the buffers on the stack hold before they are filled in.\<close>

record client_junk =
  junk_login :: login_msg
  junk_tail :: "u8 list"

definition last_server_file :: "client \<Rightarrow> string" where
  "last_server_file cl = c_str (cli_dir cl) @ ''/'' @ c_str (cli_name cl) @ ''.lastserver''"

text \<open>The file with the last server's name is mapped once; then the connection gets the name.\<close>

definition map_server_name ::
  "'e os \<Rightarrow> sconf \<Rightarrow> client \<Rightarrow> 'e \<Rightarrow> ((string \<times> errno) + string \<times> client) \<times> 'e"
where
  "map_server_name N S cl e =
     (case server_file cl of
        Some srv \<Rightarrow> (Inr (srv, cl), e)
      | None \<Rightarrow>
          (case my_mmap N (os_mmap_name N) (NameSize (s_conf S)) (last_server_file cl) False e of
             (Inl err, e1) \<Rightarrow> (Inl err, e1)
           | (Inr srv, e1) \<Rightarrow>
               let c = cli_conn cl; rn = set_name (NameSize (s_conf S)) (remote_name c) srv
               in (Inr (srv, cl\<lparr>server_file := Some srv, cli_conn := c\<lparr>remote_name := rn\<rparr>\<rparr>), e1)))"

definition make_login :: "sconf \<Rightarrow> client_junk \<Rightarrow> bool \<Rightarrow> u8 list \<Rightarrow> client \<Rightarrow> string \<Rightarrow> login_msg" where
  "make_login S J shm user_data cl srv =
     (let n = NameSize (s_conf S); j = junk_login J
      in j\<lparr>client_name := set_name n (client_name j) (cli_name cl),
           last_server_name := set_name n (last_server_name j) srv,
           use_shm := of_bool shm, client_seq_start := 0, client_seq_end := 0,
           login_user_data := user_data\<rparr>)"

text \<open>
  When there was a server before, the queue is opened and its numbers go into the message:
  the result is the error or (acknowledgement, start, end).
\<close>

definition login_seqs ::
  "'e os \<Rightarrow> sconf \<Rightarrow> bool \<Rightarrow> string \<Rightarrow> tconn \<Rightarrow> 'e \<Rightarrow>
     ((((string \<times> errno) + u32 \<times> u32 \<times> u32) \<times> tconn) checked \<times> 'e) option"
where
  "login_seqs N S shm srv c e =
     (if srv ! 0 = NUL then Some (ok (Inr (0, 0, 0), c), e)
      else case tconn_OpenFile N (s_conf S) shm c e of
        ((Some err, c1), e1) \<Rightarrow> Some (ok (Inl err, c1), e1)
      | ((None, c1), e1) \<Rightarrow>
          map_option (\<lambda>r. (chk_bind r (\<lambda>s. ok (s, c1)), e1)) (tconn_GetSeq (s_conf S) (0, 0, 0) c1))"

text \<open>A connected socket; every failure after \<open>socket\<close> closes it.\<close>

definition client_socket ::
  "'e os \<Rightarrow> sconf \<Rightarrow> string \<Rightarrow> u16 \<Rightarrow> 'e \<Rightarrow> ((string \<times> errno) + fd) \<times> 'e"
where
  "client_socket N S server_ipv4 server_port e =
     (case os_socket N e of
        (Inl err, e1) \<Rightarrow> (Inl (''socket'', err), e1)
      | (Inr fd, e1) \<Rightarrow>
          (case os_setsockopt N fd ''SO_RCVTIMEO'' e1 of
             (Inl err, e2) \<Rightarrow> (Inl (''setsockopt SO_RCVTIMEO'', err), os_close N fd e2)
           | (Inr _, e2) \<Rightarrow>
               (case os_setsockopt N fd ''SO_SNDTIMEO'' e2 of
                  (Inl err, e3) \<Rightarrow> (Inl (''setsockopt SO_RCVTIMEO'', err), os_close N fd e3)
                | (Inr _, e3) \<Rightarrow>
                    (case (if TcpNoDelay (s_conf S) then os_setsockopt N fd ''TCP_NODELAY'' e3 else (Inr (), e3)) of
                       (Inl err, e4) \<Rightarrow> (Inl (''setsockopt TCP_NODELAY'', err), os_close N fd e4)
                     | (Inr _, e4) \<Rightarrow>
                         (case os_connect N fd server_ipv4 server_port e4 of
                            (Inl err, e5) \<Rightarrow> (Inl (''connect'', err), os_close N fd e5)
                          | (Inr _, e5) \<Rightarrow> (Inr fd, e5))))))"

text \<open>The login message sent and the response received; the socket stays open.\<close>

definition login_message :: "sconf \<Rightarrow> client_junk \<Rightarrow> u32 \<Rightarrow> login_msg \<Rightarrow> u8 list" where
  "login_message S J ack login =
     (let E = c_order (s_conf S); n = NameSize (s_conf S);
          len = sizeof_LoginMsg (UserDataSize S) n;
          h = \<lparr>hdr_size = of_nat (8 + len), msg_type = LoginMsg_type, ack_seq = ack\<rparr>
      in login_buf E (ConvertByteOrder E h) (store_login E (LoginMsg_ConvertByteOrder E login)) (junk_tail J) (sizeof_buf len))"

definition decode_rsp :: "sconf \<Rightarrow> u8 list \<Rightarrow> (msg_header \<times> login_rsp) option" where
  "decode_rsp S bs =
     (let E = c_order (s_conf S); U = RspUserDataSize S; n = NameSize (s_conf S);
          h = ConvertByteOrder E (load_header E bs);
          rsp = LoginRspMsg_ConvertByteOrder E (load_rsp E U n (drop 8 bs))
      in if unat (hdr_size h) \<noteq> 8 + sizeof_LoginRspMsg U n \<or> msg_type h \<noteq> LoginRspMsg_type \<or>
            server_name rsp ! 0 = NUL
         then None else Some (h, rsp))"

definition exchange_login ::
  "'e os \<Rightarrow> sconf \<Rightarrow> client_junk \<Rightarrow> fd \<Rightarrow> u32 \<Rightarrow> login_msg \<Rightarrow> 'e \<Rightarrow>
     ((string \<times> errno) + msg_header \<times> login_rsp) \<times> 'e"
where
  "exchange_login N S J fd ack login e =
     (case os_send N fd (login_message S J ack login) e of
        (Inl err, e1) \<Rightarrow> (Inl (''send'', err), e1)
      | (Inr sent, e1) \<Rightarrow>
          if sent \<noteq> msg_len S then (Inl (''send'', 0), e1)
          else case os_read N fd (rsp_len S) e1 of
            (Inl err, e2) \<Rightarrow> (Inl (''recv'', err), e2)
          | (Inr bs, e2) \<Rightarrow>
              if length bs \<noteq> rsp_len S then (Inl (''recv'', 0), e2)
              else case decode_rsp S bs of
                None \<Rightarrow> (Inl (''Invalid LoginRsp'', 0), e2)
              | Some hr \<Rightarrow> (Inr hr, e2))"

text \<open>
  A changed server name makes the connection a new one: it is released, takes the name, opens
  its own files and resets them.  The result is the error, or the client with the connection to open.
\<close>

definition adopt_server ::
  "'e os \<Rightarrow> sconf \<Rightarrow> bool \<Rightarrow> string \<Rightarrow> login_rsp \<Rightarrow> client \<Rightarrow> 'e \<Rightarrow>
     ((string \<times> errno) option \<times> client) checked \<times> 'e"
where
  "adopt_server N S shm srv rsp cl e =
     (let n = NameSize (s_conf S); name = (server_name rsp)[n - 1 := NUL]
      in if strncmp_eq srv name n then (ok (None, cl), e)
         else case tconn_Release N (cli_conn cl) e of
           (c1, e1) \<Rightarrow>
             let srv1 = strncpy srv name n;
                 c2 = c1\<lparr>remote_name := set_name n (remote_name c1) srv1\<rparr>
             in (case tconn_OpenFile N (s_conf S) shm c2 e1 of
                   ((Some err, c3), e2) \<Rightarrow> (ok (Some err, cl\<lparr>server_file := Some srv1, cli_conn := c3\<rparr>), e2)
                 | ((None, c3), e2) \<Rightarrow>
                     (chk_bind (tconn_Reset c3) (\<lambda>c4.
                        ok (None, cl\<lparr>server_file := Some srv1, cli_conn := c4\<rparr>)), e2)))"

definition connect_fail :: "client_event \<Rightarrow> client \<Rightarrow> 'e \<Rightarrow> ((bool \<times> client) checked \<times> 'e) option" where
  "connect_fail ev cl e = Some (ok (False, cemit ev cl), e)"

text \<open>The end of \<open>Connect\<close>, for a valid response.\<close>

definition finish_login ::
  "'e os \<Rightarrow> sconf \<Rightarrow> 'e client_app \<Rightarrow> bool \<Rightarrow> string \<Rightarrow> fd \<Rightarrow> u32 \<times> u32 \<times> u32 \<Rightarrow> msg_header \<Rightarrow> login_rsp \<Rightarrow>
     client \<Rightarrow> 'e \<Rightarrow> ((bool \<times> client) checked \<times> 'e) option"
where
  "finish_login N S app shm srv fd seqs h rsp cl e =
     (if status rsp \<noteq> 0 then
        connect_fail
          (if status rsp = 1
           then CliSeqNumberMismatch seqs (ack_seq h, server_seq_start rsp, server_seq_end rsp)
           else CliLoginReject rsp) cl (os_close N fd e)
      else case adopt_server N S shm srv rsp cl e of
        (Inl f, e1) \<Rightarrow> Some (Inl f, e1)
      | (Inr (Some (msg, err), cl1), e1) \<Rightarrow> connect_fail (CliSystemError msg err) cl1 (os_close N fd e1)
      | (Inr (None, cl1), e1) \<Rightarrow>
          (case OnLoginSuccess app (rsp\<lparr>server_name := (server_name rsp)[NameSize (s_conf S) - 1 := NUL]\<rparr>)
                  (os_nonblock N fd e1) of
             (now, e2) \<Rightarrow>
               map_option (\<lambda>(r, e3). (chk_bind r (\<lambda>c. ok (True, cl1\<lparr>cli_conn := c\<rparr>)), e3))
                 (tconn_Open N (s_conf S) fd (ack_seq h) now (cli_conn cl1) e2)))"

definition Connect ::
  "'e os \<Rightarrow> sconf \<Rightarrow> 'e client_app \<Rightarrow> client_junk \<Rightarrow> bool \<Rightarrow> string \<Rightarrow> u16 \<Rightarrow> u8 list \<Rightarrow> client \<Rightarrow> 'e \<Rightarrow>
     ((bool \<times> client) checked \<times> 'e) option"
where
  "Connect N S app J shm server_ipv4 server_port user_data cl0 e0 =
     (if \<not> tconn_IsClosed (cli_conn cl0) then connect_fail (CliSystemError ''already connected'' 0) cl0 e0
      else case tconn_TryCloseFd N (cli_conn cl0) e0 of
        (_, c1, e1) \<Rightarrow>
          let cl1 = cl0\<lparr>cli_conn := c1\<rparr> in
          (case map_server_name N S cl1 e1 of
             (Inl (msg, err), e2) \<Rightarrow> connect_fail (CliSystemError msg err) cl1 e2
           | (Inr (srv, cl2), e2) \<Rightarrow>
               let login = make_login S J shm user_data cl2 srv in
               (case login_seqs N S shm srv (cli_conn cl2) e2 of
                  None \<Rightarrow> None
                | Some (Inl f, e3) \<Rightarrow> Some (Inl f, e3)
                | Some (Inr (Inl (msg, err), c3), e3) \<Rightarrow>
                    connect_fail (CliSystemError msg err) (cl2\<lparr>cli_conn := c3\<rparr>) e3
                | Some (Inr (Inr (ack, seq_start, seq_end), c3), e3) \<Rightarrow>
                    let cl3 = cl2\<lparr>cli_conn := c3\<rparr>;
                        login = login\<lparr>client_seq_start := seq_start, client_seq_end := seq_end\<rparr> in
                    (case client_socket N S server_ipv4 server_port e3 of
                       (Inl (msg, err), e4) \<Rightarrow> connect_fail (CliSystemError msg err) cl3 e4
                     | (Inr fd, e4) \<Rightarrow>
                         (case exchange_login N S J fd ack login e4 of
                            (Inl (msg, err), e5) \<Rightarrow> connect_fail (CliSystemError msg err) cl3 (os_close N fd e5)
                          | (Inr (h, rsp), e5) \<Rightarrow>
                              finish_login N S app shm srv fd (ack, seq_start, seq_end) h rsp cl3 e5)))))"

section \<open>Polling and stopping\<close>

text \<open>A message found goes to the user.\<close>

definition client_serve ::
  "'e client_app \<Rightarrow> ((msg_ptr option \<times> tconn) checked \<times> 'e) option \<Rightarrow> (tconn checked \<times> 'e) option"
where
  "client_serve app polled =
     (case polled of
        None \<Rightarrow> None
      | Some (Inl f, e1) \<Rightarrow> Some (Inl f, e1)
      | Some (Inr (None, c), e1) \<Rightarrow> Some (ok c, e1)
      | Some (Inr (Some p, c), e1) \<Rightarrow> OnServerMsg app p c e1)"

definition client_close_fd :: "'e os \<Rightarrow> client \<Rightarrow> 'e \<Rightarrow> client \<times> 'e" where
  "client_close_fd N cl e =
     (case tconn_TryCloseFd N (cli_conn cl) e of
        (b, c, e1) \<Rightarrow>
          (if b then (case tconn_GetCloseReason c of (reason, err) \<Rightarrow>
                        cemit (CliDisconnected reason err) (cl\<lparr>cli_conn := c\<rparr>))
           else cl\<lparr>cli_conn := c\<rparr>, e1))"

definition client_PollTcp ::
  "'e os \<Rightarrow> sconf \<Rightarrow> 'e client_app \<Rightarrow> int \<Rightarrow> client \<Rightarrow> 'e \<Rightarrow> (client checked \<times> 'e) option"
where
  "client_PollTcp N S app now cl e =
     map_option (\<lambda>(r, e1). case r of
         Inl f \<Rightarrow> (Inl f, e1)
       | Inr c \<Rightarrow> (case client_close_fd N (cl\<lparr>cli_conn := c\<rparr>) e1 of (cl1, e2) \<Rightarrow> (ok cl1, e2)))
       (if tconn_IsClosed (cli_conn cl) then Some (ok (cli_conn cl), e)
        else client_serve app (TcpFront N (s_conf S) now (cli_conn cl) e))"

definition client_PollShm ::
  "sconf \<Rightarrow> 'e client_app \<Rightarrow> client \<Rightarrow> 'e \<Rightarrow> (client checked \<times> 'e) option"
where
  "client_PollShm S app cl e =
     map_option (\<lambda>(r, e1). (chk_bind r (\<lambda>c. ok (cl\<lparr>cli_conn := c\<rparr>)), e1))
       (client_serve app (Some (ShmFront (s_conf S) (cli_conn cl), e)))"

definition client_Stop :: "'e os \<Rightarrow> client \<Rightarrow> 'e \<Rightarrow> client \<times> 'e" where
  "client_Stop N cl e =
     (let e1 = (case server_file cl of None \<Rightarrow> e | Some srv \<Rightarrow> my_munmap (os_munmap_name N) srv e)
      in case tconn_Release N (cli_conn cl) e1 of
        (c, e2) \<Rightarrow> (cl\<lparr>server_file := None, cli_conn := c\<rparr>, e2))"

end
