(* ===== verification/ServerSlots.thy ===== *)
theory ServerSlots
  imports TcpShmServer
begin

text \<open>
  The abstract specification of the server's tables: connection groups whose slots are free,
  reserved for a client name, or live, with four moves.  The operations of the server are
  sequences of these moves, whatever the system calls return; so the invariant of the moves
  is an invariant of the server.
\<close>

section \<open>One group\<close>

text \<open>
  \<open>grp_ok l cs\<close>: of the connections \<open>cs\<close> of a group the first \<open>l\<close> are live.  The named ones
  come before the unnamed ones and have different names; a connection owns a descriptor
  exactly when it is live, and those that are not live are closed.
\<close>

abbreviation peer :: "tconn \<Rightarrow> string" where
  "peer c \<equiv> c_str (remote_name c)"

abbreviation own_fd :: "tconn \<Rightarrow> fd" where
  "own_fd c \<equiv> fd_to_close (ptcp_conn c)"

definition idle :: "tconn \<Rightarrow> bool" where
  "idle c \<longleftrightarrow> sockfd (ptcp_conn c) < 0 \<and> own_fd c < 0"

definition grp_at :: "nat \<Rightarrow> nat \<Rightarrow> tconn list \<Rightarrow> bool" where
  "grp_at l m cs \<longleftrightarrow>
     l \<le> m \<and> m \<le> length cs \<and> (\<forall>j<length cs. peer (cs ! j) \<noteq> [] \<longleftrightarrow> j < m) \<and>
     (\<forall>i<m. \<forall>j<m. peer (cs ! i) = peer (cs ! j) \<longrightarrow> i = j) \<and>
     (\<forall>j<l. 0 \<le> own_fd (cs ! j)) \<and> (\<forall>j<length cs. l \<le> j \<longrightarrow> idle (cs ! j))"

definition grp_ok :: "nat \<Rightarrow> tconn list \<Rightarrow> bool" where
  "grp_ok l cs \<longleftrightarrow> (\<exists>m\<le>length cs. grp_at l m cs)"

lemma grp_okI:
  assumes "l \<le> m" "m \<le> length cs" "\<And>j. j < length cs \<Longrightarrow> peer (cs ! j) \<noteq> [] \<longleftrightarrow> j < m"
    and "\<And>i j. i < m \<Longrightarrow> j < m \<Longrightarrow> peer (cs ! i) = peer (cs ! j) \<Longrightarrow> i = j"
    and "\<And>j. j < l \<Longrightarrow> 0 \<le> own_fd (cs ! j)"
    and "\<And>j. l \<le> j \<Longrightarrow> j < length cs \<Longrightarrow> idle (cs ! j)"
  shows "grp_ok l cs"
proof -
  have "grp_at l m cs" unfolding grp_at_def using assms by blast
  then show ?thesis using assms(2) unfolding grp_ok_def by blast
qed

lemma grp_atD:
  assumes "grp_at l m cs"
  shows "l \<le> m" "m \<le> length cs" "\<And>j. j < length cs \<Longrightarrow> peer (cs ! j) \<noteq> [] \<longleftrightarrow> j < m"
    "\<And>i j. i < m \<Longrightarrow> j < m \<Longrightarrow> peer (cs ! i) = peer (cs ! j) \<Longrightarrow> i = j"
    "\<And>j. j < l \<Longrightarrow> 0 \<le> own_fd (cs ! j)" "\<And>j. l \<le> j \<Longrightarrow> j < length cs \<Longrightarrow> idle (cs ! j)"
  using assms unfolding grp_at_def by blast+

lemma grp_okE:
  assumes "grp_ok l cs"
  obtains m where "grp_at l m cs"
  using assms unfolding grp_ok_def by blast

lemma length_swap_idx [simp]: "length (swap xs i j) = length xs"
  by (simp add: swap_def)

lemma nth_swap:
  "i < length xs \<Longrightarrow> j < length xs \<Longrightarrow> n < length xs \<Longrightarrow>
     swap xs i j ! n = (if n = j then xs ! i else if n = i then xs ! j else xs ! n)"
  by (simp add: swap_def nth_list_update)

lemma set_swap_idx [simp]: "i < length xs \<Longrightarrow> j < length xs \<Longrightarrow> set (swap xs i j) = set xs"
  unfolding swap_def by (rule set_swap)

lemma distinct_swap_idx [simp]: "i < length xs \<Longrightarrow> j < length xs \<Longrightarrow> distinct (swap xs i j) = distinct xs"
  unfolding swap_def by (rule distinct_swap)

lemma map_swap: "i < length xs \<Longrightarrow> j < length xs \<Longrightarrow> map f (swap xs i j) = swap (map f xs) i j"
  by (simp add: swap_def map_update)

lemma grp_ok_quiet:
  assumes "grp_ok l cs" "i < length cs" "conn_kept (cs ! i) c"
  shows "grp_ok l (cs[i := c])"
proof -
  obtain m where "grp_at l m cs" by (rule grp_okE [OF assms(1)])
  note M = grp_atD [OF this]
  have c: "peer c = peer (cs ! i)" "own_fd c = own_fd (cs ! i)" "idle (cs ! i) \<Longrightarrow> idle c"
    using assms(3) by (auto simp: conn_kept_def sock_kept_def idle_def)
  have p: "peer (cs[i := c] ! j) = peer (cs ! j)" "own_fd (cs[i := c] ! j) = own_fd (cs ! j)" for j
    using c assms(2) by (cases "i = j"; simp)+
  show ?thesis
    by (rule grp_okI [of l m]) (use M c p assms(2) in \<open>auto simp: nth_list_update\<close>)
qed

lemma grp_ok_claim:
  assumes "grp_ok l cs" "i < length cs" "peer (cs ! i) = []" "\<And>j. j < i \<Longrightarrow> peer (cs ! j) \<notin> {[], nm}" "nm \<noteq> []"
    and "peer c = nm" "ptcp_conn c = ptcp_conn (cs ! i)"
  shows "grp_ok l (cs[i := c])"
proof -
  obtain m where "grp_at l m cs" by (rule grp_okE [OF assms(1)])
  note M = grp_atD [OF this]
  have "\<not> i < m" using M(3) assms(2,3) by blast
  moreover have "\<not> m < i" using M(3) [of m] assms(2,4) by auto
  ultimately have im: "i = m" by simp
  have ne: "nm \<noteq> peer (cs ! j)" "peer (cs ! j) \<noteq> nm" if "j < m" for j using assms(4) [of j] that im by auto
  show ?thesis
    by (rule grp_okI [of l "Suc m"])
       (use M assms(2,5-7) im ne in \<open>auto simp: nth_list_update less_Suc_eq idle_def\<close>)
qed

lemma grp_ok_logon:
  assumes "grp_ok l cs" "i < length cs" "l \<le> i" "peer (cs ! i) \<noteq> []" "peer c = peer (cs ! i)" "0 \<le> own_fd c"
  shows "grp_ok (Suc l) (swap (cs[i := c]) i l)"
proof -
  obtain m where "grp_at l m cs" by (rule grp_okE [OF assms(1)])
  note M = grp_atD [OF this]
  have im: "i < m" using M(3) assms(2,4) by blast
  have nth: "swap (cs[i := c]) i l ! j = (if j = l then c else if j = i then cs ! l else cs ! j)"
    if "j < length cs" for j
    using that assms(2,3) by (simp add: nth_swap nth_list_update)
  have p: "peer (swap (cs[i := c]) i l ! j) = (if j = l then peer (cs ! i) else if j = i then peer (cs ! l) else peer (cs ! j))"
    if "j < length cs" for j
    by (simp add: nth [OF that] assms(5))
  have lm: "l < m" using assms(3) im by simp
  show ?thesis
  proof (rule grp_okI [of "Suc l" m])
    fix a b
    assume ab: "a < m" "b < m" "peer (swap (cs[i := c]) i l ! a) = peer (swap (cs[i := c]) i l ! b)"
    let ?f = "\<lambda>j. if j = l then i else if j = i then l else j"
    have f: "peer (swap (cs[i := c]) i l ! j) = peer (cs ! ?f j) \<and> ?f j < m" if "j < m" for j
      using p [of j] that M(2) lm im by simp
    have "peer (cs ! ?f a) = peer (cs ! ?f b)" using f [OF ab(1)] f [OF ab(2)] ab(3) by argo
    then have "?f a = ?f b" using M(4) f [OF ab(1)] f [OF ab(2)] by blast
    then show "a = b" by (simp split: if_splits)
  next
    fix j
    assume "j < length (swap (cs[i := c]) i l)"
    then show "peer (swap (cs[i := c]) i l ! j) \<noteq> [] \<longleftrightarrow> j < m"
      using p [of j] M(3) [of j] M(3) [of i] M(3) [of l] M(2) lm im by simp
  next
    fix j
    assume "j < Suc l"
    then show "0 \<le> own_fd (swap (cs[i := c]) i l ! j)"
      using nth [of j] M(2) lm M(5) [of j] assms(3,6) by (auto simp: less_Suc_eq)
  next
    fix j
    assume "Suc l \<le> j" "j < length (swap (cs[i := c]) i l)"
    then show "idle (swap (cs[i := c]) i l ! j)"
      using nth [of j] M(2) lm M(6) [of j] M(6) [of l] by simp
  qed (use M lm in auto)
qed

lemma grp_ok_logoff:
  assumes "grp_ok l cs" "i < l" "peer c = peer (cs ! i)" "idle c"
  shows "grp_ok (l - 1) (swap (cs[i := c]) i (l - 1))"
proof -
  obtain m where "grp_at l m cs" by (rule grp_okE [OF assms(1)])
  note M = grp_atD [OF this]
  define k where "k = l - 1"
  have k: "k < m" "i \<le> k" "l = Suc k" using assms(2) M(1) by (auto simp: k_def)
  have nth: "swap (cs[i := c]) i k ! j = (if j = k then c else if j = i then cs ! k else cs ! j)"
    if "j < length cs" for j
    using that k M(2) by (simp add: nth_swap nth_list_update)
  have p: "peer (swap (cs[i := c]) i k ! j) = (if j = k then peer (cs ! i) else if j = i then peer (cs ! k) else peer (cs ! j))"
    if "j < length cs" for j
    by (simp add: nth [OF that] assms(3))
  have "grp_ok k (swap (cs[i := c]) i k)"
  proof (rule grp_okI [of k m])
    fix a b
    assume ab: "a < m" "b < m" "peer (swap (cs[i := c]) i k ! a) = peer (swap (cs[i := c]) i k ! b)"
    let ?f = "\<lambda>j. if j = k then i else if j = i then k else j"
    have f: "peer (swap (cs[i := c]) i k ! j) = peer (cs ! ?f j) \<and> ?f j < m" if "j < m" for j
      using p [of j] that M(2) k by simp
    have "peer (cs ! ?f a) = peer (cs ! ?f b)" using f [OF ab(1)] f [OF ab(2)] ab(3) by argo
    then have "?f a = ?f b" using M(4) f [OF ab(1)] f [OF ab(2)] by blast
    then show "a = b" by (simp split: if_splits)
  next
    fix j
    assume "j < length (swap (cs[i := c]) i k)"
    then show "peer (swap (cs[i := c]) i k ! j) \<noteq> [] \<longleftrightarrow> j < m"
      using p [of j] M(3) [of j] M(3) [of i] M(3) [of k] M(2) k by simp
  next
    fix j
    assume "j < k"
    then show "0 \<le> own_fd (swap (cs[i := c]) i k ! j)"
      using nth [of j] M(2) k M(5) [of j] M(5) [of k] by simp
  next
    fix j
    assume "k \<le> j" "j < length (swap (cs[i := c]) i k)"
    then show "idle (swap (cs[i := c]) i k ! j)"
      using nth [of j] M(2) k M(6) [of j] assms(4) by simp
  qed (use M k in auto)
  then show ?thesis by (simp add: k_def)
qed

section \<open>All groups\<close>

text \<open>The groups and the pool their connections live in.  Two places never share a connection.\<close>

type_synonym slots = "grp list \<times> tconn list"

definition members :: "tconn list \<Rightarrow> grp \<Rightarrow> tconn list" where
  "members pool G = map ((!) pool) (conns G)"

definition grp_wf :: "grp \<Rightarrow> bool" where
  "grp_wf G \<longleftrightarrow> distinct (conns G) \<and> live_cnt G \<le> length (conns G)"

definition slots_wf :: "nat list \<Rightarrow> nat \<Rightarrow> slots \<Rightarrow> bool" where
  "slots_wf caps n s \<longleftrightarrow> (case s of (gs, pool) \<Rightarrow>
     map (\<lambda>G. length (conns G)) gs = caps \<and> list_all grp_wf gs \<and>
     (\<forall>g<length gs. \<forall>h<length gs. g \<noteq> h \<longrightarrow> set (conns (gs ! g)) \<inter> set (conns (gs ! h)) = {}) \<and>
     (\<Union>G\<in>set gs. set (conns G)) = {..<length pool} \<and>
     list_all (\<lambda>c. length (remote_name c) = n) pool)"

definition slots_ok :: "slots \<Rightarrow> bool" where
  "slots_ok s \<longleftrightarrow> (case s of (gs, pool) \<Rightarrow> list_all (\<lambda>G. grp_ok (live_cnt G) (members pool G)) gs)"

text \<open>
  The moves.  A connection changes without taking part (\<open>quiet\<close>); the first free slot, when
  no slot before it has the name, is reserved for a name (\<open>claim\<close>); a reserved slot gets a
  descriptor and becomes the last live one (\<open>logon\<close>); a live one gives its descriptor up and
  becomes the first that is not live (\<open>logoff\<close>).
\<close>

inductive slot_move :: "slots \<Rightarrow> slots \<Rightarrow> bool" where
  quiet: "k < length pool \<Longrightarrow> conn_kept (pool ! k) c \<Longrightarrow> slot_move (gs, pool) (gs, pool[k := c])"
| claim: "g < length gs \<Longrightarrow> i < length (conns (gs ! g)) \<Longrightarrow> k = conns (gs ! g) ! i \<Longrightarrow>
    peer (pool ! k) = [] \<Longrightarrow> (\<And>j. j < i \<Longrightarrow> peer (pool ! (conns (gs ! g) ! j)) \<notin> {[], nm}) \<Longrightarrow>
    nm \<noteq> [] \<Longrightarrow> c_str r = nm \<Longrightarrow> length r = length (remote_name (pool ! k)) \<Longrightarrow>
    slot_move (gs, pool) (gs, pool[k := (pool ! k)\<lparr>remote_name := r\<rparr>])"
| logon: "g < length gs \<Longrightarrow> live_cnt (gs ! g) \<le> i \<Longrightarrow> i < length (conns (gs ! g)) \<Longrightarrow> k = conns (gs ! g) ! i \<Longrightarrow>
    peer (pool ! k) \<noteq> [] \<Longrightarrow> remote_name c = remote_name (pool ! k) \<Longrightarrow> 0 \<le> own_fd c \<Longrightarrow>
    G = (gs ! g)\<lparr>conns := swap (conns (gs ! g)) i (live_cnt (gs ! g)), live_cnt := live_cnt (gs ! g) + 1\<rparr> \<Longrightarrow>
    slot_move (gs, pool) (gs[g := G], pool[k := c])"
| logoff: "g < length gs \<Longrightarrow> i < live_cnt (gs ! g) \<Longrightarrow> k = conns (gs ! g) ! i \<Longrightarrow>
    remote_name c = remote_name (pool ! k) \<Longrightarrow> idle c \<Longrightarrow>
    G = (gs ! g)\<lparr>conns := swap (conns (gs ! g)) i (live_cnt (gs ! g) - 1), live_cnt := live_cnt (gs ! g) - 1\<rparr> \<Longrightarrow>
    slot_move (gs, pool) (gs[g := G], pool[k := c])"

inductive_cases slot_moveE: "slot_move s t"

lemma nth_upd: "xs[i := x] ! j = (if i = j \<and> j < length xs then x else xs ! j)"
  by (cases "i < length xs") (auto simp: nth_list_update list_update_beyond)

lemma members_other [simp]: "k \<notin> set (conns G) \<Longrightarrow> members (pool[k := c]) G = members pool G"
  by (auto simp: members_def nth_upd)

lemma members_upd:
  assumes "distinct (conns G)" "i < length (conns G)" "k = conns G ! i" "k < length pool"
  shows "members (pool[k := c]) G = (members pool G)[i := c]"
  using assms by (auto simp: members_def list_eq_iff_nth_eq nth_list_update nth_eq_iff_index_eq)

lemma length_members [simp]: "length (members pool G) = length (conns G)"
  by (simp add: members_def)

lemma nth_members [simp]: "i < length (conns G) \<Longrightarrow> members pool G ! i = pool ! (conns G ! i)"
  by (simp add: members_def)

lemma members_swap:
  "i < length (conns G) \<Longrightarrow> j < length (conns G) \<Longrightarrow>
     members pool (G\<lparr>conns := swap (conns G) i j, live_cnt := l\<rparr>) = swap (members pool G) i j"
  by (simp add: members_def map_swap)

lemma slots_wfD:
  assumes "slots_wf caps n (gs, pool)"
  shows "\<And>g. g < length gs \<Longrightarrow> grp_wf (gs ! g)"
    and "\<And>g h. g < length gs \<Longrightarrow> h < length gs \<Longrightarrow> g \<noteq> h \<Longrightarrow> k \<in> set (conns (gs ! g)) \<Longrightarrow> k \<notin> set (conns (gs ! h))"
    and "\<And>g k. g < length gs \<Longrightarrow> k \<in> set (conns (gs ! g)) \<Longrightarrow> k < length pool"
    and "\<And>k. k < length pool \<Longrightarrow> \<exists>g<length gs. k \<in> set (conns (gs ! g))"
    and "\<And>k. k < length pool \<Longrightarrow> length (remote_name (pool ! k)) = n"
    and "length gs = length caps" and "\<And>g. g < length gs \<Longrightarrow> length (conns (gs ! g)) = caps ! g"
proof -
  have U: "(\<Union>G\<in>set gs. set (conns G)) = {..<length pool}" and caps: "caps = map (\<lambda>G. length (conns G)) gs"
    using assms by (auto simp: slots_wf_def)
  show "\<And>g. g < length gs \<Longrightarrow> grp_wf (gs ! g)"
    "\<And>g h. g < length gs \<Longrightarrow> h < length gs \<Longrightarrow> g \<noteq> h \<Longrightarrow> k \<in> set (conns (gs ! g)) \<Longrightarrow> k \<notin> set (conns (gs ! h))"
    "\<And>k. k < length pool \<Longrightarrow> length (remote_name (pool ! k)) = n"
    using assms by (auto simp: slots_wf_def list_all_length)
  show "g < length gs \<Longrightarrow> k \<in> set (conns (gs ! g)) \<Longrightarrow> k < length pool" for g k
    using U nth_mem by blast
  show "k < length pool \<Longrightarrow> \<exists>g<length gs. k \<in> set (conns (gs ! g))" for k
    using U by (auto simp: set_conv_nth [of gs])
  show "length gs = length caps" "g < length gs \<Longrightarrow> length (conns (gs ! g)) = caps ! g" for g
    by (simp_all add: caps)
qed

lemma slots_wf_update:
  assumes wf: "slots_wf caps n (gs, pool)" and "length (remote_name c) = n"
    and "g < length gs" "set (conns G) = set (conns (gs ! g))" "length (conns G) = length (conns (gs ! g))" "grp_wf G"
  shows "slots_wf caps n (gs[g := G], pool[k := c])"
proof -
  have m: "map (\<lambda>G. length (conns G)) (gs[g := G]) = map (\<lambda>G. length (conns G)) gs"
    using assms(3,5) by (simp add: map_update list_update_same_conv)
  have s: "set (conns (gs[g := G] ! h)) = set (conns (gs ! h))" if "h < length gs" for h
    using assms(4) by (simp add: nth_upd)
  have u: "(\<Union>G\<in>set (gs[g := G]). set (conns G)) = (\<Union>G\<in>set gs. set (conns G))"
  proof -
    have "(\<Union>G\<in>set xs. set (conns G)) = (\<Union>h<length xs. set (conns (xs ! h)))" for xs :: "grp list"
      by (auto simp: set_conv_nth [of xs])
    then show ?thesis using s by simp
  qed
  have a: "list_all grp_wf (gs[g := G])"
    using wf assms(6) by (auto simp: slots_wf_def list_all_length nth_upd)
  have p: "list_all (\<lambda>c. length (remote_name c) = n) (pool[k := c])"
    using wf assms(2) by (auto simp: slots_wf_def list_all_length nth_upd)
  show ?thesis
    using wf m s u a p by (simp add: slots_wf_def)
qed

lemma slots_wf_pool:
  "slots_wf caps n (gs, pool) \<Longrightarrow> length (remote_name c) = n \<Longrightarrow> slots_wf caps n (gs, pool[k := c])"
  by (auto simp: slots_wf_def list_all_length nth_upd)

lemma slots_ok_update:
  assumes wf: "slots_wf caps n (gs, pool)" and ok: "slots_ok (gs, pool)" and "g < length gs"
    and "k \<in> set (conns (gs ! g))" and "grp_ok (live_cnt G) (members (pool[k := c]) G)"
  shows "slots_ok (gs[g := G], pool[k := c])"
  using assms slots_wfD(2) [OF wf assms(3) _ _ assms(4)]
  by (auto simp: slots_ok_def list_all_length nth_list_update)

definition slots_inv :: "nat list \<Rightarrow> nat \<Rightarrow> slots \<Rightarrow> bool" where
  "slots_inv caps n s \<longleftrightarrow> slots_wf caps n s \<and> slots_ok s"

lemma slot_move_inv:
  assumes "slots_inv caps n s" "slot_move s t"
  shows "slots_inv caps n t"
  using assms(2,1)
proof (cases rule: slot_move.cases)
  case (quiet k pool c gs)
  have wf: "slots_wf caps n (gs, pool)" and ok: "slots_ok (gs, pool)" using assms(1) quiet by (simp_all add: slots_inv_def)
  note D = slots_wfD [OF wf]
  obtain g where g: "g < length gs" "k \<in> set (conns (gs ! g))" using D(4) quiet(3) by blast
  obtain i where i: "i < length (conns (gs ! g))" "k = conns (gs ! g) ! i" using g(2) by (auto simp: in_set_conv_nth)
  have "grp_ok (live_cnt (gs ! g)) (members pool (gs ! g))" using ok g(1) by (simp add: slots_ok_def list_all_length)
  then have "grp_ok (live_cnt (gs ! g)) (members (pool[k := c]) (gs ! g))"
    using D(1) [OF g(1)] i quiet(3,4) grp_ok_quiet [of _ "members pool (gs ! g)" i c]
    by (simp add: members_upd grp_wf_def)
  from slots_ok_update [OF wf ok g this] have "slots_ok (gs, pool[k := c])" by simp
  moreover have "slots_wf caps n (gs, pool[k := c])"
    using slots_wf_pool [OF wf] D(5) [OF quiet(3)] quiet(4) by (simp add: conn_kept_def)
  ultimately show ?thesis using quiet by (simp add: slots_inv_def)
next
  case (claim g gs i k pool nm r)
  have wf: "slots_wf caps n (gs, pool)" and ok: "slots_ok (gs, pool)" using assms(1) claim by (simp_all add: slots_inv_def)
  note D = slots_wfD [OF wf]
  have k: "k \<in> set (conns (gs ! g))" "k < length pool" using D(3) [OF claim(3)] claim(4,5) by auto
  let ?c = "(pool ! k)\<lparr>remote_name := r\<rparr>"
  have "grp_ok (live_cnt (gs ! g)) (members pool (gs ! g))" using ok claim(3) by (simp add: slots_ok_def list_all_length)
  then have "grp_ok (live_cnt (gs ! g)) ((members pool (gs ! g))[i := ?c])"
    by (rule grp_ok_claim [where nm = nm]) (use claim in auto)
  then have "grp_ok (live_cnt (gs ! g)) (members (pool[k := ?c]) (gs ! g))"
    using D(1) [OF claim(3)] claim(4,5) k by (simp add: members_upd grp_wf_def)
  from slots_ok_update [OF wf ok claim(3) k(1) this] have "slots_ok (gs, pool[k := ?c])" by simp
  moreover have "slots_wf caps n (gs, pool[k := ?c])"
    using slots_wf_pool [OF wf] D(5) [OF k(2)] claim(10) by simp
  ultimately show ?thesis using claim by (simp add: slots_inv_def)
next
  case (logon g gs i k pool c G)
  have wf: "slots_wf caps n (gs, pool)" and ok: "slots_ok (gs, pool)" using assms(1) logon by (simp_all add: slots_inv_def)
  note D = slots_wfD [OF wf]
  have k: "k \<in> set (conns (gs ! g))" "k < length pool" using D(3) [OF logon(3)] logon(5,6) by auto
  have l: "live_cnt (gs ! g) < length (conns (gs ! g))" using logon(4,5) by simp
  have "grp_ok (live_cnt (gs ! g)) (members pool (gs ! g))" using ok logon(3) by (simp add: slots_ok_def list_all_length)
  then have "grp_ok (Suc (live_cnt (gs ! g))) (swap ((members pool (gs ! g))[i := c]) i (live_cnt (gs ! g)))"
    by (rule grp_ok_logon) (use logon in auto)
  then have "grp_ok (live_cnt G) (members (pool[k := c]) G)"
    using D(1) [OF logon(3)] logon(5,6,10) k l by (simp add: members_swap members_upd grp_wf_def)
  from slots_ok_update [OF wf ok logon(3) k(1) this] have "slots_ok (gs[g := G], pool[k := c])" .
  moreover have "slots_wf caps n (gs[g := G], pool[k := c])"
    by (rule slots_wf_update [OF wf _ logon(3)])
       (use D(1) [OF logon(3)] D(5) [OF k(2)] logon l in \<open>simp_all add: grp_wf_def\<close>)
  ultimately show ?thesis using logon by (simp add: slots_inv_def)
next
  case (logoff g gs i k c pool G)
  have wf: "slots_wf caps n (gs, pool)" and ok: "slots_ok (gs, pool)" using assms(1) logoff by (simp_all add: slots_inv_def)
  note D = slots_wfD [OF wf]
  have l: "live_cnt (gs ! g) - 1 < length (conns (gs ! g))" "i < length (conns (gs ! g))"
    using logoff(4) D(1) [OF logoff(3)] unfolding grp_wf_def by linarith+
  have k: "k \<in> set (conns (gs ! g))" "k < length pool" using D(3) [OF logoff(3)] logoff(5) l by auto
  have "grp_ok (live_cnt (gs ! g)) (members pool (gs ! g))" using ok logoff(3) by (simp add: slots_ok_def list_all_length)
  then have "grp_ok (live_cnt (gs ! g) - 1) (swap ((members pool (gs ! g))[i := c]) i (live_cnt (gs ! g) - 1))"
    by (rule grp_ok_logoff) (use logoff l in auto)
  then have "grp_ok (live_cnt G) (members (pool[k := c]) G)"
    using D(1) [OF logoff(3)] logoff(5,8) k l by (simp add: members_swap members_upd grp_wf_def)
  from slots_ok_update [OF wf ok logoff(3) k(1) this] have "slots_ok (gs[g := G], pool[k := c])" .
  moreover have "slots_wf caps n (gs[g := G], pool[k := c])"
    by (rule slots_wf_update [OF wf _ logoff(3)])
       (use D(1) [OF logoff(3)] D(5) [OF k(2)] logoff l in \<open>simp_all add: grp_wf_def\<close>)
  ultimately show ?thesis using logoff by (simp add: slots_inv_def)
qed

text \<open>The invariant along sequences of moves.\<close>

definition fresh_slots :: "nat list \<Rightarrow> nat \<Rightarrow> slots \<Rightarrow> bool" where
  "fresh_slots caps n s \<longleftrightarrow> slots_wf caps n s \<and>
     (case s of (gs, pool) \<Rightarrow> list_all (\<lambda>G. live_cnt G = 0) gs \<and> list_all (\<lambda>c. idle c \<and> peer c = []) pool)"

lemma fresh_slots_inv:
  assumes "fresh_slots caps n s"
  shows "slots_inv caps n s"
proof (cases s)
  case (Pair gs pool)
  then have wf: "slots_wf caps n (gs, pool)" using assms by (simp add: fresh_slots_def)
  have "grp_ok (live_cnt (gs ! g)) (members pool (gs ! g))" if g: "g < length gs" for g
  proof (rule grp_okI [of _ 0])
    have pool: "idle (pool ! (conns (gs ! g) ! j)) \<and> peer (pool ! (conns (gs ! g) ! j)) = []"
      if "j < length (conns (gs ! g))" for j
      using assms slots_wfD(3) [OF wf g, of "conns (gs ! g) ! j"] that Pair
      by (simp add: fresh_slots_def list_all_length)
    then show "\<And>j. live_cnt (gs ! g) \<le> j \<Longrightarrow> j < length (members pool (gs ! g)) \<Longrightarrow> idle (members pool (gs ! g) ! j)"
      "\<And>j. j < length (members pool (gs ! g)) \<Longrightarrow> peer (members pool (gs ! g) ! j) \<noteq> [] \<longleftrightarrow> j < 0"
      by simp_all
  qed (use assms Pair g in \<open>auto simp: fresh_slots_def list_all_length\<close>)
  then show ?thesis using wf Pair by (simp add: slots_inv_def slots_ok_def list_all_length)
qed

interpretation slots: state_invariant "fresh_slots caps n" slot_move "slots_inv caps n" for caps n
  by unfold_locales (fact fresh_slots_inv, fact slot_move_inv)

text \<open>A name keeps its place in its group: the moves never give one up.\<close>

definition names :: "slots \<Rightarrow> nat \<Rightarrow> string set" where
  "names s g = {peer (snd s ! k) | k. k \<in> set (conns (fst s ! g))} - {[]}"

lemma slot_move_keeps:
  assumes "slots_wf caps n s" "slot_move s t"
  shows "(\<forall>g. set (conns (fst t ! g)) = set (conns (fst s ! g))) \<and>
    (\<forall>k. peer (snd s ! k) \<noteq> [] \<longrightarrow> peer (snd t ! k) = peer (snd s ! k))"
  using assms(2)
proof (cases rule: slot_move.cases)
  case (quiet k pool c gs)
  then show ?thesis by (simp add: nth_upd conn_kept_def)
next
  case (claim g gs i k pool nm r)
  then show ?thesis by (simp add: nth_upd)
next
  case (logon g gs i k pool c G)
  then have "live_cnt (gs ! g) < length (conns (gs ! g))" by simp
  with logon show ?thesis by (simp add: nth_upd)
next
  case (logoff g gs i k c pool G)
  have "grp_wf (gs ! g)" using slots_wfD(1) [of caps n gs pool g] assms(1) logoff by simp
  then have "i < length (conns (gs ! g))" "live_cnt (gs ! g) - 1 < length (conns (gs ! g))"
    using logoff(4) unfolding grp_wf_def by linarith+
  then show ?thesis using logoff by (simp add: nth_upd)
qed

lemma slot_moves_keep:
  assumes "slot_move\<^sup>*\<^sup>* s t" "slots_inv caps n s"
  shows "set (conns (fst t ! g)) = set (conns (fst s ! g))"
    and "peer (snd s ! k) \<noteq> [] \<Longrightarrow> peer (snd t ! k) = peer (snd s ! k)"
proof -
  from assms(1) have "(\<forall>g. set (conns (fst t ! g)) = set (conns (fst s ! g))) \<and>
      (\<forall>k. peer (snd s ! k) \<noteq> [] \<longrightarrow> peer (snd t ! k) = peer (snd s ! k))"
  proof (induction rule: rtranclp_induct)
    case (step t u)
    have "slots_wf caps n t" using slots.inv_steps [OF step(1) assms(2)] by (simp add: slots_inv_def)
    from slot_move_keeps [OF this step(2)] step(3) show ?case by simp
  qed simp
  then show "set (conns (fst t ! g)) = set (conns (fst s ! g))"
    "peer (snd s ! k) \<noteq> [] \<Longrightarrow> peer (snd t ! k) = peer (snd s ! k)" by blast+
qed

lemma names_mono:
  assumes "slot_move\<^sup>*\<^sup>* s t" "slots_inv caps n s"
  shows "names s g \<subseteq> names t g"
proof
  fix x
  assume "x \<in> names s g"
  then obtain k where k: "x = peer (snd s ! k)" "k \<in> set (conns (fst s ! g))" "x \<noteq> []"
    by (auto simp: names_def)
  with slot_moves_keep(1) [OF assms, of g] slot_moves_keep(2) [OF assms, of k]
  have "x = peer (snd t ! k)" "k \<in> set (conns (fst t ! g))" by simp_all
  with k(3) show "x \<in> names t g" by (auto simp: names_def)
qed

end
