(* ===== verification/ServerInv.thy ===== *)
theory ServerInv
  imports ServerSlots
begin

text \<open>
  The server refines its slots: for every behaviour of the system calls and of the user's
  callbacks, login, polling, starting and stopping are sequences of the slot moves, so every
  reachable state of the server satisfies the invariant.
\<close>

section \<open>Names\<close>

definition name_wf :: "nat \<Rightarrow> string \<Rightarrow> bool" where
  "name_wf n s \<longleftrightarrow> length s = n \<and> length (c_str s) < n"

lemma length_c_str: "length (c_str s) \<le> length s"
  unfolding c_str_def by (rule length_takeWhile_le)

lemma strncmp_eq_peer:
  "length a = n \<Longrightarrow> length b = n \<Longrightarrow> strncmp_eq a b n \<longleftrightarrow> c_str a = c_str b"
  using length_c_str [of a] length_c_str [of b] by (simp add: strncmp_eq_def)

lemma name_wf_terminated:
  assumes "length s = n" "0 < n"
  shows "name_wf n (s[n - 1 := NUL])"
proof -
  have "s[n - 1 := NUL] = take (n - 1) s @ [NUL]"
    using assms upd_conv_take_nth_drop [of "n - 1" s NUL] by simp
  moreover have "length (c_str (xs @ [NUL])) \<le> length xs" for xs
    by (induction xs) (simp_all add: c_str_def)
  ultimately have "length (c_str (s[n - 1 := NUL])) \<le> length (take (n - 1) s)" by metis
  then show ?thesis using assms by (simp add: name_wf_def)
qed

lemma c_str_terminated:
  assumes "length s = n" "1 < n" "s ! 0 \<noteq> NUL"
  shows "c_str (s[n - 1 := NUL]) \<noteq> []"
  using assms by (cases s; cases "n - 1") (auto simp: c_str_def)

lemma c_str_Nil_nth: "0 < length s \<Longrightarrow> c_str s = [] \<longleftrightarrow> s ! 0 = NUL"
  by (rule c_str_Nil_iff) auto

section \<open>The slot of a client\<close>

text \<open>
  The reference: the first slot that is free or has the client's name.
\<close>

definition slot_of :: "string \<Rightarrow> nat list \<Rightarrow> tconn list \<Rightarrow> nat" where
  "slot_of nm ks pool = length (takeWhile (\<lambda>k. peer (pool ! k) \<notin> {[], nm}) ks)"

definition reserve :: "nat \<Rightarrow> string \<Rightarrow> nat \<Rightarrow> tconn list \<Rightarrow> tconn list" where
  "reserve n name k pool =
     (if peer (pool ! k) = []
      then pool[k := (pool ! k)\<lparr>remote_name := strncpy (remote_name (pool ! k)) name n\<rparr>] else pool)"

lemma find_slot_ref:
  assumes "name_wf n name" "c_str name \<noteq> []"
    and "\<And>k. k \<in> set ks \<Longrightarrow> k < length pool \<and> length (remote_name (pool ! k)) = n"
  shows "find_slot n name ks i pool =
    (let j = slot_of (c_str name) ks pool in
     if j < length ks then (Some (i + j), reserve n name (ks ! j) pool) else (None, pool))"
  using assms(3)
proof (induction ks arbitrary: i)
  case Nil
  then show ?case by (simp add: slot_of_def)
next
  case (Cons k ks)
  have n: "length name = n" "0 < n" "length (c_str name) < n" using assms(1) by (auto simp: name_wf_def)
  have k: "length (remote_name (pool ! k)) = n" using Cons.prems by simp
  have e: "peer (pool ! k) = [] \<longleftrightarrow> remote_name (pool ! k) ! 0 = NUL"
    using k n by (intro c_str_Nil_nth) simp
  show ?case
  proof (cases "peer (pool ! k) = []")
    case True
    have "c_str (strncpy (remote_name (pool ! k)) name n) = c_str name"
      using n k by (simp add: c_str_strncpy)
    then show ?thesis
      using True e n k by (simp add: slot_of_def reserve_def strncmp_eq_def Let_def)
  next
    case False
    show ?thesis
    proof (cases "peer (pool ! k) = c_str name")
      case True
      then show ?thesis
        using False e n k by (simp add: slot_of_def reserve_def strncmp_eq_def Let_def)
    next
      case ne: False
      have "\<not> strncmp_eq (remote_name (pool ! k)) name n"
        using ne k n by (simp add: strncmp_eq_peer)
      then show ?thesis
        using False e ne Cons.IH [of "Suc i"] Cons.prems by (simp add: slot_of_def Let_def)
    qed
  qed
qed

lemma slot_of_before:
  "j < slot_of nm ks pool \<Longrightarrow> peer (pool ! (ks ! j)) \<notin> {[], nm}"
  unfolding slot_of_def by (metis nth_mem set_takeWhileD takeWhile_nth)

lemma slot_of_at:
  "slot_of nm ks pool < length ks \<Longrightarrow> peer (pool ! (ks ! slot_of nm ks pool)) \<in> {[], nm}"
  unfolding slot_of_def using nth_length_takeWhile by fastforce

section \<open>The outcomes of a login\<close>

definition gone_live :: "grp \<Rightarrow> nat \<Rightarrow> grp" where
  "gone_live G i = G\<lparr>conns := swap (conns G) i (live_cnt G), live_cnt := live_cnt G + 1\<rparr>"

text \<open>
  \<open>accepted\<close>: the sequence numbers of the two sides fit, the connection \<open>k\<close> at place \<open>i\<close>
  has been opened with the descriptor, and it is the last live one of its group.
\<close>

definition accepted ::
  "'e os \<Rightarrow> sconf \<Rightarrow> int \<Rightarrow> fd \<Rightarrow> string \<Rightarrow> bool \<Rightarrow> nat \<Rightarrow> nat \<Rightarrow> tconn \<Rightarrow> server \<Rightarrow> server \<Rightarrow> 'e \<Rightarrow> bool"
where
  "accepted N S now fd addr shm g i c1 srv srv1 e1 \<longleftrightarrow>
     (let G = grps_of shm srv ! g; k = conns G ! i in
      \<exists>local_ack local_start local_end remote_ack remote_start remote_end c e.
        CheckAckInQueue remote_ack local_start local_end \<and>
        CheckAckInQueue local_ack remote_start remote_end \<and>
        tconn_Open N (s_conf S) fd remote_ack now c1 e = Some (ok c, e1) \<and>
        srv1 = emit (OnClientLogon addr k) (set_grp shm g (gone_live G i) (set_conn k c srv)))"

lemma login_check_cases:
  assumes "login_check N S J now fd addr shm g i k h rsp lseq rseq srv e = Some (ok (fd1, srv1), e1)"
    and "k = conns (grps_of shm srv ! g) ! i"
  obtains (refused) evs where "fd1 = fd" "srv1 = srv\<lparr>events := evs\<rparr>"
  | (accepted) "fd1 = -1" "accepted N S now fd addr shm g i (conn_pool srv ! k) srv srv1 e1"
proof -
  obtain la ls le where l: "lseq = (la, ls, le)" by (cases lseq)
  obtain ra rs re where r: "rseq = (ra, rs, re)" by (cases rseq)
  define ackok where "ackok \<longleftrightarrow> CheckAckInQueue ra ls le \<and> CheckAckInQueue la rs re"
  obtain res e2 where sr: "send_rsp N S J fd (h\<lparr>ack_seq := Convert32 (c_order (s_conf S)) la\<rparr>)
      (LoginRspMsg_ConvertByteOrder (c_order (s_conf S))
         (rsp\<lparr>server_seq_start := ls, server_seq_end := le\<rparr>)\<lparr>status := 0\<rparr>) e = (res, e2)"
    by fastforce
  show thesis
  proof (cases "ackok")
    case False
    then have "fd1 = fd \<and> (\<exists>evs. srv1 = srv\<lparr>events := evs\<rparr>)"
      using assms(1) by (auto simp: ackok_def l r login_check_def refuse_def emit_def Let_def)
    then show thesis using refused by blast
  next
    case True
    show thesis
    proof (cases "res = Inr (rsp_len S)")
      case False
      then have "fd1 = fd" "srv1 = srv"
        using assms(1) True sr by (auto simp: ackok_def l r login_check_def Let_def)
      then show thesis using refused [of "events srv"] by simp
    next
      case sent: True
      obtain c where o: "tconn_Open N (s_conf S) fd ra now (conn_pool srv ! k) e2 = Some (ok c, e1)"
          and "fd1 = -1" and s1: "srv1 = emit (OnClientLogon addr k)
            (set_grp shm g (gone_live (grps_of shm (set_conn k c srv) ! g) i) (set_conn k c srv))"
        using assms(1) True sr sent
        by (auto simp: ackok_def l r login_check_def gone_live_def grps_of_def set_conn_def Let_def
            split: option.splits sum.splits)
      have g: "grps_of shm (set_conn k c srv) = grps_of shm srv" by (simp add: set_conn_def grps_of_def)
      have "accepted N S now fd addr shm g i (conn_pool srv ! k) srv srv1 e1"
        unfolding accepted_def Let_def assms(2) [symmetric]
        using True o s1 unfolding ackok_def g by blast
      with \<open>fd1 = -1\<close> have "fd1 = -1 \<and> accepted N S now fd addr shm g i (conn_pool srv ! k) srv srv1 e1" by simp
      then show thesis using accepted by blast
    qed
  qed
qed

lemma set_conn_same_grps [simp]: "grps_of shm (set_conn k c srv) = grps_of shm srv"
  by (simp add: set_conn_def grps_of_def)

lemma accepted_set_conn:
  assumes "accepted N S now fd addr shm g i c1 (set_conn (conns (grps_of shm srv ! g) ! i) c srv) srv1 e1"
  shows "accepted N S now fd addr shm g i c1 srv srv1 e1"
proof -
  have "set_conn k b (set_conn k a srv) = set_conn k b srv" for k a b by (simp add: set_conn_def)
  then show ?thesis using assms by (simp add: accepted_def Let_def)
qed

lemma login_slot_cases:
  assumes "login_slot N S J now fd addr shm g i req login h rsp srv e = Some (ok (fd1, srv1), e1)"
    and "k = conns (grps_of shm srv ! g) ! i" and "k < length (conn_pool srv)"
  obtains (refused) evs c1 where "fd1 = fd" "srv1 = (set_conn k c1 srv)\<lparr>events := evs\<rparr>"
      "conn_kept (conn_pool srv ! k) c1"
  | (accepted) c1 where "fd1 = -1" "accepted N S now fd addr shm g i c1 srv srv1 e1"
      "conn_kept (conn_pool srv ! k) c1"
proof -
  obtain err c1 e2 where o: "tconn_OpenFile N (s_conf S) (use_shm login \<noteq> 0) (conn_pool srv ! k) e = ((err, c1), e2)"
    by (metis prod.exhaust)
  have k1: "conn_kept (conn_pool srv ! k) c1" by (rule OpenFile_kept [OF o])
  have at: "conn_pool (set_conn k c srv) ! k = c" for c using assms(3) by (simp add: set_conn_def)
  have chk: thesis
    if "login_check N S J now fd addr shm g i k h rsp lseq rseq (set_conn k c srv) e2 = Some (ok (fd1, srv1), e1)"
      and kept: "conn_kept (conn_pool srv ! k) c" for lseq rseq c
  proof (rule login_check_cases [OF that(1)])
    show "k = conns (grps_of shm (set_conn k c srv) ! g) ! i" using assms(2) by simp
  next
    fix evs
    assume "fd1 = fd" "srv1 = (set_conn k c srv)\<lparr>events := evs\<rparr>"
    then show thesis using refused kept by (simp add: set_conn_def)
  next
    assume "fd1 = - 1" "accepted N S now fd addr shm g i (conn_pool (set_conn k c srv) ! k) (set_conn k c srv) srv1 e1"
    then show thesis
      using accepted [OF _ accepted_set_conn [of N S now fd addr shm g i c srv c]] at assms(2) kept by simp
  qed
  show thesis
  proof (cases err)
    case (Some x)
    obtain m er where x: "x = (m, er)" by (cases x)
    then have "fd1 = fd \<and> (\<exists>evs. srv1 = (set_conn k c1 srv)\<lparr>events := evs\<rparr>)"
      using assms(1,2) o Some by (auto simp: login_slot_def refuse_def emit_def set_conn_def Let_def)
    then show thesis using refused k1 by blast
  next
    case None
    show thesis
    proof (cases "strncmp_eq (last_server_name login) (srv_name srv) (NameSize (s_conf S))")
      case False
      then obtain c2 where c2: "tconn_Reset c1 = ok c2"
        and lc: "login_check N S J now fd addr shm g i k h rsp (0, 0, 0) (0, 0, 0) (set_conn k c2 srv) e2 = Some (ok (fd1, srv1), e1)"
        using assms(1,2) o None by (auto simp: login_slot_def Let_def split: sum.splits)
      from chk [OF lc conn_kept_trans [OF k1 Reset_kept [OF c2]]] show thesis .
    next
      case True
      then obtain r where r: "tconn_GetSeq (s_conf S) (0, 0, 0) c1 = Some (ok r)"
        using assms(1,2) o None by (auto simp: login_slot_def Let_def split: option.splits sum.splits)
      show thesis
      proof (cases r)
        case (Inl x)
        obtain m er where x: "x = (m, er)" by (cases x)
        then have "fd1 = fd \<and> (\<exists>evs. srv1 = (set_conn k c1 srv)\<lparr>events := evs\<rparr>)"
          using assms(1,2) o None True r Inl by (auto simp: login_slot_def refuse_def emit_def set_conn_def Let_def)
        then show thesis using refused k1 by blast
      next
        case (Inr lseq)
        then have "login_check N S J now fd addr shm g i k h rsp lseq
            (ack_seq req, client_seq_start login, client_seq_end login) (set_conn k c1 srv) e2 = Some (ok (fd1, srv1), e1)"
          using assms(1,2) o None True r by (simp add: login_slot_def Let_def)
        from chk [OF this k1] show thesis .
      qed
    qed
  qed
qed

section \<open>The server as slots\<close>

definition slots_of :: "server \<Rightarrow> slots" where
  "slots_of srv = (shm_grps srv @ tcp_grps srv, conn_pool srv)"

definition grp_idx :: "bool \<Rightarrow> server \<Rightarrow> nat \<Rightarrow> nat" where
  "grp_idx shm srv g = (if shm then g else length (shm_grps srv) + g)"

lemma nth_grp_idx:
  "g < length (grps_of shm srv) \<Longrightarrow> (shm_grps srv @ tcp_grps srv) ! grp_idx shm srv g = grps_of shm srv ! g"
  by (simp add: grp_idx_def grps_of_def nth_append split: if_splits)

lemma grp_idx_less:
  "g < length (grps_of shm srv) \<Longrightarrow> grp_idx shm srv g < length (shm_grps srv @ tcp_grps srv)"
  by (simp add: grp_idx_def grps_of_def split: if_splits)

lemma slots_of_upd:
  "g < length (grps_of shm srv) \<Longrightarrow>
     slots_of (set_grp shm g G (set_conn k c srv)) =
       ((shm_grps srv @ tcp_grps srv)[grp_idx shm srv g := G], (conn_pool srv)[k := c])"
  by (simp add: slots_of_def set_grp_def set_conn_def grp_idx_def grps_of_def list_update_append split: if_splits)

lemma slots_of_emit [simp]:
  "slots_of (emit ev srv) = slots_of srv" "slots_of (srv\<lparr>events := evs\<rparr>) = slots_of srv"
  by (simp_all add: slots_of_def emit_def)

lemma slots_of_set_conn: "slots_of (set_conn k c srv) = (shm_grps srv @ tcp_grps srv, (conn_pool srv)[k := c])"
  by (simp add: slots_of_def set_conn_def)

lemma slots_of_quiet:
  "k < length (conn_pool srv) \<Longrightarrow> conn_kept (conn_pool srv ! k) c \<Longrightarrow>
     slot_move (slots_of srv) (slots_of (set_conn k c srv))"
  unfolding slots_of_set_conn unfolding slots_of_def by (rule slot_move.quiet)

text \<open>What the operations on connections leave alone.\<close>

definition same_front :: "server \<Rightarrow> server \<Rightarrow> bool" where
  "same_front srv srv1 \<longleftrightarrow>
     srv_name srv1 = srv_name srv \<and> srv_dir srv1 = srv_dir srv \<and> listenfd srv1 = listenfd srv \<and>
     new_conns srv1 = new_conns srv \<and> avail_idx srv1 = avail_idx srv \<and>
     length (shm_grps srv1) = length (shm_grps srv) \<and> length (tcp_grps srv1) = length (tcp_grps srv)"

lemma same_front_refl [simp]: "same_front srv srv"
  by (simp add: same_front_def)

lemma same_front_trans: "same_front a b \<Longrightarrow> same_front b c \<Longrightarrow> same_front a c"
  by (simp add: same_front_def)

lemma same_front_upd [simp]:
  "same_front srv (set_conn k c srv)" "same_front srv (set_grp shm g G srv)" "same_front srv (emit ev srv)"
  "same_front srv (srv\<lparr>events := evs\<rparr>)" "same_front srv (srv\<lparr>conn_pool := pool\<rparr>)"
  by (simp_all add: same_front_def set_conn_def set_grp_def emit_def)

lemma members_wf:
  assumes "slots_inv caps n (slots_of srv)" "g < length (grps_of shm srv)" "k \<in> set (conns (grps_of shm srv ! g))"
  shows "k < length (conn_pool srv)" and "length (remote_name (conn_pool srv ! k)) = n"
proof -
  have wf: "slots_wf caps n (shm_grps srv @ tcp_grps srv, conn_pool srv)"
    using assms(1) by (simp add: slots_inv_def slots_of_def)
  show k: "k < length (conn_pool srv)"
    using slots_wfD(3) [OF wf grp_idx_less [OF assms(2)]] nth_grp_idx [OF assms(2)] assms(3) by simp
  show "length (remote_name (conn_pool srv ! k)) = n" by (rule slots_wfD(5) [OF wf k])
qed

lemma reserve_moves:
  assumes inv: "slots_inv caps n (slots_of srv)" and g: "g < length (grps_of shm srv)"
    and "name_wf n nm" "c_str nm \<noteq> []" and G: "G = grps_of shm srv ! g"
    and j: "j = slot_of (c_str nm) (conns G) (conn_pool srv)" "j < length (conns G)"
  shows "slot_move\<^sup>*\<^sup>* (slots_of srv) (slots_of (srv\<lparr>conn_pool := reserve n nm (conns G ! j) (conn_pool srv)\<rparr>))"
    and "peer (reserve n nm (conns G ! j) (conn_pool srv) ! (conns G ! j)) = c_str nm"
    and "ptcp_conn (reserve n nm (conns G ! j) (conn_pool srv) ! k) = ptcp_conn (conn_pool srv ! k)"
    and "length (reserve n nm (conns G ! j) (conn_pool srv)) = length (conn_pool srv)"
proof -
  let ?k = "conns G ! j" and ?pool = "conn_pool srv"
  let ?r = "strncpy (remote_name (?pool ! ?k)) nm n"
  have k: "?k < length ?pool" "length (remote_name (?pool ! ?k)) = n"
    using members_wf [OF inv g, of ?k] j(2) G by simp_all
  have r: "c_str ?r = c_str nm" "length ?r = n"
    using k assms(3) by (simp_all add: c_str_strncpy name_wf_def)
  have at: "peer (?pool ! ?k) \<in> {[], c_str nm}" using slot_of_at j by blast
  show "peer (reserve n nm ?k ?pool ! ?k) = c_str nm"
    using at k r by (auto simp: reserve_def)
  show "ptcp_conn (reserve n nm ?k ?pool ! k) = ptcp_conn (?pool ! k)"
    by (simp add: reserve_def nth_upd)
  show "length (reserve n nm ?k ?pool) = length ?pool" by (simp add: reserve_def)
  show "slot_move\<^sup>*\<^sup>* (slots_of srv) (slots_of (srv\<lparr>conn_pool := reserve n nm ?k ?pool\<rparr>))"
  proof (cases "peer (?pool ! ?k) = []")
    case False
    then show ?thesis by (simp add: reserve_def)
  next
    case True
    let ?gs = "shm_grps srv @ tcp_grps srv"
    have "slot_move (?gs, ?pool) (?gs, ?pool[?k := (?pool ! ?k)\<lparr>remote_name := ?r\<rparr>])"
      by (rule slot_move.claim [where g = "grp_idx shm srv g" and i = j and nm = "c_str nm"])
         (use grp_idx_less [OF g] nth_grp_idx [OF g] G j True slot_of_before assms(4) r k in auto)
    then show ?thesis using True by (simp add: reserve_def slots_of_def)
  qed
qed

lemma accepted_moves:
  assumes inv: "slots_inv caps n (slots_of srv)" and g: "g < length (grps_of shm srv)"
    and G: "G = grps_of shm srv ! g" and i: "live_cnt G \<le> i" "i < length (conns G)"
    and nm: "peer (conn_pool srv ! (conns G ! i)) \<noteq> []" and kept: "conn_kept (conn_pool srv ! (conns G ! i)) c1"
    and fd: "0 \<le> fd" and acc: "accepted N S now fd addr shm g i c1 srv srv1 e1"
  shows "slot_move (slots_of srv) (slots_of srv1)" and "same_front srv srv1"
    and "own_fd (conn_pool srv1 ! (conns G ! i)) = fd"
    and "remote_name (conn_pool srv1 ! (conns G ! i)) = remote_name (conn_pool srv ! (conns G ! i))"
    and "grps_of shm srv1 ! g = gone_live G i"
proof -
  let ?k = "conns G ! i" and ?gs = "shm_grps srv @ tcp_grps srv"
  obtain ra c e where o: "tconn_Open N (s_conf S) fd ra now c1 e = Some (ok c, e1)"
      and s1: "srv1 = emit (OnClientLogon addr ?k) (set_grp shm g (gone_live G i) (set_conn ?k c srv))"
    using acc unfolding accepted_def Let_def G [symmetric] by blast
  note O = Open_sock [OF o]
  have k: "?k < length (conn_pool srv)" using members_wf [OF inv g, of ?k] i(2) G by simp
  have rn: "remote_name c = remote_name (conn_pool srv ! ?k)" using O(2) kept by (simp add: conn_kept_def)
  have "slot_move (?gs, conn_pool srv) (?gs[grp_idx shm srv g := gone_live G i], (conn_pool srv)[?k := c])"
    by (rule slot_move.logon [where i = i])
       (use grp_idx_less [OF g] nth_grp_idx [OF g] G i nm rn O(3) fd in \<open>auto simp: gone_live_def\<close>)
  then show "slot_move (slots_of srv) (slots_of srv1)"
    unfolding s1 slots_of_emit slots_of_upd [OF g] by (simp add: slots_of_def)
  show "same_front srv srv1" by (simp add: s1 same_front_def emit_def set_grp_def set_conn_def)
  have p: "conn_pool srv1 = (conn_pool srv)[?k := c]" by (simp add: s1 emit_def set_grp_def set_conn_def)
  show "own_fd (conn_pool srv1 ! ?k) = fd" "remote_name (conn_pool srv1 ! ?k) = remote_name (conn_pool srv ! ?k)"
    using k rn O(3) by (simp_all add: p)
  show "grps_of shm srv1 ! g = gone_live G i"
    using g by (simp add: s1 emit_def set_grp_def set_conn_def grps_of_def split: if_splits)
qed

lemma slots_move_inv: "slot_move\<^sup>*\<^sup>* s t \<Longrightarrow> slots_inv caps n s \<Longrightarrow> slots_inv caps n t"
  by (rule slots.inv_steps)

text \<open>
  A login ends in one of two ways.  Refused: the caller still has the descriptor, no group
  changes, and the only changes to the slots are moves.  Accepted: the slot of the client
  has gone live with the descriptor.
\<close>

lemma HandleLogin_cases:
  assumes inv: "slots_inv caps n (slots_of srv)" and n: "n = NameSize (s_conf S)" "1 < n"
    and login: "length (client_name login) = n" and fd: "0 \<le> fd"
    and run: "HandleLogin N S app J now fd addr shm req login srv e = Some (ok (fd1, srv1), e1)"
  obtains (refused) "fd1 = fd" "slot_move\<^sup>*\<^sup>* (slots_of srv) (slots_of srv1)" "same_front srv srv1"
      "shm_grps srv1 = shm_grps srv" "tcp_grps srv1 = tcp_grps srv"
  | (accepted) G g i pool c1 nm where "fd1 = -1" "slot_move\<^sup>*\<^sup>* (slots_of srv) (slots_of srv1)" "same_front srv srv1"
      "g < length (grps_of shm srv)" "G = grps_of shm srv ! g" "live_cnt G \<le> i" "i < length (conns G)"
      "nm = (client_name login)[n - 1 := NUL]" "c_str nm \<noteq> []" "i = slot_of (c_str nm) (conns G) (conn_pool srv)"
      "pool = reserve n nm (conns G ! i) (conn_pool srv)"
      "accepted N S now fd addr shm g i c1 (srv\<lparr>conn_pool := pool\<rparr>) srv1 e1"
      "peer (conn_pool srv1 ! (conns G ! i)) = c_str nm" "own_fd (conn_pool srv1 ! (conns G ! i)) = fd"
      "grps_of shm srv1 ! g = gone_live G i"
proof -
  note defs = HandleLogin_def refuse_def Let_def
  define nm where "nm = (client_name login)[n - 1 := NUL]"
  have nmw: "name_wf n nm" unfolding nm_def by (rule name_wf_terminated) (use login n in auto)
  have quick: thesis if "fd1 = fd" "srv1 = srv"
    using refused that by simp
  show thesis
  proof (cases "client_name login ! 0 = NUL")
    case True
    then have "fd1 = fd" "srv1 = srv" using run by (simp_all add: defs)
    then show thesis by (rule quick)
  next
    case named: False
    have nmne: "c_str nm \<noteq> []" unfolding nm_def by (rule c_str_terminated) (use login n named in auto)
    define login1 where "login1 = login\<lparr>client_name := nm\<rparr>"
    define h0 where "h0 = ConvertByteOrder (c_order (s_conf S))
                \<lparr>hdr_size = of_nat (8 + sizeof_LoginRspMsg (RspUserDataSize S) n), msg_type = LoginRspMsg_type, ack_seq = junk_ack J\<rparr>"
    define rsp0 where "rsp0 = (junk_rsp J)
                \<lparr>server_name := strncpy (server_name (junk_rsp J)) (srv_name srv) n, status := 2,
                 error_msg := (error_msg (junk_rsp J))[0 := NUL]\<rparr>"
    obtain gid rsp e2 where on: "OnNewConnection app addr login1 rsp0 e = ((gid, rsp), e2)"
      by (metis prod.exhaust)
    have cn: "client_name (login\<lparr>client_name := x\<rparr>) = x" for x by simp
    have run1: "(if gid < 0 then
                  refuse N S J fd h0
                    (if error_msg rsp ! 0 = NUL then set_error rsp ''Login Reject'' else rsp) srv e2
                else if length (grps_of shm srv) \<le> nat gid then Some (Inl OutOfBounds, e2)
                else
                  let G = grps_of shm srv ! nat gid in
                  (case find_slot n nm (conns G) 0 (conn_pool srv) of
                     (None, pool) \<Rightarrow>
                       refuse N S J fd h0 (set_error rsp ''Max client cnt exceeded'')
                         (srv\<lparr>conn_pool := pool\<rparr>) e2
                   | (Some i, pool) \<Rightarrow>
                       if i < live_cnt G
                       then refuse N S J fd h0 (set_error rsp ''Already loggned on'')
                              (srv\<lparr>conn_pool := pool\<rparr>) e2
                       else login_slot N S J now fd addr shm (nat gid) i req login1 h0 rsp
                              (srv\<lparr>conn_pool := pool\<rparr>) e2)) = Some (ok (fd1, srv1), e1)"
      using run named on unfolding HandleLogin_def Let_def login1_def nm_def h0_def rsp0_def cn n(1) by simp
    show thesis
    proof (cases "gid < 0")
      case True
      then have "fd1 = fd" "srv1 = srv" using run1 by (simp_all add: refuse_def)
      then show thesis by (rule quick)
    next
      case False
      define g where "g = nat gid"
      have g: "g < length (grps_of shm srv)" using run1 False by (auto simp: g_def split: if_splits)
      define G where "G = grps_of shm srv ! g"
      define i where "i = slot_of (c_str nm) (conns G) (conn_pool srv)"
      have fs: "find_slot n nm (conns G) 0 (conn_pool srv) =
          (if i < length (conns G) then (Some i, reserve n nm (conns G ! i) (conn_pool srv)) else (None, conn_pool srv))"
        unfolding i_def by (subst find_slot_ref [OF nmw nmne]) (use members_wf [OF inv g] in \<open>auto simp: G_def Let_def\<close>)
      show thesis
      proof (cases "i < length (conns G)")
        case False
        then have "fd1 = fd" "srv1 = srv"
          using run1 \<open>\<not> gid < 0\<close> g fs by (simp_all add: refuse_def g_def [symmetric] G_def [symmetric])
        then show thesis by (rule quick)
      next
        case i: True
        define pool where "pool = reserve n nm (conns G ! i) (conn_pool srv)"
        let ?srv = "srv\<lparr>conn_pool := pool\<rparr>"
        note R = reserve_moves [OF inv g nmw nmne G_def i_def i, folded pool_def]
        have inv1: "slots_inv caps n (slots_of ?srv)" by (rule slots_move_inv [OF R(1) inv])
        have gs: "grps_of shm ?srv = grps_of shm srv" by (simp add: grps_of_def)
        show thesis
        proof (cases "i < live_cnt G")
          case True
          then have "fd1 = fd" "srv1 = ?srv"
            using run1 \<open>\<not> gid < 0\<close> g fs i by (simp_all add: refuse_def g_def [symmetric] G_def [symmetric] pool_def)
          then show thesis using refused R(1) by simp
        next
          case notlive: False
          have ls: "login_slot N S J now fd addr shm g i req login1 h0 rsp ?srv e2 = Some (ok (fd1, srv1), e1)"
            using run1 \<open>\<not> gid < 0\<close> g fs i notlive by (simp add: g_def [symmetric] G_def [symmetric] pool_def)
          have k: "conns G ! i < length (conn_pool ?srv)"
            using members_wf(1) [OF inv1, of g shm "conns G ! i"] g gs i by (simp add: G_def)
          show thesis
          proof (rule login_slot_cases [OF ls _ k])
            show "conns G ! i = conns (grps_of shm ?srv ! g) ! i" by (simp add: gs G_def)
          next
            fix evs c1
            assume "fd1 = fd" and s1: "srv1 = (set_conn (conns G ! i) c1 ?srv)\<lparr>events := evs\<rparr>"
              and kept: "conn_kept (conn_pool ?srv ! (conns G ! i)) c1"
            have "slot_move\<^sup>*\<^sup>* (slots_of srv) (slots_of srv1)"
              using R(1) slots_of_quiet [OF k kept] by (simp add: s1)
            then show thesis using refused \<open>fd1 = fd\<close> by (simp add: s1 same_front_def set_conn_def)
          next
            fix c1
            assume "fd1 = -1" and acc: "accepted N S now fd addr shm g i c1 ?srv srv1 e1"
              and kept: "conn_kept (conn_pool ?srv ! (conns G ! i)) c1"
            have "g < length (grps_of shm ?srv)" "G = grps_of shm ?srv ! g" "live_cnt G \<le> i"
              "peer (conn_pool ?srv ! (conns G ! i)) \<noteq> []"
              using g gs notlive R(2) nmne by (simp_all add: G_def)
            note A = accepted_moves [OF inv1 this(1-3) i this(4) kept fd acc]
            have "slot_move\<^sup>*\<^sup>* (slots_of srv) (slots_of srv1)" using R(1) A(1) by simp
            moreover have "same_front srv srv1"
              by (rule same_front_trans [OF _ A(2)]) simp
            ultimately show thesis
              using accepted [OF \<open>fd1 = -1\<close> _ _ g G_def _ i nm_def nmne i_def pool_def acc] A(3-5) R(2) notlive by simp
          qed
        qed
      qed
    qed
  qed
qed

section \<open>The invariant of the server\<close>

text \<open>
  Besides the slots: the entry the next connection will be accepted into is free, so no
  descriptor is overwritten.
\<close>

definition front_ok :: "sconf \<Rightarrow> server \<Rightarrow> bool" where
  "front_ok S srv \<longleftrightarrow>
     length (new_conns srv) = MaxNewConnections S \<and> avail_idx srv \<le> MaxNewConnections S \<and>
     (avail_idx srv < MaxNewConnections S \<longrightarrow> nc_fd (new_conns srv ! avail_idx srv) < 0)"

definition caps_of :: "sconf \<Rightarrow> nat list" where
  "caps_of S = replicate (MaxShmGrps S) (MaxShmConnsPerGrp S) @ replicate (MaxTcpGrps S) (MaxTcpConnsPerGrp S)"

definition grps_ok :: "sconf \<Rightarrow> server \<Rightarrow> bool" where
  "grps_ok S srv \<longleftrightarrow>
     length (shm_grps srv) = MaxShmGrps S \<and> length (tcp_grps srv) = MaxTcpGrps S \<and>
     slots_inv (caps_of S) (NameSize (s_conf S)) (slots_of srv)"

definition srv_inv :: "sconf \<Rightarrow> server \<Rightarrow> bool" where
  "srv_inv S srv \<longleftrightarrow> grps_ok S srv \<and> front_ok S srv"

text \<open>The user's part: a reaction to a message uses the connection and does not reopen it.\<close>

definition app_ok :: "'e server_app \<Rightarrow> bool" where
  "app_ok app \<longleftrightarrow>
     (\<forall>p c e c1 e1. OnClientMsg app p c e = Some (ok c1, e1) \<longrightarrow> conn_kept c c1)"

lemma front_ok_cong: "same_front srv srv1 \<Longrightarrow> front_ok S srv1 = front_ok S srv"
  by (simp add: same_front_def front_ok_def)

lemma grps_ok_moves:
  "grps_ok S srv \<Longrightarrow> same_front srv srv1 \<Longrightarrow> slot_move\<^sup>*\<^sup>* (slots_of srv) (slots_of srv1) \<Longrightarrow> grps_ok S srv1"
  using slots_move_inv by (auto simp: grps_ok_def same_front_def)

lemma grps_ok_same:
  "grps_ok S srv \<Longrightarrow> shm_grps srv1 = shm_grps srv \<Longrightarrow> tcp_grps srv1 = tcp_grps srv \<Longrightarrow>
     conn_pool srv1 = conn_pool srv \<Longrightarrow> grps_ok S srv1"
  by (simp add: grps_ok_def slots_of_def)

lemma each_inv:
  assumes "each f is s e = Some (ok s1, e1)" "P s"
    and "\<And>i s e s1 e1. i \<in> set is \<Longrightarrow> P s \<Longrightarrow> f i s e = Some (ok s1, e1) \<Longrightarrow> P s1"
  shows "P s1"
  using assms
proof (induction "is" arbitrary: s e)
  case (Cons i "is")
  obtain s2 e2 where "f i s e = Some (ok s2, e2)" "each f is s2 e2 = Some (ok s1, e1)"
    using Cons.prems(1) by (auto simp: and_then_def split: option.splits sum.splits prod.splits)
  then show ?case using Cons.IH Cons.prems by (metis list.set_intros)
qed simp

text \<open>One step of the server: the invariant again, and moves of the slots.\<close>

definition moved :: "sconf \<Rightarrow> server \<Rightarrow> server \<Rightarrow> bool" where
  "moved S srv srv1 \<longleftrightarrow> srv_inv S srv1 \<and> slot_move\<^sup>*\<^sup>* (slots_of srv) (slots_of srv1)"

lemma moved_refl: "srv_inv S srv \<Longrightarrow> moved S srv srv"
  by (simp add: moved_def)

lemma moved_trans: "moved S a b \<Longrightarrow> moved S b c \<Longrightarrow> moved S a c"
  by (auto simp: moved_def)

lemma moved_inv: "moved S srv srv1 \<Longrightarrow> srv_inv S srv1"
  by (simp add: moved_def)

lemma accept_new_moved:
  assumes "srv_inv S srv" "accept_new N S now srv e = (srv1, e1)"
  shows "moved S srv srv1"
proof -
  have g: "grps_ok S srv" and f: "front_ok S srv" using assms(1) by (simp_all add: srv_inv_def)
  have "grps_ok S srv1"
    by (rule grps_ok_same [OF g])
       (use assms(2) in \<open>auto simp: accept_new_def Let_def split: if_splits prod.splits sum.splits\<close>)
  moreover have "front_ok S srv1"
    using assms(2) f
    by (auto simp: accept_new_def Let_def front_ok_def nth_upd split: if_splits prod.splits sum.splits)
  moreover have "slots_of srv1 = slots_of srv"
    using assms(2) by (auto simp: accept_new_def Let_def slots_of_def split: if_splits prod.splits sum.splits)
  ultimately show ?thesis by (simp add: srv_inv_def moved_def)
qed

lemma round_to_ge: "x \<le> round_to 4 x"
  by (simp add: round_to_def)

lemma decode_login_name:
  assumes "decode_login S bs = Some (h, login)"
  shows "length (client_name login) = NameSize (s_conf S)"
proof -
  let ?U = "UserDataSize S" and ?n = "NameSize (s_conf S)"
  have "9 + ?U + 2 * ?n \<le> sizeof_LoginMsg ?U ?n"
    using round_to_ge [of "8 + ?U + 1 + 2 * ?n"] by (simp add: sizeof_LoginMsg_def)
  moreover have "8 + sizeof_LoginMsg ?U ?n \<le> length bs"
    using assms by (auto simp: decode_login_def msg_len_def sizeof_buf_def Let_def split: if_splits)
  ultimately have "length (client_name (load_login E ?U ?n (drop 8 bs))) = ?n" for E
    by (simp add: load_login_def)
  then show ?thesis
    using assms by (auto simp: decode_login_def LoginMsg_ConvertByteOrder_def Let_def split: if_splits)
qed

lemma close_entry_moved:
  assumes "grps_ok S srv" "length (new_conns srv) = MaxNewConnections S" "i < MaxNewConnections S"
    "close_entry N i fd srv e = (srv1, e1)"
  shows "moved S srv srv1"
proof -
  have "grps_ok S srv1" by (rule grps_ok_same [OF assms(1)]) (use assms(4) in \<open>auto simp: close_entry_def\<close>)
  moreover have "slots_of srv1 = slots_of srv" using assms(4) by (auto simp: close_entry_def slots_of_def)
  ultimately show ?thesis
    using assms by (auto simp: close_entry_def srv_inv_def front_ok_def moved_def)
qed

lemma visit_entry_moved:
  assumes inv: "srv_inv S srv" and i: "i < MaxNewConnections S" and n: "1 < NameSize (s_conf S)"
    and run: "visit_entry N S app J now i srv e = Some (ok srv1, e1)"
  shows "moved S srv srv1"
proof -
  have g: "grps_ok S srv" and f: "front_ok S srv" using inv by (simp_all add: srv_inv_def)
  have len: "length (new_conns srv) = MaxNewConnections S" using f by (simp add: front_ok_def)
  define fd where "fd = nc_fd (new_conns srv ! i)"
  define addr where "addr = nc_addr (new_conns srv ! i)"
  note ce = close_entry_moved [OF g len i]
  show ?thesis
  proof (cases "fd < 0")
    case True
    then have "srv1 = srv\<lparr>avail_idx := i\<rparr>" using run by (simp add: visit_entry_def fd_def Let_def)
    then show ?thesis
      using True grps_ok_same [OF g, of srv1] f i by (simp add: srv_inv_def front_ok_def fd_def moved_def slots_of_def)
  next
    case open_fd: False
    obtain r e2 where rd: "os_read N fd (msg_len S) e = (r, e2)" by fastforce
    show ?thesis
    proof (cases r)
      case (Inl err)
      then show ?thesis
        using run open_fd rd ce moved_refl [OF inv]
        by (auto simp: visit_entry_def fd_def [symmetric] Let_def split: if_splits prod.splits)
    next
      case (Inr bs)
      show ?thesis
      proof (cases "decode_login S bs")
        case None
        then show ?thesis
          using run open_fd rd Inr ce
          by (auto simp: visit_entry_def fd_def [symmetric] Let_def split: prod.splits)
      next
        case (Some hl)
        obtain h login where hl: "hl = (h, login)" by (cases hl)
        obtain res e3 where res: "HandleLogin N S app J now fd addr (use_shm login \<noteq> 0) h login srv e2 = Some (res, e3)"
          and run1: "(case res of Inl f \<Rightarrow> (Inl f, e3)
            | Inr (fd1, srv1) \<Rightarrow> (case close_entry N i fd1 srv1 e3 of (srv2, e3) \<Rightarrow> (ok srv2, e3))) = (ok srv1, e1)"
          using run open_fd rd Inr Some hl
          unfolding visit_entry_def fd_def [symmetric] addr_def [symmetric] Let_def by auto
        obtain fd1 srv2 where r2: "res = ok (fd1, srv2)" using run1 by (cases res) auto
        have h: "HandleLogin N S app J now fd addr (use_shm login \<noteq> 0) h login srv e2 = Some (ok (fd1, srv2), e3)"
          using res r2 by simp
        have c: "close_entry N i fd1 srv2 e3 = (srv1, e1)" using run1 r2 by (auto split: prod.splits)
        have si: "slots_inv (caps_of S) (NameSize (s_conf S)) (slots_of srv)" using g by (simp add: grps_ok_def)
        have "slot_move\<^sup>*\<^sup>* (slots_of srv) (slots_of srv2) \<and> same_front srv srv2"
          by (rule HandleLogin_cases [OF si refl n _ _ h])
             (use decode_login_name Some hl open_fd in auto)
        then show ?thesis
          using close_entry_moved [OF _ _ i c] grps_ok_moves [OF g] len by (auto simp: same_front_def moved_def)
      qed
    qed
  qed
qed

text \<open>One live connection in the control loop.\<close>

lemma keep_alive_cases:
  assumes "keep_alive N S shm now c e = Some (ok (b, c2), e1)"
  shows "b \<Longrightarrow> remote_name c2 = remote_name c \<and> idle c2 \<and> sockfd (ptcp_conn c2) < 0"
    and "\<not> b \<Longrightarrow> conn_kept c c2 \<and> (sockfd (ptcp_conn c2) < 0 \<longrightarrow> own_fd c2 < 0)"
proof -
  obtain c1 e2 where c1: "conn_kept c c1" and t: "tconn_TryCloseFd N c1 e2 = (b, c2, e1)"
  proof (cases shm)
    case True
    obtain res e2 where tf: "TcpFront N (s_conf S) now c e = Some (res, e2)"
      using assms True by (auto simp: keep_alive_def)
    obtain p c1 where p: "res = ok (p, c1)" using assms True tf by (cases res) (auto simp: keep_alive_def)
    have "tconn_TryCloseFd N c1 e2 = (b, c2, e1)"
      using assms True tf p by (simp add: keep_alive_def split: prod.splits)
    moreover have "conn_kept c c1" using TcpFront_kept tf p by simp
    ultimately show thesis using that by simp
  next
    case False
    then have "tconn_TryCloseFd N c e = (b, c2, e1)"
      using assms by (simp add: keep_alive_def split: prod.splits)
    then show thesis using that by blast
  qed
  note T = TryCloseFd_cases [OF t]
  show "b \<Longrightarrow> remote_name c2 = remote_name c \<and> idle c2 \<and> sockfd (ptcp_conn c2) < 0"
    using T c1 by (simp add: idle_def conn_kept_def)
  show "\<not> b \<Longrightarrow> conn_kept c c2 \<and> (sockfd (ptcp_conn c2) < 0 \<longrightarrow> own_fd c2 < 0)"
    using T c1 by auto
qed

definition gone_off :: "grp \<Rightarrow> nat \<Rightarrow> grp" where
  "gone_off G i = G\<lparr>conns := swap (conns G) i (live_cnt G - 1), live_cnt := live_cnt G - 1\<rparr>"

lemma set_grp_simps [simp]:
  "conn_pool (set_grp shm g G srv) = conn_pool srv"
  "set_grp shm g H (set_grp shm g G srv) = set_grp shm g H srv"
  "length (grps_of shm (set_grp shm g G srv)) = length (grps_of shm srv)"
  "g < length (grps_of shm srv) \<Longrightarrow> grps_of shm (set_grp shm g G srv) ! g = G"
  "g < length (grps_of shm srv) \<Longrightarrow> set_grp shm g (grps_of shm srv ! g) srv = srv"
  by (auto simp: set_grp_def grps_of_def split: if_splits)

lemma set_grp_conn [simp]:
  "set_grp shm g G (set_conn k c srv) = set_conn k c (set_grp shm g G srv)"
  "set_grp shm g G (emit ev srv) = emit ev (set_grp shm g G srv)"
  "grps_of shm (emit ev srv) = grps_of shm srv" "conn_pool (emit ev srv) = conn_pool srv"
  "conn_pool (set_conn k c srv) = (conn_pool srv)[k := c]"
  by (simp_all add: set_grp_def set_conn_def emit_def grps_of_def)

lemma upd_front [simp]:
  "same_front srv (set_grp shm g G srv1) = same_front srv srv1"
  "same_front (set_grp shm g G srv) srv1 = same_front srv srv1"
  "same_front srv (set_conn k c srv1) = same_front srv srv1"
  "same_front (set_conn k c srv) srv1 = same_front srv srv1"
  "same_front srv (emit ev srv1) = same_front srv srv1"
  "same_front (emit ev srv) srv1 = same_front srv srv1"
  by (simp_all add: same_front_def set_grp_def set_conn_def emit_def)

lemma grps_ok_emit [simp]: "grps_ok S (emit ev srv) = grps_ok S srv"
  by (simp add: grps_ok_def emit_def slots_of_def)

lemma gone_off_move:
  assumes ok: "grps_ok S (set_grp shm g G srv)" and g: "g < length (grps_of shm srv)"
    and i: "i < live_cnt G" and c: "remote_name c = remote_name (conn_pool srv ! (conns G ! i))" "idle c"
  shows "slot_move (slots_of (set_grp shm g G srv)) (slots_of (set_grp shm g (gone_off G i) (set_conn (conns G ! i) c srv)))"
proof -
  let ?srv = "set_grp shm g G srv" and ?k = "conns G ! i"
  let ?gs = "shm_grps ?srv @ tcp_grps ?srv"
  have g': "g < length (grps_of shm ?srv)" using g by simp
  have "slot_move (?gs, conn_pool ?srv) (?gs[grp_idx shm ?srv g := gone_off G i], (conn_pool ?srv)[?k := c])"
    by (rule slot_move.logoff [where i = i])
       (use grp_idx_less [OF g'] nth_grp_idx [OF g'] g i c in \<open>auto simp: gone_off_def\<close>)
  moreover have "set_grp shm g (gone_off G i) (set_conn ?k c ?srv) = set_grp shm g (gone_off G i) (set_conn ?k c srv)"
    by (simp add: set_grp_def set_conn_def)
  ultimately show ?thesis
    using slots_of_upd [OF g', of "gone_off G i" ?k c] by (simp add: slots_of_def)
qed

text \<open>
  The loop over the live connections of one group: it keeps the invariant, and leaves no
  closed connection among the live ones.
\<close>

definition open_until :: "server \<Rightarrow> grp \<Rightarrow> nat \<Rightarrow> bool" where
  "open_until srv G i \<longleftrightarrow>
     (\<forall>j<i. sockfd (ptcp_conn (conn_pool srv ! (conns G ! j))) < 0 \<longrightarrow> own_fd (conn_pool srv ! (conns G ! j)) < 0)"

lemma grp_facts:
  assumes "grps_ok S srv" "g < length (grps_of shm srv)" "G = grps_of shm srv ! g"
  shows "distinct (conns G)" "live_cnt G \<le> length (conns G)"
    "\<And>j. j < length (conns G) \<Longrightarrow> conns G ! j < length (conn_pool srv)"
    "grp_ok (live_cnt G) (members (conn_pool srv) G)"
proof -
  have inv: "slots_wf (caps_of S) (NameSize (s_conf S)) (shm_grps srv @ tcp_grps srv, conn_pool srv)"
    "slots_ok (shm_grps srv @ tcp_grps srv, conn_pool srv)"
    using assms(1) by (simp_all add: grps_ok_def slots_inv_def slots_of_def)
  have at: "(shm_grps srv @ tcp_grps srv) ! grp_idx shm srv g = G" using nth_grp_idx [OF assms(2)] assms(3) by simp
  note lt = grp_idx_less [OF assms(2)]
  show "distinct (conns G)" "live_cnt G \<le> length (conns G)"
    using slots_wfD(1) [OF inv(1) lt] unfolding at by (simp_all add: grp_wf_def)
  show "j < length (conns G) \<Longrightarrow> conns G ! j < length (conn_pool srv)" for j
    using slots_wfD(3) [OF inv(1) lt, of "conns G ! j"] unfolding at by simp
  show "grp_ok (live_cnt G) (members (conn_pool srv) G)"
    using inv(2) lt at unfolding slots_ok_def prod.case list_all_length by metis
qed

definition only_grp :: "bool \<Rightarrow> nat \<Rightarrow> grp \<Rightarrow> server \<Rightarrow> server \<Rightarrow> bool" where
  "only_grp shm g G srv srv1 \<longleftrightarrow>
     (\<forall>k. k \<notin> set (conns G) \<longrightarrow> conn_pool srv1 ! k = conn_pool srv ! k) \<and>
     (\<forall>b h. (b, h) \<noteq> (shm, g) \<longrightarrow> grps_of b srv1 ! h = grps_of b srv ! h)"

lemma only_grp_set [simp]: "only_grp shm g G srv (set_grp shm g H srv)"
  by (auto simp: only_grp_def set_grp_def grps_of_def nth_upd)

lemma only_grp_step:
  assumes "only_grp shm g G2 (emit ev (set_conn k c srv)) srv1 \<or> only_grp shm g G2 (set_conn k c srv) srv1"
    and "set (conns G2) = set (conns G)" "k \<in> set (conns G)"
  shows "only_grp shm g G srv srv1"
  using assms by (auto simp: only_grp_def nth_upd)

lemma set_conns_gone_off:
  "i < live_cnt G \<Longrightarrow> live_cnt G \<le> length (conns G) \<Longrightarrow> set (conns (gone_off G i)) = set (conns G)"
  by (simp add: gone_off_def)

lemma poll_live_ok:
  assumes "poll_live N S shm now g i G srv e = Some (ok srv1, e1)"
    and "grps_ok S (set_grp shm g G srv)" "g < length (grps_of shm srv)" "i \<le> live_cnt G" "open_until srv G i"
  shows "grps_ok S srv1 \<and> same_front srv srv1 \<and> open_until srv1 (grps_of shm srv1 ! g) (live_cnt (grps_of shm srv1 ! g)) \<and>
    slot_move\<^sup>*\<^sup>* (slots_of (set_grp shm g G srv)) (slots_of srv1) \<and> only_grp shm g G srv srv1"
  using assms
proof (induction N S shm now g i G srv e rule: poll_live.induct)
  case (1 N S shm now g i G srv e)
  show ?case
  proof (cases "live_cnt G \<le> i")
    case True
    then have s1: "srv1 = set_grp shm g G srv" using 1(3) by (subst (asm) poll_live.simps) simp
    have "i = live_cnt G" using True 1(6) by simp
    then have "open_until srv1 (grps_of shm srv1 ! g) (live_cnt (grps_of shm srv1 ! g))"
      using 1(5,7) by (simp add: s1 open_until_def)
    then show ?thesis using 1(4) by (simp add: s1)
  next
    case False
    let ?k = "conns G ! i" and ?srv = "set_grp shm g G srv"
    have gl: "g < length (grps_of shm ?srv)" using 1(5) by simp
    note F = grp_facts [OF 1(4) gl, of G]
    have len: "i < length (conns G)" using F(2) False 1(5) by simp
    have k: "?k < length (conn_pool srv)" using F(3) [of i] len 1(5) by simp
    have dist: "conns G ! j \<noteq> ?k" if "j < length (conns G)" "j \<noteq> i" for j
      using F(1) that len 1(5) by (simp add: nth_eq_iff_index_eq)
    obtain b c e2 where ka: "keep_alive N S shm now (conn_pool srv ! ?k) e = Some (ok (b, c), e2)"
      using 1(3) False by (subst (asm) poll_live.simps) (auto simp: Let_def split: option.splits sum.splits)
    note K = keep_alive_cases [OF ka]
    show ?thesis
    proof (cases b)
      case True
      let ?ev = "case tconn_GetCloseReason c of (reason, err) \<Rightarrow> OnClientDisconnected ?k reason err"
      let ?srv2 = "emit ?ev (set_conn ?k c srv)"
      have run: "poll_live N S shm now g i (gone_off G i) ?srv2 e2 = Some (ok srv1, e1)"
        using 1(3) False ka True by (subst (asm) poll_live.simps) (simp add: Let_def gone_off_def)
      have mv: "slot_move (slots_of ?srv) (slots_of (set_grp shm g (gone_off G i) (set_conn ?k c srv)))"
        by (rule gone_off_move [OF 1(4,5)]) (use False K(1) True in auto)
      have mvs: "slot_move\<^sup>*\<^sup>* (slots_of ?srv) (slots_of (set_grp shm g (gone_off G i) (set_conn ?k c srv)))"
        using mv by (rule r_into_rtranclp)
      have ok2: "grps_ok S (set_grp shm g (gone_off G i) ?srv2)"
        using grps_ok_moves [OF 1(4) _ mvs] by (simp add: grps_ok_emit)
      have op: "open_until ?srv2 (gone_off G i) i"
        unfolding open_until_def
      proof (intro allI impI)
        fix j
        assume j: "j < i" and s: "sockfd (ptcp_conn (conn_pool ?srv2 ! (conns (gone_off G i) ! j))) < 0"
        have idx: "live_cnt G - 1 < length (conns G)" "j < length (conns G)" "i < length (conns G)"
          "j \<noteq> live_cnt G - 1" "j \<noteq> i"
          using j False len F(2) 1(5) by auto
        have "conns (gone_off G i) ! j = conns G ! j"
          using idx by (simp add: gone_off_def nth_swap)
        moreover have "conns G ! j \<noteq> ?k" using dist [of j] j len by simp
        ultimately show "own_fd (conn_pool ?srv2 ! (conns (gone_off G i) ! j)) < 0"
          using 1(7) j s by (simp add: open_until_def)
      qed
      have IH: "grps_ok S srv1 \<and> same_front ?srv2 srv1 \<and>
          open_until srv1 (grps_of shm srv1 ! g) (live_cnt (grps_of shm srv1 ! g)) \<and>
          slot_move\<^sup>*\<^sup>* (slots_of (set_grp shm g (gone_off G i) ?srv2)) (slots_of srv1) \<and>
          only_grp shm g (gone_off G i) ?srv2 srv1"
        by (rule 1(1) [OF False refl ka refl refl refl, folded gone_off_def])
           (use run True ok2 op 1(5) False in \<open>auto simp: gone_off_def\<close>)
      have "only_grp shm g G srv srv1"
        by (rule only_grp_step [OF disjI1 set_conns_gone_off]) (use IH F(2) False len 1(5) in \<open>blast | simp\<close>)+
      with IH show ?thesis
        using rtranclp_trans [OF mvs] by (auto intro: same_front_trans)
    next
      case nb: False
      let ?srv2 = "set_conn ?k c srv"
      have run: "poll_live N S shm now g (Suc i) G ?srv2 e2 = Some (ok srv1, e1)"
        using 1(3) False ka nb by (subst (asm) poll_live.simps) (simp add: Let_def)
      have mv: "slot_move (slots_of ?srv) (slots_of (set_grp shm g G ?srv2))"
        using slots_of_quiet [of ?k ?srv c] k K(2) nb by simp
      have mvs: "slot_move\<^sup>*\<^sup>* (slots_of ?srv) (slots_of (set_grp shm g G ?srv2))"
        using mv by (rule r_into_rtranclp)
      have ok2: "grps_ok S (set_grp shm g G ?srv2)"
        by (rule grps_ok_moves [OF 1(4) _ mvs]) simp
      have op: "open_until ?srv2 G (Suc i)"
        unfolding open_until_def
      proof (intro allI impI)
        fix j
        assume j: "j < Suc i" and s: "sockfd (ptcp_conn (conn_pool ?srv2 ! (conns G ! j))) < 0"
        show "own_fd (conn_pool ?srv2 ! (conns G ! j)) < 0"
        proof (cases "j = i")
          case True
          then show ?thesis using s K(2) nb k by simp
        next
          case False
          then have "conns G ! j \<noteq> ?k" using dist [of j] j len by simp
          then show ?thesis using 1(7) j s False by (simp add: open_until_def)
        qed
      qed
      have IH: "grps_ok S srv1 \<and> same_front ?srv2 srv1 \<and>
          open_until srv1 (grps_of shm srv1 ! g) (live_cnt (grps_of shm srv1 ! g)) \<and>
          slot_move\<^sup>*\<^sup>* (slots_of (set_grp shm g G ?srv2)) (slots_of srv1) \<and> only_grp shm g G ?srv2 srv1"
        by (rule 1(2) [OF False refl ka refl refl refl])
           (use run nb ok2 op 1(5) False in \<open>auto\<close>)
      have "only_grp shm g G srv srv1"
        by (rule only_grp_step [OF disjI2 refl]) (use IH len in \<open>blast | simp\<close>)+
      with IH show ?thesis
        using rtranclp_trans [OF mvs] by (auto intro: same_front_trans)
    qed
  qed
qed

section \<open>The operations keep the invariant\<close>

lemma caps_sel:
  "grps_ok S srv \<Longrightarrow> length (grps_of shm srv) = (if shm then MaxShmGrps S else MaxTcpGrps S)"
  by (simp add: grps_ok_def grps_of_def)

text \<open>A group none of whose live connections is closed.\<close>

definition grp_open :: "server \<Rightarrow> grp \<Rightarrow> bool" where
  "grp_open srv G \<longleftrightarrow> open_until srv G (live_cnt G)"

lemma groups_disjoint:
  assumes "grps_ok S srv" "g < length (grps_of shm srv)" "h < length (grps_of b srv)" "(b, h) \<noteq> (shm, g)"
    and "k \<in> set (conns (grps_of b srv ! h))"
  shows "k \<notin> set (conns (grps_of shm srv ! g))"
proof -
  have wf: "slots_wf (caps_of S) (NameSize (s_conf S)) (shm_grps srv @ tcp_grps srv, conn_pool srv)"
    using assms(1) by (simp add: grps_ok_def slots_inv_def slots_of_def)
  have "grp_idx b srv h \<noteq> grp_idx shm srv g"
    using assms(2-4) by (auto simp: grp_idx_def grps_of_def split: if_splits)
  then show ?thesis
    using slots_wfD(2) [OF wf grp_idx_less [OF assms(3)] grp_idx_less [OF assms(2)]] assms(5)
    unfolding nth_grp_idx [OF assms(2)] nth_grp_idx [OF assms(3)] by blast
qed

lemma poll_grp_ok:
  assumes "poll_live N S shm now g 0 (grps_of shm srv ! g) srv e = Some (ok srv1, e1)"
    and ok: "grps_ok S srv" and g: "g < length (grps_of shm srv)"
  shows "grps_ok S srv1 \<and> same_front srv srv1 \<and> slot_move\<^sup>*\<^sup>* (slots_of srv) (slots_of srv1) \<and>
    grp_open srv1 (grps_of shm srv1 ! g) \<and>
    (\<forall>b h. (b, h) \<noteq> (shm, g) \<longrightarrow> h < length (grps_of b srv) \<longrightarrow> grp_open srv (grps_of b srv ! h) \<longrightarrow>
       grp_open srv1 (grps_of b srv1 ! h))"
proof -
  let ?G = "grps_of shm srv ! g"
  have P: "grps_ok S srv1 \<and> same_front srv srv1 \<and>
      open_until srv1 (grps_of shm srv1 ! g) (live_cnt (grps_of shm srv1 ! g)) \<and>
      slot_move\<^sup>*\<^sup>* (slots_of (set_grp shm g ?G srv)) (slots_of srv1) \<and> only_grp shm g ?G srv srv1"
    by (rule poll_live_ok [OF assms(1)]) (use ok g in \<open>simp_all add: open_until_def\<close>)
  have "grp_open srv1 (grps_of b srv1 ! h)"
    if "(b, h) \<noteq> (shm, g)" "h < length (grps_of b srv)" "grp_open srv (grps_of b srv ! h)" for b h
  proof -
    let ?H = "grps_of b srv ! h"
    have eq: "grps_of b srv1 ! h = ?H" "\<And>k. k \<notin> set (conns ?G) \<Longrightarrow> conn_pool srv1 ! k = conn_pool srv ! k"
      using P that(1) by (auto simp: only_grp_def)
    have "conns ?H ! j \<notin> set (conns ?G)" if "j < live_cnt ?H" for j
      using groups_disjoint [OF ok g \<open>h < length (grps_of b srv)\<close> \<open>(b, h) \<noteq> (shm, g)\<close>]
        grp_facts(2) [OF ok \<open>h < length (grps_of b srv)\<close> refl] that by simp
    then show ?thesis using that(3) by (simp add: grp_open_def open_until_def eq)
  qed
  then show ?thesis using P g by (simp add: grp_open_def)
qed

definition all_open :: "server \<Rightarrow> bool" where
  "all_open srv \<longleftrightarrow> (\<forall>b g. g < length (grps_of b srv) \<longrightarrow> grp_open srv (grps_of b srv ! g))"

lemma each_upt:
  assumes "each f [a ..< n] s e = Some (ok s1, e1)" "a \<le> n" "P a s"
    and "\<And>i s e s1 e1. a \<le> i \<Longrightarrow> i < n \<Longrightarrow> P i s \<Longrightarrow> f i s e = Some (ok s1, e1) \<Longrightarrow> P (Suc i) s1"
  shows "P n s1"
  using assms
proof (induction "n - a" arbitrary: a s e)
  case 0
  then show ?case by simp
next
  case (Suc d)
  then have a: "a < n" by simp
  then obtain s2 e2 where f: "f a s e = Some (ok s2, e2)" and r: "each f [Suc a ..< n] s2 e2 = Some (ok s1, e1)"
    using Suc.prems(1) by (auto simp: upt_conv_Cons and_then_def split: option.splits sum.splits prod.splits)
  show ?case
  proof (rule Suc.hyps(1) [OF _ r])
    show "d = n - Suc a" "Suc a \<le> n" using Suc.hyps(2) a by simp_all
    show "P (Suc a) s2" using Suc.prems(3,4) a f by blast
    show "\<And>i s e s1 e1. Suc a \<le> i \<Longrightarrow> i < n \<Longrightarrow> P i s \<Longrightarrow> f i s e = Some (ok s1, e1) \<Longrightarrow> P (Suc i) s1"
      using Suc.prems(4) by (meson Suc_leD)
  qed
qed

lemma poll_grps_ok:
  assumes "each (\<lambda>g srv. poll_live N S shm now g 0 (grps_of shm srv ! g) srv) [0 ..< m] srv e = Some (ok srv1, e1)"
    and ok: "srv_inv S srv" and m: "m = length (grps_of shm srv)"
  shows "moved S srv srv1 \<and> (\<forall>g<m. grp_open srv1 (grps_of shm srv1 ! g)) \<and>
    (\<forall>h<length (grps_of (\<not> shm) srv). grp_open srv (grps_of (\<not> shm) srv ! h) \<longrightarrow> grp_open srv1 (grps_of (\<not> shm) srv1 ! h))"
proof -
  let ?P = "\<lambda>i t. moved S srv t \<and> same_front srv t \<and> (\<forall>g<i. grp_open t (grps_of shm t ! g)) \<and>
    (\<forall>h<length (grps_of (\<not> shm) srv). grp_open srv (grps_of (\<not> shm) srv ! h) \<longrightarrow> grp_open t (grps_of (\<not> shm) t ! h))"
  have "?P m srv1"
  proof (rule each_upt [OF assms(1), where P = ?P])
    fix i t e t1 e1
    assume i: "i < m" and P: "?P i t" and run: "poll_live N S shm now i 0 (grps_of shm t ! i) t e = Some (ok t1, e1)"
    have len: "length (grps_of b t) = length (grps_of b srv)" for b
      using P by (simp add: same_front_def grps_of_def)
    have il: "i < length (grps_of shm t)" using i m len by simp
    have okt: "grps_ok S t" using P by (simp add: srv_inv_def moved_def)
    note Q = poll_grp_ok [OF run okt il]
    note Q5 = Q [THEN conjunct2, THEN conjunct2, THEN conjunct2, THEN conjunct2, rule_format]
    have c1: "grp_open t1 (grps_of shm t1 ! g)" if "g < Suc i" for g
    proof (cases "g = i")
      case False
      then have "(shm, g) \<noteq> (shm, i)" "g < length (grps_of shm t)" "grp_open t (grps_of shm t ! g)" using that P il by auto
      then show ?thesis by (rule Q5)
    qed (use Q in simp)
    have c2: "grp_open t1 (grps_of (\<not> shm) t1 ! h)"
      if "h < length (grps_of (\<not> shm) srv)" "grp_open srv (grps_of (\<not> shm) srv ! h)" for h
    proof -
      have "((\<not> shm), h) \<noteq> (shm, i)" by simp
      moreover have "h < length (grps_of (\<not> shm) t)" unfolding len by (rule that(1))
      moreover have "grp_open t (grps_of (\<not> shm) t ! h)" using P that by simp
      ultimately show ?thesis by (rule Q5)
    qed
    have "moved S t t1" using P Q front_ok_cong [of t t1 S] by (simp add: srv_inv_def moved_def)
    then have c3: "moved S srv t1" using P moved_trans by blast
    have c4: "same_front srv t1" using P Q same_front_trans by blast
    show "?P (Suc i) t1" by (intro conjI allI impI c1 c2 c3 c4)
  qed (use ok moved_refl in simp_all)
  then show ?thesis by blast
qed

lemma PollCtl_ok:
  assumes inv: "srv_inv S srv" and n: "1 < NameSize (s_conf S)"
    and run: "PollCtl N S app J now srv e = Some (ok srv1, e1)"
  shows "moved S srv srv1 \<and> all_open srv1"
proof -
  obtain srv0 e0 where a: "accept_new N S now srv e = (srv0, e0)" by fastforce
  obtain srv2 e2 where v: "each (\<lambda>i. visit_entry N S app J now i) [0 ..< MaxNewConnections S] srv0 e0 = Some (ok srv2, e2)"
    using run a by (auto simp: PollCtl_def and_then_def split: option.splits sum.splits)
  have shm: "(\<lambda>g srv. poll_live N S True now g 0 (shm_grps srv ! g) srv) = (\<lambda>g srv. poll_live N S True now g 0 (grps_of True srv ! g) srv)"
    and tcp: "(\<lambda>g srv. poll_live N S False now g 0 (tcp_grps srv ! g) srv) = (\<lambda>g srv. poll_live N S False now g 0 (grps_of False srv ! g) srv)"
    by (simp_all add: grps_of_def)
  obtain srv3 e3 where
      s: "each (\<lambda>g srv. poll_live N S True now g 0 (grps_of True srv ! g) srv) [0 ..< MaxShmGrps S] srv2 e2 = Some (ok srv3, e3)"
    and t: "each (\<lambda>g srv. poll_live N S False now g 0 (grps_of False srv ! g) srv) [0 ..< MaxTcpGrps S] srv3 e3 = Some (ok srv1, e1)"
    using run a v unfolding shm [symmetric] tcp [symmetric]
    by (auto simp: PollCtl_def and_then_def split: option.splits sum.splits)
  have m2: "moved S srv srv2"
  proof (rule each_inv [OF v, where P = "moved S srv"])
    show "moved S srv srv0" by (rule accept_new_moved [OF inv a])
    show "moved S srv t1" if "i \<in> set [0..<MaxNewConnections S]" "moved S srv t"
      "visit_entry N S app J now i t e = Some (ok t1, e1)" for i t e t1 e1
      using moved_trans [OF that(2) visit_entry_moved [OF moved_inv [OF that(2)] _ n that(3)]] that(1) by simp
  qed
  have i2: "srv_inv S srv2" by (rule moved_inv [OF m2])
  have l2: "MaxShmGrps S = length (grps_of True srv2)" using i2 caps_sel [of S srv2 True] by (simp add: srv_inv_def)
  note A = poll_grps_ok [OF s i2 l2]
  have l3: "MaxTcpGrps S = length (grps_of False srv3)" using A caps_sel [of S srv3 False] by (simp add: srv_inv_def moved_def)
  have i3: "srv_inv S srv3" using A moved_inv by blast
  note B = poll_grps_ok [OF t i3 l3]
  have ls: "length (grps_of True srv3) = MaxShmGrps S" "length (grps_of b srv1) = (if b then MaxShmGrps S else MaxTcpGrps S)" for b
    using A B caps_sel [of S srv3 True] caps_sel [of S srv1 b] by (simp_all add: srv_inv_def moved_def)
  have "grp_open srv1 (grps_of b srv1 ! g)" if "g < length (grps_of b srv1)" for b g
    using that A B ls by (cases b) auto
  moreover have "moved S srv srv1" using A B m2 moved_trans by blast
  ultimately show ?thesis by (simp add: all_open_def)
qed

lemma grps_ok_set_conn:
  assumes "grps_ok S srv" "k < length (conn_pool srv)" "conn_kept (conn_pool srv ! k) c"
  shows "grps_ok S (set_conn k c srv)"
proof -
  have "slot_move\<^sup>*\<^sup>* (slots_of srv) (slots_of (set_conn k c srv))"
    using slots_of_quiet [OF assms(2,3)] by (rule r_into_rtranclp)
  then show ?thesis using grps_ok_moves [OF assms(1)] by simp
qed

lemma moved_set_conn:
  "srv_inv S srv \<Longrightarrow> k < length (conn_pool srv) \<Longrightarrow> conn_kept (conn_pool srv ! k) c \<Longrightarrow> moved S srv (set_conn k c srv)"
  using grps_ok_set_conn front_ok_cong [of srv "set_conn k c srv" S] r_into_rtranclp [of slot_move, OF slots_of_quiet]
  by (simp add: srv_inv_def moved_def)

lemma serve_ok:
  assumes "srv_inv S srv" "app_ok app" "k < length (conn_pool srv)"
    and "\<And>p c e1. polled = Some (ok (p, c), e1) \<Longrightarrow> conn_kept (conn_pool srv ! k) c"
    and "serve app k polled srv = Some (ok srv1, e1)"
  shows "moved S srv srv1 \<and> same_front srv srv1 \<and> shm_grps srv1 = shm_grps srv \<and> tcp_grps srv1 = tcp_grps srv"
proof -
  obtain p c e2 where pl: "polled = Some (ok (p, c), e2)"
    using assms(5) by (auto simp: serve_def split: option.splits sum.splits prod.splits)
  have kc: "conn_kept (conn_pool srv ! k) c" by (rule assms(4) [OF pl])
  show ?thesis
  proof (cases p)
    case None
    then have "srv1 = set_conn k c srv" using assms(5) pl by (simp add: serve_def)
    then show ?thesis using moved_set_conn [OF assms(1,3) kc] by (simp add: set_conn_def)
  next
    case (Some q)
    obtain c1 e3 where "OnClientMsg app q c e2 = Some (ok c1, e3)" and s1: "srv1 = set_conn k c1 srv"
      using assms(5) pl Some by (auto simp: serve_def chk_bind_ok_iff)
    then have "conn_kept (conn_pool srv ! k) c1"
      using assms(2) kc conn_kept_trans unfolding app_ok_def by blast
    then show ?thesis using moved_set_conn [OF assms(1,3)] by (simp add: s1) (simp add: set_conn_def)
  qed
qed

lemma serve_grp_ok:
  assumes inv: "srv_inv S srv" and app: "app_ok app" and g: "g < length (grps_of shm srv)"
    and poll: "\<And>c e p c1 e1. poll c e = Some (ok (p, c1), e1) \<Longrightarrow> conn_kept c c1"
    and run: "each (\<lambda>i srv e. let k = conns (grps_of shm srv ! g) ! i in serve app k (poll (conn_pool srv ! k) e) srv)
      [0 ..< live_cnt (grps_of shm srv ! g)] srv e = Some (ok srv1, e1)"
  shows "moved S srv srv1"
proof -
  let ?P = "\<lambda>t. moved S srv t \<and> shm_grps t = shm_grps srv \<and> tcp_grps t = tcp_grps srv"
  have "?P srv1"
  proof (rule each_inv [OF run, where P = ?P])
    fix i t e t1 e1
    assume i: "i \<in> set [0 ..< live_cnt (grps_of shm srv ! g)]" and P: "?P t"
      and r: "(let k = conns (grps_of shm t ! g) ! i in serve app k (poll (conn_pool t ! k) e) t) = Some (ok t1, e1)"
    have eq: "grps_of shm t = grps_of shm srv" using P by (simp add: grps_of_def)
    have it: "srv_inv S t" using P moved_inv by blast
    then have "grps_ok S t" by (simp add: srv_inv_def)
    note F = grp_facts [OF this, of g shm, unfolded eq, OF g refl]
    have "conns (grps_of shm srv ! g) ! i < length (conn_pool t)" using F(2,3) i by simp
    then have "moved S t t1 \<and> same_front t t1 \<and> shm_grps t1 = shm_grps t \<and> tcp_grps t1 = tcp_grps t"
      using serve_ok [of S t app _ _ t1 e1, OF it app _ _ r [unfolded Let_def eq]] poll by blast
    then show "?P t1" using P moved_trans by auto
  qed (use inv moved_refl in simp)
  then show ?thesis by blast
qed

lemma PollTcp_ok:
  assumes "srv_inv S srv" "app_ok app" "PollTcp N S app now g srv e = Some (ok srv1, e1)"
  shows "moved S srv srv1"
proof -
  have g: "g < length (grps_of False srv)" using assms(3) by (auto simp: PollTcp_def grps_of_def split: if_splits)
  show ?thesis
    by (rule serve_grp_ok [OF assms(1,2) g, of "TcpFront N (s_conf S) now"])
       (use assms(3) g TcpFront_kept in \<open>auto simp: PollTcp_def grps_of_def\<close>)
qed

lemma PollShm_ok:
  assumes "srv_inv S srv" "app_ok app" "PollShm S app g srv e = Some (ok srv1, e1)"
  shows "moved S srv srv1"
proof -
  have g: "g < length (grps_of True srv)" using assms(3) by (auto simp: PollShm_def grps_of_def split: if_splits)
  show ?thesis
    by (rule serve_grp_ok [OF assms(1,2) g, of "\<lambda>c e. Some (ShmFront (s_conf S) c, e)"])
       (use assms(3) g ShmFront_kept in \<open>auto simp: PollShm_def grps_of_def\<close>)
qed

section \<open>Stopping and starting\<close>

text \<open>A connection after \<open>Release\<close>: closed, no descriptor, nothing mapped, no name.\<close>

definition released :: "tconn \<Rightarrow> bool" where
  "released c \<longleftrightarrow>
     idle c \<and> peer c = [] \<and> q_ptr (ptcp_conn c) = None \<and> shm_sendq c = None \<and> shm_recvq c = None"

lemma Release_released:
  assumes "tconn_Release N c e = (c1, e1)" "0 < length (remote_name c)"
  shows "released c1" "length (remote_name c1) = length (remote_name c)"
proof -
  obtain p e2 where p: "pconn_Release N (ptcp_conn c) e2 = (p, e1)"
      and c1: "c1 = c\<lparr>remote_name := (remote_name c)[0 := NUL], shm_sendq := None, shm_recvq := None, ptcp_conn := p\<rparr>"
    using assms(1) by (auto simp: tconn_Release_def Let_def split: prod.splits)
  have "sockfd p < 0 \<and> fd_to_close p < 0 \<and> q_ptr p = None"
    using p by (auto simp: pconn_Release_def TryCloseFd_def split: if_splits option.splits)
  then show "released c1" "length (remote_name c1) = length (remote_name c)"
    using assms(2) by (cases "remote_name c"; simp add: c1 released_def idle_def c_str_def)+
qed

lemma release_conns_ok:
  assumes "release_conns N ks pool e = (pool1, e1)" "0 < n"
    and "\<And>k. k \<in> set ks \<Longrightarrow> k < length pool" "\<And>c. c \<in> set pool \<Longrightarrow> length (remote_name c) = n"
  shows "length pool1 = length pool \<and> (\<forall>c\<in>set pool1. length (remote_name c) = n) \<and>
    (\<forall>k\<in>set ks. released (pool1 ! k)) \<and> (\<forall>k<length pool. released (pool ! k) \<longrightarrow> released (pool1 ! k))"
  using assms
proof (induction ks arbitrary: pool e)
  case Nil
  then show ?case by simp
next
  case (Cons k ks)
  obtain c e2 where c: "tconn_Release N (pool ! k) e = (c, e2)" by fastforce
  then have r: "release_conns N ks (pool[k := c]) e2 = (pool1, e1)" using Cons.prems(1) by simp
  have k: "k < length pool" using Cons.prems(3) by simp
  have len: "length (remote_name (pool ! k)) = n" using Cons.prems(4) k by simp
  have rc: "released c" "length (remote_name c) = n"
    using Release_released [OF c] len Cons.prems(2) by simp_all
  have all: "\<And>d. d \<in> set (pool[k := c]) \<Longrightarrow> length (remote_name d) = n"
    using set_update_subset_insert [of pool k c] rc(2) Cons.prems(4) by blast
  have IH: "length pool1 = length (pool[k := c]) \<and> (\<forall>c\<in>set pool1. length (remote_name c) = n) \<and>
    (\<forall>k\<in>set ks. released (pool1 ! k)) \<and> (\<forall>j<length (pool[k := c]). released (pool[k := c] ! j) \<longrightarrow> released (pool1 ! j))"
    by (rule Cons.IH [OF r Cons.prems(2) _ all]) (use Cons.prems(3) in auto)
  then show ?case using k rc(1) by (auto simp: nth_upd)
qed

lemma release_grps_ok:
  assumes "release_grps N gs pool e = (gs1, pool1, e1)" "0 < n"
    and "\<And>G k. G \<in> set gs \<Longrightarrow> k \<in> set (conns G) \<Longrightarrow> k < length pool" "\<And>c. c \<in> set pool \<Longrightarrow> length (remote_name c) = n"
  shows "length pool1 = length pool \<and> (\<forall>c\<in>set pool1. length (remote_name c) = n) \<and>
    (\<forall>G\<in>set gs. \<forall>k\<in>set (conns G). released (pool1 ! k)) \<and>
    (\<forall>k<length pool. released (pool ! k) \<longrightarrow> released (pool1 ! k)) \<and> gs1 = map (\<lambda>G. G\<lparr>live_cnt := 0\<rparr>) gs"
  using assms
proof (induction gs arbitrary: pool e gs1 pool1 e1)
  case Nil
  then show ?case by simp
next
  case (Cons G gs)
  obtain pool2 e2 where a: "release_conns N (conns G) pool e = (pool2, e2)" by fastforce
  obtain gs2 pool3 e3 where b: "release_grps N gs pool2 e2 = (gs2, pool3, e3)" by (metis prod.exhaust)
  have eq: "gs1 = G\<lparr>live_cnt := 0\<rparr> # gs2" "pool1 = pool3" "e1 = e3" using Cons.prems(1) a b by simp_all
  have A: "length pool2 = length pool \<and> (\<forall>c\<in>set pool2. length (remote_name c) = n) \<and>
      (\<forall>k\<in>set (conns G). released (pool2 ! k)) \<and> (\<forall>k<length pool. released (pool ! k) \<longrightarrow> released (pool2 ! k))"
    by (rule release_conns_ok [OF a Cons.prems(2)]) (use Cons.prems(3,4) in auto)
  have B: "length pool3 = length pool2 \<and> (\<forall>c\<in>set pool3. length (remote_name c) = n) \<and>
      (\<forall>G\<in>set gs. \<forall>k\<in>set (conns G). released (pool3 ! k)) \<and>
      (\<forall>k<length pool2. released (pool2 ! k) \<longrightarrow> released (pool3 ! k)) \<and> gs2 = map (\<lambda>G. G\<lparr>live_cnt := 0\<rparr>) gs"
    by (rule Cons.IH [OF b Cons.prems(2)]) (use A Cons.prems(3) in auto)
  have "released (pool3 ! k)" if "k \<in> set (conns G)" for k
    using A B that Cons.prems(3) [of G k] by simp
  then show ?case using A B eq by simp
qed

lemma close_new_ok: "fst (close_new N cs e) = map (\<lambda>c. if 0 \<le> nc_fd c then c\<lparr>nc_fd := -1\<rparr> else c) cs"
  by (induction N cs e rule: close_new.induct) (auto simp: Let_def split: prod.splits)

lemma slots_wf_released:
  assumes "slots_wf caps n (gs, pool)" "length pool1 = length pool" "\<forall>c\<in>set pool1. length (remote_name c) = n"
    and "\<forall>k<length pool1. released (pool1 ! k)"
  shows "fresh_slots caps n (map (\<lambda>G. G\<lparr>live_cnt := 0\<rparr>) gs, pool1)"
proof -
  have m: "map (\<lambda>G. length (conns G)) (map (\<lambda>G. G\<lparr>live_cnt := 0\<rparr>) gs) = map (\<lambda>G. length (conns G)) gs"
    by (simp add: comp_def)
  have w: "list_all grp_wf (map (\<lambda>G. G\<lparr>live_cnt := 0\<rparr>) gs)"
    using assms(1) by (simp add: slots_wf_def list_all_iff grp_wf_def)
  have "slots_wf caps n (map (\<lambda>G. G\<lparr>live_cnt := 0\<rparr>) gs, pool1)"
    using assms(1-3) m w by (simp add: slots_wf_def list_all_iff)
  then show ?thesis using assms(4) by (simp add: fresh_slots_def list_all_length released_def)
qed

text \<open>A server with all its tables empty.\<close>

definition srv_clean :: "sconf \<Rightarrow> server \<Rightarrow> bool" where
  "srv_clean S srv \<longleftrightarrow>
     srv_inv S srv \<and> listenfd srv < 0 \<and> avail_idx srv = 0 \<and>
     list_all (\<lambda>c. nc_fd c < 0) (new_conns srv) \<and> list_all released (conn_pool srv) \<and>
     list_all (\<lambda>G. live_cnt G = 0) (shm_grps srv @ tcp_grps srv)"

lemma Stop_ok:
  assumes inv: "srv_inv S srv" and n: "1 < NameSize (s_conf S)" and "0 \<le> listenfd srv"
    and run: "Stop N srv e = (srv1, e1)"
  shows "srv_clean S srv1"
proof -
  let ?n = "NameSize (s_conf S)"
  have wf: "slots_wf (caps_of S) ?n (shm_grps srv @ tcp_grps srv, conn_pool srv)"
    and ls: "length (shm_grps srv) = MaxShmGrps S" "length (tcp_grps srv) = MaxTcpGrps S" and f: "front_ok S srv"
    using inv by (simp_all add: srv_inv_def grps_ok_def slots_inv_def slots_of_def)
  note D = slots_wfD [OF wf]
  obtain ncs e3 where cn: "close_new N (new_conns srv) (os_close N (listenfd srv) e) = (ncs, e3)" by fastforce
  obtain sg pool1 e4 where a: "release_grps N (shm_grps srv) (conn_pool srv) e3 = (sg, pool1, e4)" by (metis prod.exhaust)
  obtain tg pool2 e5 where b: "release_grps N (tcp_grps srv) pool1 e4 = (tg, pool2, e5)" by (metis prod.exhaust)
  have s1: "srv1 = srv\<lparr>listenfd := -1, new_conns := ncs, avail_idx := 0, shm_grps := sg, tcp_grps := tg, conn_pool := pool2\<rparr>"
    using run assms(3) cn a b by (simp add: Stop_def Let_def)
  have in_pool: "k < length (conn_pool srv)" if "G \<in> set (shm_grps srv @ tcp_grps srv)" "k \<in> set (conns G)" for G k
    using that wf by (auto simp: slots_wf_def)
  have lens: "c \<in> set (conn_pool srv) \<Longrightarrow> length (remote_name c) = ?n" for c
    using D(5) by (metis in_set_conv_nth)
  have A: "length pool1 = length (conn_pool srv) \<and> (\<forall>c\<in>set pool1. length (remote_name c) = ?n) \<and>
    (\<forall>G\<in>set (shm_grps srv). \<forall>k\<in>set (conns G). released (pool1 ! k)) \<and>
    (\<forall>k<length (conn_pool srv). released (conn_pool srv ! k) \<longrightarrow> released (pool1 ! k)) \<and>
    sg = map (\<lambda>G. G\<lparr>live_cnt := 0\<rparr>) (shm_grps srv)"
    by (rule release_grps_ok [OF a, of ?n]) (use n in_pool lens in auto)
  have B: "length pool2 = length pool1 \<and> (\<forall>c\<in>set pool2. length (remote_name c) = ?n) \<and>
    (\<forall>G\<in>set (tcp_grps srv). \<forall>k\<in>set (conns G). released (pool2 ! k)) \<and>
    (\<forall>k<length pool1. released (pool1 ! k) \<longrightarrow> released (pool2 ! k)) \<and> tg = map (\<lambda>G. G\<lparr>live_cnt := 0\<rparr>) (tcp_grps srv)"
    by (rule release_grps_ok [OF b, of ?n]) (use n in_pool A in auto)
  have rel: "released (pool2 ! k)" if "k < length pool2" for k
  proof -
    have "k < length (conn_pool srv)" using that A B by simp
    then obtain g where "g < length (shm_grps srv @ tcp_grps srv)" "k \<in> set (conns ((shm_grps srv @ tcp_grps srv) ! g))"
      using D(4) by blast
    then obtain G where G: "G \<in> set (shm_grps srv @ tcp_grps srv)" "k \<in> set (conns G)" using nth_mem by blast
    then show ?thesis using A B \<open>k < length (conn_pool srv)\<close> by auto
  qed
  have gs: "sg @ tg = map (\<lambda>G. G\<lparr>live_cnt := 0\<rparr>) (shm_grps srv @ tcp_grps srv)" using A B by simp
  have "fresh_slots (caps_of S) ?n (sg @ tg, pool2)"
    unfolding gs by (rule slots_wf_released [OF wf]) (use A B rel in auto)
  then have si: "slots_inv (caps_of S) ?n (slots_of srv1)" by (simp add: s1 slots_of_def fresh_slots_inv)
  have ncs: "ncs = map (\<lambda>c. if 0 \<le> nc_fd c then c\<lparr>nc_fd := -1\<rparr> else c) (new_conns srv)"
    using close_new_ok [of N "new_conns srv" "os_close N (listenfd srv) e"] cn by simp
  have closed: "list_all (\<lambda>c. nc_fd c < 0) ncs" by (auto simp: ncs list_all_iff)
  have "front_ok S srv1" using f closed by (simp add: s1 front_ok_def ncs list_all_length)
  then show ?thesis
    using si ls closed rel A B
    by (auto simp: srv_clean_def srv_inv_def grps_ok_def s1 list_all_length nth_append)
qed

lemma Start_keeps:
  "Start N S ip port srv e = ((b, srv1), e1) \<Longrightarrow>
     new_conns srv1 = new_conns srv \<and> avail_idx srv1 = avail_idx srv \<and> shm_grps srv1 = shm_grps srv \<and>
     tcp_grps srv1 = tcp_grps srv \<and> conn_pool srv1 = conn_pool srv"
  by (auto simp: Start_def emit_def Let_def split: if_splits sum.splits prod.splits)

lemma Start_moved:
  assumes "srv_inv S srv" "Start N S ip port srv e = ((b, srv1), e1)"
  shows "moved S srv srv1"
  using assms(1) Start_keeps [OF assms(2)]
  by (simp add: srv_inv_def grps_ok_def slots_of_def front_ok_def moved_def)

section \<open>The initial server\<close>

lemma make_grps_sel:
  "length (make_grps first count per) = count"
  "g < count \<Longrightarrow> make_grps first count per ! g = \<lparr>live_cnt = 0, conns = [first + g * per ..< first + Suc g * per]\<rparr>"
  by (simp_all add: make_grps_def)

lemma interval_cover: "(\<Union>g<m. {first + g * per ..< first + Suc g * per}) = {first ..< first + m * per}"
  for m per first :: nat
proof (induction m)
  case (Suc m)
  have "{first ..< first + m * per} \<union> {first + m * per ..< first + Suc m * per} = {first ..< first + Suc m * per}"
    by (rule ivl_disj_un) auto
  then show ?case using Suc by (simp only: lessThan_Suc UN_insert) blast
qed simp

lemma interval_disjoint:
  "g \<noteq> h \<Longrightarrow> {first + g * per ..< first + Suc g * per} \<inter> {first + h * per ..< first + Suc h * per} = {}"
  for g h per first :: nat
proof -
  have "{first + a * per ..< first + Suc a * per} \<inter> {first + b * per ..< first + Suc b * per} = {}" if "a < b" for a b
  proof -
    have "Suc a * per \<le> b * per" using that by (intro mult_le_mono1) simp
    then show ?thesis by auto
  qed
  then show "g \<noteq> h \<Longrightarrow> ?thesis" by (metis inf_commute nat_neq_iff)
qed

lemma make_grps_sets:
  "(\<Union>G\<in>set (make_grps first count per). set (conns G)) = {first ..< first + count * per}"
proof -
  have "(\<Union>G\<in>set (make_grps first count per). set (conns G)) = (\<Union>g<count. {first + g * per ..< first + Suc g * per})"
    by (simp add: make_grps_def lessThan_atLeast0)
  then show ?thesis by (simp only: interval_cover)
qed

lemma make_grps_elem:
  "G \<in> set (make_grps first count per) \<Longrightarrow> grp_wf G \<and> live_cnt G = 0 \<and> set (conns G) \<subseteq> {first ..< first + count * per}"
proof -
  assume "G \<in> set (make_grps first count per)"
  moreover then have "set (conns G) \<subseteq> {first ..< first + count * per}"
    using make_grps_sets [of first count per] by blast
  ultimately show ?thesis by (auto simp: make_grps_def grp_wf_def)
qed

lemma new_server_fresh:
  assumes "length garbage = NameSize (s_conf S)" "1 < NameSize (s_conf S)"
  shows "srv_inv S (server_new S name dir garbage)"
proof -
  let ?srv = "server_new S name dir garbage" and ?n = "NameSize (s_conf S)"
  let ?m = "MaxShmConnsPerGrp S * MaxShmGrps S" and ?t = "MaxTcpConnsPerGrp S * MaxTcpGrps S"
  let ?a = "make_grps 0 (MaxShmGrps S) (MaxShmConnsPerGrp S)" and ?b = "make_grps ?m (MaxTcpGrps S) (MaxTcpConnsPerGrp S)"
  define c where "c = tconn_init dir (srv_name ?srv) (tconn_new (s_conf S) garbage)"
  have sel: "shm_grps ?srv = ?a" "tcp_grps ?srv = ?b" "conn_pool ?srv = replicate (?m + ?t) c"
    by (simp_all add: server_new_def Let_def c_def)
  have c: "idle c" "peer c = []" "length (remote_name c) = ?n"
    using assms by (cases garbage; simp add: c_def tconn_init_def tconn_new_def pconn_new_def idle_def c_str_def)+
  have disj: "set (conns ((?a @ ?b) ! g)) \<inter> set (conns ((?a @ ?b) ! h)) = {}"
    if g: "g < length (?a @ ?b)" "h < length (?a @ ?b)" "g \<noteq> h" for g h
  proof -
    have same: "set (conns (make_grps f m p ! g)) \<inter> set (conns (make_grps f m p ! h)) = {}"
      if "g < m" "h < m" "g \<noteq> h" for f m p g h
      using that interval_disjoint [OF that(3), of f p] by (simp add: make_grps_sel)
    have cross: "set (conns (?a ! g)) \<inter> set (conns (?b ! h)) = {}"
      if "g < MaxShmGrps S" "h < MaxTcpGrps S" for g h
    proof -
      have "?a ! g \<in> set ?a" "?b ! h \<in> set ?b" using that by (simp_all add: make_grps_sel(1))
      then have "set (conns (?a ! g)) \<subseteq> {0 ..< 0 + MaxShmGrps S * MaxShmConnsPerGrp S}"
          "set (conns (?b ! h)) \<subseteq> {?m ..< ?m + MaxTcpGrps S * MaxTcpConnsPerGrp S}"
        using make_grps_elem by blast+
      then show ?thesis by (fastforce simp: mult.commute)
    qed
    show ?thesis
      using g same cross [of g "h - MaxShmGrps S"] cross [of h "g - MaxShmGrps S"]
      by (auto simp: nth_append make_grps_sel(1) Int_commute split: if_splits)
  qed
  have "slots_wf (caps_of S) ?n (?a @ ?b, replicate (?m + ?t) c)"
    unfolding slots_wf_def prod.case
  proof (intro conjI)
    show "map (\<lambda>G. length (conns G)) (?a @ ?b) = caps_of S"
      by (simp add: caps_of_def make_grps_def comp_def map_replicate_const)
    show "list_all grp_wf (?a @ ?b)" using make_grps_elem by (auto simp: list_all_iff)
    show "\<forall>g<length (?a @ ?b). \<forall>h<length (?a @ ?b). g \<noteq> h \<longrightarrow>
        set (conns ((?a @ ?b) ! g)) \<inter> set (conns ((?a @ ?b) ! h)) = {}" using disj by blast
    show "(\<Union>G\<in>set (?a @ ?b). set (conns G)) = {..<length (replicate (?m + ?t) c)}"
    proof -
      have "(\<Union>G\<in>set (?a @ ?b). set (conns G)) = {0 ..< 0 + ?m} \<union> {?m ..< ?m + ?t}"
        using make_grps_sets [of 0 "MaxShmGrps S" "MaxShmConnsPerGrp S"]
          make_grps_sets [of ?m "MaxTcpGrps S" "MaxTcpConnsPerGrp S"]
        by (simp only: set_append UN_Un mult.commute [of "MaxShmGrps S"] mult.commute [of "MaxTcpGrps S"])
      also have "\<dots> = {..<?m + ?t}" by auto
      finally show ?thesis by simp
    qed
    show "list_all (\<lambda>c. length (remote_name c) = ?n) (replicate (?m + ?t) c)" using c by (simp add: list_all_length)
  qed
  moreover have "list_all (\<lambda>G. live_cnt G = 0) (?a @ ?b)" using make_grps_elem by (auto simp: list_all_iff)
  ultimately have "fresh_slots (caps_of S) ?n (slots_of ?srv)"
    using c by (simp add: fresh_slots_def slots_of_def sel list_all_length)
  then have "slots_inv (caps_of S) ?n (slots_of ?srv)" by (rule fresh_slots_inv)
  moreover have "front_ok S ?srv" by (simp add: front_ok_def server_new_def Let_def)
  ultimately show ?thesis
    by (simp add: srv_inv_def grps_ok_def sel make_grps_sel)
qed

section \<open>Reachable servers\<close>

text \<open>
  The steps of a server: its operations, in any order and with any environment, and what the
  user does to a connection between them.
\<close>

definition srv_start :: "sconf \<Rightarrow> server \<Rightarrow> bool" where
  "srv_start S srv \<longleftrightarrow>
     (\<exists>name dir garbage. length garbage = NameSize (s_conf S) \<and> srv = server_new S name dir garbage)"

inductive srv_step :: "'e os \<Rightarrow> sconf \<Rightarrow> 'e server_app \<Rightarrow> server \<Rightarrow> server \<Rightarrow> bool" for N S app where
  step_Start: "Start N S ip port srv e = ((b, srv1), e1) \<Longrightarrow> srv_step N S app srv srv1"
| step_PollCtl: "PollCtl N S app J now srv e = Some (ok srv1, e1) \<Longrightarrow> srv_step N S app srv srv1"
| step_PollTcp: "PollTcp N S app now g srv e = Some (ok srv1, e1) \<Longrightarrow> srv_step N S app srv srv1"
| step_PollShm: "PollShm S app g srv e = Some (ok srv1, e1) \<Longrightarrow> srv_step N S app srv srv1"
| step_Stop: "Stop N srv e = (srv1, e1) \<Longrightarrow> srv_step N S app srv srv1"
| step_user: "k < length (conn_pool srv) \<Longrightarrow> conn_kept (conn_pool srv ! k) c \<Longrightarrow>
    srv_step N S app srv (set_conn k c srv)"

inductive_cases srv_stepE: "srv_step N S app srv srv1"

definition good_start :: "sconf \<Rightarrow> 'e server_app \<Rightarrow> server \<Rightarrow> bool" where
  "good_start S app srv \<longleftrightarrow> srv_start S srv \<and> app_ok app \<and> 1 < NameSize (s_conf S)"

lemma srv_step_refines:
  assumes "srv_inv S srv" "app_ok app" "1 < NameSize (s_conf S)" "srv_step N S app srv srv1"
  shows "moved S srv srv1 \<or> srv_clean S srv1"
  using assms(4)
proof cases
  case (step_Start ip port e b e1)
  show ?thesis using Start_moved [OF assms(1) step_Start] by (rule disjI1)
next
  case (step_PollCtl J now e e1)
  show ?thesis using PollCtl_ok [OF assms(1,3) step_PollCtl] by (rule conjunct1 [THEN disjI1])
next
  case (step_PollTcp now g e e1)
  show ?thesis using PollTcp_ok [OF assms(1,2) step_PollTcp] by (rule disjI1)
next
  case (step_PollShm g e e1)
  show ?thesis using PollShm_ok [OF assms(1,2) step_PollShm] by (rule disjI1)
next
  case (step_Stop e e1)
  show ?thesis
  proof (cases "listenfd srv < 0")
    case True
    then have "srv1 = srv" using step_Stop by (simp add: Stop_def)
    then show ?thesis using moved_refl [OF assms(1)] by simp
  next
    case False
    then show ?thesis using Stop_ok [OF assms(1,3) _ step_Stop] by simp
  qed
next
  case (step_user k c)
  then show ?thesis using moved_set_conn [OF assms(1)] by simp
qed

lemma srv_step_inv:
  "srv_inv S srv \<Longrightarrow> app_ok app \<Longrightarrow> 1 < NameSize (s_conf S) \<Longrightarrow> srv_step N S app srv srv1 \<Longrightarrow> srv_inv S srv1"
  using srv_step_refines moved_inv srv_clean_def by blast

interpretation srv: state_invariant "good_start S app" "srv_step N S app"
    "\<lambda>srv. srv_inv S srv \<and> app_ok app \<and> 1 < NameSize (s_conf S)" for N :: "'e os" and S app
proof
  show "good_start S app srv \<Longrightarrow> srv_inv S srv \<and> app_ok app \<and> 1 < NameSize (s_conf S)" for srv
    using new_server_fresh by (auto simp: good_start_def srv_start_def)
  show "srv_inv S srv \<and> app_ok app \<and> 1 < NameSize (s_conf S) \<Longrightarrow> srv_step N S app srv srv1 \<Longrightarrow>
      srv_inv S srv1 \<and> app_ok app \<and> 1 < NameSize (s_conf S)" for srv srv1
    using srv_step_inv by blast
qed

end
