(* ===== verification/ServerProps.thy ===== *)
theory ServerProps
  imports ServerInv
begin

text \<open>
  The properties of the server: its invariant in every reachable state, the refinement of the
  slots, the outcomes of a login, polling, failing starts and stopping.
\<close>

section \<open>A server to exhibit the hypotheses\<close>

definition small_sconf :: sconf where
  "small_sconf = \<lparr>s_conf = small_conf, MaxNewConnections = 2, MaxShmConnsPerGrp = 1, MaxShmGrps = 1,
     MaxTcpConnsPerGrp = 2, MaxTcpGrps = 1, NewConnectionTimeout = 10, UserDataSize = 1, RspUserDataSize = 1\<rparr>"

definition small_app :: "nat server_app" where
  "small_app = \<lparr>OnNewConnection = (\<lambda>addr login rsp e. ((0, rsp), e)), OnClientMsg = (\<lambda>p c e. Some (ok c, e))\<rparr>"

definition small_junk :: stack_junk where
  "small_junk = \<lparr>junk_ack = 0, junk_rsp = sample_rsp, junk_pad = []\<rparr>"

text \<open>One client connects with descriptor 5 and sends its login.\<close>

definition login_bytes :: "u8 list" where
  "login_bytes = login_buf le_host
     \<lparr>hdr_size = of_nat (8 + sizeof_LoginMsg 1 16), msg_type = LoginMsg_type, ack_seq = 0\<rparr>
     (store_login le_host (sample_login\<lparr>last_server_name := replicate 16 NUL\<rparr>)) [] (msg_len small_sconf)"

definition login_os :: "nat os" where
  "login_os = file_os
     \<lparr>os_accept := \<lambda>fd n. (Inr (5, ''127.0.0.1''), n), os_read := \<lambda>fd len n. (Inr login_bytes, n),
      os_send := \<lambda>fd bs n. (Inr (length bs), n)\<rparr>"

definition new_small :: server where
  "new_small = server_new small_sconf ''srv'' ''dir'' (replicate 16 NUL)"

definition one_login :: server where
  "one_login = (case PollCtl login_os small_sconf small_app small_junk 0 new_small 0 of
     Some (Inr srv, e) \<Rightarrow> srv | _ \<Rightarrow> new_small)"

lemma one_login_run:
  "\<exists>e. PollCtl login_os small_sconf small_app small_junk 0 new_small 0 = Some (ok one_login, e)"
proof -
  have "(case PollCtl login_os small_sconf small_app small_junk 0 new_small 0 of Some (Inr _, _) \<Rightarrow> True | _ \<Rightarrow> False)"
    by code_simp
  then show ?thesis by (auto simp: one_login_def split: option.splits sum.splits)
qed

lemma one_login_live:
  "tcp_grps one_login = [\<lparr>live_cnt = 1, conns = [1, 2]\<rparr>]" "shm_grps one_login = [\<lparr>live_cnt = 0, conns = [0]\<rparr>]"
  "peer (conn_pool one_login ! 1) = ''bob''" "avail_idx one_login = 1" "events one_login = [OnClientLogon ''127.0.0.1'' 1]"
  by code_simp+

lemma small_app_ok: "app_ok small_app"
  by (simp add: app_ok_def small_app_def)

lemma small_name [simp]: "NameSize (s_conf small_sconf) = 16"
  by (simp add: small_sconf_def small_conf_def)

lemma new_small_start: "good_start small_sconf small_app new_small"
proof -
  have "srv_start small_sconf new_small"
    unfolding srv_start_def new_small_def small_name by (metis length_replicate)
  then show ?thesis by (simp add: good_start_def small_app_ok)
qed

lemma one_login_reach: "reach (good_start small_sconf small_app) (srv_step login_os small_sconf small_app) one_login"
  using one_login_run reach.intros new_small_start srv_step.step_PollCtl by metis

section \<open>Properties of the tables\<close>

lemma reach_srv_inv:
  "reach (good_start S app) (srv_step N S app) srv \<Longrightarrow> srv_inv S srv \<and> app_ok app \<and> 1 < NameSize (s_conf S)"
  by (rule srv.inv_reach)

lemma srv_grp:
  assumes "srv_inv S srv" "G \<in> set (shm_grps srv @ tcp_grps srv)"
  obtains m where "grp_at (live_cnt G) m (members (conn_pool srv) G)" "grp_wf G"
    "\<And>j. j < length (conns G) \<Longrightarrow> conns G ! j < length (conn_pool srv)"
proof -
  have wf: "slots_wf (caps_of S) (NameSize (s_conf S)) (shm_grps srv @ tcp_grps srv, conn_pool srv)"
    and ok: "slots_ok (shm_grps srv @ tcp_grps srv, conn_pool srv)"
    using assms(1) by (simp_all add: srv_inv_def grps_ok_def slots_inv_def slots_of_def)
  obtain g where g: "g < length (shm_grps srv @ tcp_grps srv)" "(shm_grps srv @ tcp_grps srv) ! g = G"
    using assms(2) by (metis in_set_conv_nth)
  have "grp_ok (live_cnt G) (members (conn_pool srv) G)"
    using ok assms(2) unfolding slots_ok_def prod.case list_all_iff by blast
  then obtain m where "grp_at (live_cnt G) m (members (conn_pool srv) G)" by (rule grp_okE)
  moreover have "grp_wf G" using slots_wfD(1) [OF wf g(1)] g(2) by simp
  moreover have "\<And>j. j < length (conns G) \<Longrightarrow> conns G ! j < length (conn_pool srv)"
    using slots_wfD(3) [OF wf g(1)] g(2) by simp
  ultimately show thesis by (rule that)
qed

text \<open>
  C12. One connection per client: in every reachable state, after any sequence of starts,
  polls, stops and uses of the connections, with any behaviour of the system calls and any
  bytes from the clients, two live connections of a group with the same client name are the
  same connection; every live connection has a name and owns a descriptor, and every
  connection that is not live is closed and owns none.
\<close>

theorem server_one_connection_per_client:
  assumes "reach (good_start S app) (srv_step N S app) srv" and "G \<in> set (shm_grps srv @ tcp_grps srv)"
  shows "(\<forall>i<live_cnt G. \<forall>j<live_cnt G.
      peer (conn_pool srv ! (conns G ! i)) = peer (conn_pool srv ! (conns G ! j)) \<longrightarrow> i = j) \<and>
    (\<forall>i<length (conns G).
      if i < live_cnt G then peer (conn_pool srv ! (conns G ! i)) \<noteq> [] \<and> 0 \<le> own_fd (conn_pool srv ! (conns G ! i))
      else idle (conn_pool srv ! (conns G ! i)))"
proof -
  have "srv_inv S srv" using reach_srv_inv [OF assms(1)] by simp
  then obtain m where m: "grp_at (live_cnt G) m (members (conn_pool srv) G)" and wf: "grp_wf G"
    using assms(2) by (rule srv_grp)
  note M = grp_atD [OF m]
  have len: "live_cnt G \<le> length (conns G)" using wf by (simp add: grp_wf_def)
  have "i = j" if "i < live_cnt G" "j < live_cnt G" "peer (conn_pool srv ! (conns G ! i)) = peer (conn_pool srv ! (conns G ! j))" for i j
    by (rule M(4)) (use that M(1) len in auto)
  moreover have "peer (conn_pool srv ! (conns G ! i)) \<noteq> [] \<and> 0 \<le> own_fd (conn_pool srv ! (conns G ! i))" if "i < live_cnt G" for i
    using M(1) M(3) [of i] M(5) [of i] that len by simp
  moreover have "idle (conn_pool srv ! (conns G ! i))" if "live_cnt G \<le> i" "i < length (conns G)" for i
    using M(6) [of i] that by simp
  ultimately show ?thesis by auto
qed

theorem server_one_connection_per_client_witness:
  "peer (conn_pool one_login ! 1) \<noteq> [] \<and> 0 \<le> own_fd (conn_pool one_login ! 1) \<and> idle (conn_pool one_login ! 2)"
  using server_one_connection_per_client [OF one_login_reach, of "\<lparr>live_cnt = 1, conns = [1, 2]\<rparr>"] one_login_live
  by (auto dest: spec [of _ 0] spec [of _ 1])

lemma distinct_concat_conns:
  "(\<And>g. g < length gs \<Longrightarrow> distinct (conns (gs ! g))) \<Longrightarrow>
   (\<And>g h. g < length gs \<Longrightarrow> h < length gs \<Longrightarrow> g \<noteq> h \<Longrightarrow> set (conns (gs ! g)) \<inter> set (conns (gs ! h)) = {}) \<Longrightarrow>
     distinct (concat (map conns gs))"
proof (induction gs)
  case (Cons G gs)
  have "set (conns G) \<inter> set (conns H) = {}" if "H \<in> set gs" for H
    using that Cons.prems(2) [of 0 "Suc h" for h] by (auto simp: in_set_conv_nth)
  moreover have "distinct (concat (map conns gs))"
    by (rule Cons.IH) (use Cons.prems(1) [of "Suc g" for g] Cons.prems(2) [of "Suc g" "Suc h" for g h] in simp_all)
  ultimately show ?case using Cons.prems(1) [of 0] by auto
qed simp

lemma srv_distinct:
  assumes "srv_inv S srv"
  shows "distinct (concat (map conns (shm_grps srv @ tcp_grps srv)))"
proof (rule distinct_concat_conns)
  let ?gs = "shm_grps srv @ tcp_grps srv"
  have wf: "slots_wf (caps_of S) (NameSize (s_conf S)) (?gs, conn_pool srv)"
    using assms by (simp add: srv_inv_def grps_ok_def slots_inv_def slots_of_def)
  show "distinct (conns (?gs ! g))" if "g < length ?gs" for g
    using slots_wfD(1) [OF wf that] by (simp add: grp_wf_def)
  show "set (conns (?gs ! g)) \<inter> set (conns (?gs ! h)) = {}" if "g < length ?gs" "h < length ?gs" "g \<noteq> h" for g h
    using wf that unfolding slots_wf_def prod.case by blast
qed

text \<open>
  C31. The arrays of the server keep their shape in every reachable state: they have the
  configured lengths, every place of every group holds a valid index of the pool and every
  connection of the pool has exactly one place, and the entry the next connection is accepted
  into is free, so neither an access is out of range nor a descriptor overwritten.
\<close>

theorem server_tables_well_formed:
  assumes "reach (good_start S app) (srv_step N S app) srv"
  shows "length (new_conns srv) = MaxNewConnections S \<and>
    map (\<lambda>G. length (conns G)) (shm_grps srv) = replicate (MaxShmGrps S) (MaxShmConnsPerGrp S) \<and>
    map (\<lambda>G. length (conns G)) (tcp_grps srv) = replicate (MaxTcpGrps S) (MaxTcpConnsPerGrp S) \<and>
    distinct (concat (map conns (shm_grps srv @ tcp_grps srv))) \<and>
    set (concat (map conns (shm_grps srv @ tcp_grps srv))) = {..<length (conn_pool srv)} \<and>
    (avail_idx srv < MaxNewConnections S \<longrightarrow> nc_fd (new_conns srv ! avail_idx srv) < 0)"
proof -
  let ?gs = "shm_grps srv @ tcp_grps srv"
  have inv: "srv_inv S srv" using reach_srv_inv [OF assms] by simp
  then have wf: "slots_wf (caps_of S) (NameSize (s_conf S)) (?gs, conn_pool srv)"
    and len: "length (shm_grps srv) = MaxShmGrps S" "length (tcp_grps srv) = MaxTcpGrps S" and f: "front_ok S srv"
    by (simp_all add: srv_inv_def grps_ok_def slots_inv_def slots_of_def)
  have caps: "map (\<lambda>G. length (conns G)) (shm_grps srv) = replicate (MaxShmGrps S) (MaxShmConnsPerGrp S) \<and>
      map (\<lambda>G. length (conns G)) (tcp_grps srv) = replicate (MaxTcpGrps S) (MaxTcpConnsPerGrp S)"
    using wf len by (simp add: slots_wf_def caps_of_def append_eq_append_conv)
  have "distinct (concat (map conns ?gs))" by (rule srv_distinct [OF inv])
  moreover have "set (concat (map conns ?gs)) = {..<length (conn_pool srv)}"
    using wf by (simp add: slots_wf_def)
  ultimately show ?thesis using caps f by (simp add: front_ok_def)
qed

theorem server_tables_well_formed_witness:
  "distinct (concat (map conns (shm_grps one_login @ tcp_grps one_login))) \<and>
     nc_fd (new_conns one_login ! avail_idx one_login) < 0"
  using server_tables_well_formed [OF one_login_reach] one_login_live(4) by (simp add: small_sconf_def)

text \<open>
  C15. Every step of the server refines the specification of its slots: in a reachable state it
  is a sequence of the four slot moves (a connection is used, a free slot is reserved for a
  name, a slot goes live, a live slot is given up), or it is the stop, after which everything
  is empty.  In particular a name that has a slot keeps it until the stop.
\<close>

theorem server_refines_slots:
  assumes "reach (good_start S app) (srv_step N S app) srv" and "srv_step N S app srv srv1"
  shows "slot_move\<^sup>*\<^sup>* (slots_of srv) (slots_of srv1) \<and> names (slots_of srv) g \<subseteq> names (slots_of srv1) g \<or>
    srv_clean S srv1"
proof -
  have inv: "srv_inv S srv" "app_ok app" "1 < NameSize (s_conf S)" using reach_srv_inv [OF assms(1)] by simp_all
  have "slots_inv (caps_of S) (NameSize (s_conf S)) (slots_of srv)" using inv(1) by (simp add: srv_inv_def grps_ok_def)
  then show ?thesis
    using srv_step_refines [OF inv assms(2)] names_mono [of "slots_of srv" "slots_of srv1"] unfolding moved_def by blast
qed

theorem server_refines_slots_witness:
  "slot_move\<^sup>*\<^sup>* (slots_of new_small) (slots_of one_login)"
proof -
  obtain e where "PollCtl login_os small_sconf small_app small_junk 0 new_small 0 = Some (ok one_login, e)"
    using one_login_run by blast
  then have "srv_step login_os small_sconf small_app new_small one_login" by (rule step_PollCtl)
  moreover have "reach (good_start small_sconf small_app) (srv_step login_os small_sconf small_app) new_small"
    using new_small_start by (rule reach_start)
  ultimately show ?thesis using server_refines_slots [of small_sconf small_app login_os new_small one_login]
    by (simp add: srv_clean_def one_login_live)
qed

section \<open>Properties of the login\<close>

text \<open>
  C32. The sequence check of the login is right across the wrap-around: when the queue
  holds fewer than \<open>2 ^ 31\<close> numbers, \<open>CheckAckInQueue\<close> accepts exactly the acknowledgements
  \<open>seq_start + n\<close> with \<open>n\<close> up to the distance of the two ends.
\<close>

theorem CheckAckInQueue_correct:
  assumes "seq_dist s e < 2147483648"
  shows "CheckAckInQueue a s e \<longleftrightarrow> (\<exists>n. n \<le> seq_dist s e \<and> a = s + of_nat n)"
proof -
  show ?thesis
  proof
    assume "CheckAckInQueue a s e"
    then have xy: "unat (a - s) < 2147483648" "unat (e - a) < 2147483648"
      by (simp_all add: CheckAckInQueue_def sint_u32_nonneg)
    have "e - s = (a - s) + (e - a)" by simp
    then have "unat (e - s) = unat (a - s) + unat (e - a)"
      using xy by (simp only: unat_add_less)
    then have "seq_dist s a \<le> seq_dist s e" by (simp add: seq_dist_def)
    moreover have "a = s + of_nat (seq_dist s a)" by (simp add: seq_add_dist)
    ultimately show "\<exists>n. n \<le> seq_dist s e \<and> a = s + of_nat n" by blast
  next
    assume "\<exists>n. n \<le> seq_dist s e \<and> a = s + of_nat n"
    then obtain n where n: "n \<le> seq_dist s e" "a = s + of_nat n" by blast
    have an: "unat (a - s) = n" using n assms by simp
    have "e - a = (e - s) - (a - s)" by simp
    then have "unat (e - a) = unat (e - s) - n"
      using n(1) an by (simp only: unat_sub_le seq_dist_def)
    then show "CheckAckInQueue a s e"
      using an n assms by (simp add: CheckAckInQueue_def sint_u32_nonneg seq_dist_def)
  qed
qed

theorem CheckAckInQueue_correct_witness:
  "CheckAckInQueue 1 4294967294 3 \<and> \<not> CheckAckInQueue 4 4294967294 3"
proof -
  have d: "seq_dist 4294967294 3 = 5" by (simp add: seq_dist_def)
  have a: "\<exists>n. n \<le> 5 \<and> (1 :: u32) = 4294967294 + of_nat n"
    by (rule exI [of _ 3]) simp
  have b: "(4 :: u32) \<noteq> 4294967294 + of_nat n" if "n \<le> 5" for n
  proof
    assume eq: "4 = (4294967294 :: u32) + of_nat n"
    have "seq_dist 4294967294 (4294967294 + of_nat n) = n" by (rule seq_dist_add) (use that in simp)
    then have "seq_dist 4294967294 4 = n" by (simp only: eq [symmetric])
    moreover have "seq_dist 4294967294 4 = 6" by (simp add: seq_dist_def)
    ultimately show False using that by simp
  qed
  have "CheckAckInQueue x 4294967294 3 \<longleftrightarrow> (\<exists>n. n \<le> 5 \<and> x = 4294967294 + of_nat n)" for x
    using CheckAckInQueue_correct [of 4294967294 3 x] unfolding d by simp
  with a b show ?thesis by blast
qed

text \<open>
  C27. The loop over the connections of a group implements its specification: it takes the
  first place that is free or belongs to the client, gives a free one the client's name and
  changes nothing else, and finds none exactly when all places belong to others.
\<close>

theorem find_slot_first_free_or_own:
  assumes "name_wf n name" and "c_str name \<noteq> []"
    and "\<forall>k\<in>set ks. k < length pool \<and> length (remote_name (pool ! k)) = n"
  shows "find_slot n name ks 0 pool =
    (let j = slot_of (c_str name) ks pool in
     if j < length ks then (Some j, reserve n name (ks ! j) pool) else (None, pool))"
  using find_slot_ref [OF assms(1,2), of ks pool 0] assms(3) by (simp add: Let_def)

theorem find_slot_first_free_or_own_witness:
  "find_slot 16 (''bob'' @ replicate 13 NUL) [1, 2] 0 (conn_pool one_login) = (Some 0, conn_pool one_login)"
proof -
  have pool: "\<forall>k\<in>set [1, 2]. k < length (conn_pool one_login) \<and> length (remote_name (conn_pool one_login ! k)) = 16"
    by code_simp
  have nm: "c_str (''bob'' @ replicate 13 NUL) = ''bob''" by (simp add: c_str_def)
  then have wf: "name_wf 16 (''bob'' @ replicate 13 NUL)" by (simp add: name_wf_def)
  have "slot_of ''bob'' [1, 2] (conn_pool one_login) = 0"
    using one_login_live(3) by (simp add: slot_of_def)
  then show ?thesis
    by (subst find_slot_first_free_or_own [OF wf _ pool])
       (use one_login_live(3) nm in \<open>simp_all add: reserve_def Let_def\<close>)
qed

text \<open>
  C16. A login either fails, and then no group changes and the caller still has the
  descriptor to close, or it succeeds: then the descriptor is taken over by the connection
  at the client's place, which was not live, the acknowledgements of both sides lie in the
  queue of the other, the connection is the last live one of its group and the user is told.
\<close>

theorem HandleLogin_outcomes:
  assumes "srv_inv S srv" and "1 < NameSize (s_conf S)" and "length (client_name login) = NameSize (s_conf S)"
    and "0 \<le> fd" and "HandleLogin N S app J now fd addr shm req login srv e = Some (ok (fd1, srv1), e1)"
  shows "fd1 = fd \<and> shm_grps srv1 = shm_grps srv \<and> tcp_grps srv1 = tcp_grps srv \<or>
    fd1 = -1 \<and> (\<exists>G g i c1 name.
      g < length (grps_of shm srv) \<and> G = grps_of shm srv ! g \<and> live_cnt G \<le> i \<and> i < length (conns G) \<and>
      name = (client_name login)[NameSize (s_conf S) - 1 := NUL] \<and>
      i = slot_of (c_str name) (conns G) (conn_pool srv) \<and>
      accepted N S now fd addr shm g i c1
        (srv\<lparr>conn_pool := reserve (NameSize (s_conf S)) name (conns G ! i) (conn_pool srv)\<rparr>) srv1 e1 \<and>
      grps_of shm srv1 ! g = gone_live G i \<and>
      peer (conn_pool srv1 ! (conns G ! i)) = c_str name \<and> own_fd (conn_pool srv1 ! (conns G ! i)) = fd)"
proof -
  have inv: "slots_inv (caps_of S) (NameSize (s_conf S)) (slots_of srv)"
    using assms(1) by (simp add: srv_inv_def grps_ok_def)
  show ?thesis
    by (rule HandleLogin_cases [OF inv refl assms(2-5)]) blast+
qed

lemma login_reply:
  "\<exists>srv1 e1. HandleLogin login_os small_sconf small_app small_junk 0 5 ''a'' False zero_header
      (sample_login\<lparr>last_server_name := replicate 16 NUL\<rparr>) new_small 0 = Some (ok (-1, srv1), e1)"
proof -
  have "(case HandleLogin login_os small_sconf small_app small_junk 0 5 ''a'' False zero_header
      (sample_login\<lparr>last_server_name := replicate 16 NUL\<rparr>) new_small 0 of Some (Inr (fd, _), _) \<Rightarrow> fd = -1 | _ \<Rightarrow> False)"
    by code_simp
  then show ?thesis by (auto split: option.splits sum.splits)
qed

theorem HandleLogin_outcomes_witness:
  "\<exists>srv1 e1 i. HandleLogin login_os small_sconf small_app small_junk 0 5 ''a'' False zero_header
      (sample_login\<lparr>last_server_name := replicate 16 NUL\<rparr>) new_small 0 = Some (ok (-1, srv1), e1) \<and>
     own_fd (conn_pool srv1 ! i) = 5"
proof -
  obtain srv1 e1 where h: "HandleLogin login_os small_sconf small_app small_junk 0 5 ''a'' False zero_header
      (sample_login\<lparr>last_server_name := replicate 16 NUL\<rparr>) new_small 0 = Some (ok (-1, srv1), e1)"
    using login_reply by blast
  have "srv_inv small_sconf new_small"
    using reach_srv_inv [OF reach_start, OF new_small_start] by simp
  from HandleLogin_outcomes [OF this _ _ _ h] have "\<exists>i. own_fd (conn_pool srv1 ! i) = 5"
    by (auto simp: sample_login_def)
  with h show ?thesis by blast
qed

text \<open>
  C34. Places are given out for good: when every place of a group belongs to another name,
  then after any moves of the slots (by \<open>server_refines_slots\<close>, any steps of the server
  but the stop) the login loop still finds no place for the name, even if all the
  connections of the group have been closed in the meantime.
\<close>

theorem full_group_refuses_for_ever:
  assumes "srv_inv S srv" and "srv_inv S srv2" and "slot_move\<^sup>*\<^sup>* (slots_of srv) (slots_of srv2)"
    and "g < length (grps_of shm srv)" and "name_wf (NameSize (s_conf S)) name" and "c_str name \<noteq> []"
    and "\<forall>k\<in>set (conns (grps_of shm srv ! g)). peer (conn_pool srv ! k) \<notin> {[], c_str name}"
  shows "find_slot (NameSize (s_conf S)) name (conns (grps_of shm srv2 ! g)) 0 (conn_pool srv2) = (None, conn_pool srv2)"
proof -
  have inv: "slots_inv (caps_of S) (NameSize (s_conf S)) (slots_of srv)"
    "slots_inv (caps_of S) (NameSize (s_conf S)) (slots_of srv2)"
    using assms(1,2) by (simp_all add: srv_inv_def grps_ok_def)
  have len: "length (grps_of b srv2) = length (grps_of b srv)" "grp_idx shm srv2 g = grp_idx shm srv g" for b
    using assms(1,2) by (auto simp: srv_inv_def grps_ok_def grps_of_def grp_idx_def)
  have g2: "g < length (grps_of shm srv2)" using assms(4) len by simp
  have conns: "set (conns (grps_of shm srv2 ! g)) = set (conns (grps_of shm srv ! g))"
    using slot_moves_keep(1) [OF assms(3) inv(1), of "grp_idx shm srv g"]
      nth_grp_idx [OF assms(4)] nth_grp_idx [OF g2] len by (simp add: slots_of_def)
  have "peer (conn_pool srv2 ! k) \<notin> {[], c_str name}" if "k \<in> set (conns (grps_of shm srv2 ! g))" for k
    using slot_moves_keep(2) [OF assms(3) inv(1), of k] assms(7) that conns by (auto simp: slots_of_def)
  then have "takeWhile (\<lambda>k. peer (conn_pool srv2 ! k) \<notin> {[], c_str name}) (conns (grps_of shm srv2 ! g)) =
      conns (grps_of shm srv2 ! g)"
    unfolding takeWhile_eq_all_conv by blast
  then have "slot_of (c_str name) (conns (grps_of shm srv2 ! g)) (conn_pool srv2) = length (conns (grps_of shm srv2 ! g))"
    unfolding slot_of_def by (simp only:)
  then show ?thesis
    using find_slot_ref [OF assms(5,6), of "conns (grps_of shm srv2 ! g)" "conn_pool srv2" 0]
      members_wf [OF inv(2) g2] by (simp add: Let_def)
qed

definition eve_os :: "nat os" where
  "eve_os = login_os\<lparr>os_read := \<lambda>fd len n. (Inr (login_buf le_host
     \<lparr>hdr_size = of_nat (8 + sizeof_LoginMsg 1 16), msg_type = LoginMsg_type, ack_seq = 0\<rparr>
     (store_login le_host (sample_login\<lparr>client_name := ''eve'' @ replicate 13 NUL, last_server_name := replicate 16 NUL\<rparr>)) []
     (msg_len small_sconf)), n)\<rparr>"

definition two_logins :: server where
  "two_logins = (case PollCtl eve_os small_sconf small_app small_junk 0 one_login 0 of
     Some (Inr srv, e) \<Rightarrow> srv | _ \<Rightarrow> one_login)"

lemma two_logins_inv: "srv_inv small_sconf two_logins"
proof -
  have inv: "srv_inv small_sconf one_login" using reach_srv_inv [OF one_login_reach] by simp
  have "srv_inv small_sconf srv"
    if "PollCtl eve_os small_sconf small_app small_junk 0 one_login 0 = Some (ok srv, e)" for srv e
    using PollCtl_ok [OF inv _ that] by (simp add: moved_def)
  then show ?thesis using inv by (auto simp: two_logins_def split: option.splits sum.splits)
qed

theorem full_group_refuses_for_ever_witness:
  "find_slot 16 (''dan'' @ replicate 13 NUL) [1, 2] 0 (conn_pool (set_conn 1 (tconn_Close (conn_pool two_logins ! 1)) two_logins)) =
     (None, conn_pool (set_conn 1 (tconn_Close (conn_pool two_logins ! 1)) two_logins))"
proof -
  let ?srv2 = "set_conn 1 (tconn_Close (conn_pool two_logins ! 1)) two_logins"
  have st: "tcp_grps two_logins = [\<lparr>live_cnt = 2, conns = [1, 2]\<rparr>]" "1 < length (conn_pool two_logins)"
    "peer (conn_pool two_logins ! 1) = ''bob''" "peer (conn_pool two_logins ! 2) = ''eve''"
    by code_simp+
  have "conn_kept (conn_pool two_logins ! 1) (tconn_Close (conn_pool two_logins ! 1))"
    by (simp add: conn_kept_def tconn_Close_def RequestClose_def)
  note m = moved_set_conn [OF two_logins_inv st(2) this, unfolded moved_def]
  have nm: "c_str (''dan'' @ replicate 13 NUL) = ''dan''" by (simp add: c_str_def)
  then have wf: "name_wf 16 (''dan'' @ replicate 13 NUL)" by (simp add: name_wf_def)
  show ?thesis
    using full_group_refuses_for_ever [OF two_logins_inv, of ?srv2 0 False "''dan'' @ replicate 13 NUL"] m wf nm st
    by (simp add: grps_of_def set_conn_def)
qed

section \<open>Polling, starting and stopping\<close>

text \<open>
  C28. No closed connection outlives a control poll: after \<open>PollCtl\<close> in a reachable state every
  live connection of every group is open, whatever happened to the connections before.
\<close>

theorem PollCtl_removes_closed:
  assumes "reach (good_start S app) (srv_step N S app) srv" and "PollCtl N S app J now srv e = Some (ok srv1, e1)"
    and "G \<in> set (shm_grps srv1 @ tcp_grps srv1)" and "i < live_cnt G"
  shows "\<not> tconn_IsClosed (conn_pool srv1 ! (conns G ! i))"
proof -
  have inv: "srv_inv S srv" "1 < NameSize (s_conf S)" using reach_srv_inv [OF assms(1)] by simp_all
  have m: "moved S srv srv1 \<and> all_open srv1" by (rule PollCtl_ok [OF inv assms(2)])
  then have inv1: "srv_inv S srv1" by (simp add: moved_def)
  obtain m where at: "grp_at (live_cnt G) m (members (conn_pool srv1) G)" and wf: "grp_wf G"
    using inv1 assms(3) by (rule srv_grp)
  have "0 \<le> own_fd (conn_pool srv1 ! (conns G ! i))"
    using grp_atD(5) [OF at assms(4)] assms(4) wf by (simp add: grp_wf_def)
  moreover have "open_until srv1 G (live_cnt G)"
  proof -
    obtain b g where "g < length (grps_of b srv1)" "grps_of b srv1 ! g = G"
      using assms(3) by (metis (full_types) Un_iff grps_of_def in_set_conv_nth set_append)
    then show ?thesis using m unfolding all_open_def grp_open_def by blast
  qed
  ultimately show ?thesis
    using assms(4) by (auto simp: open_until_def tconn_IsClosed_def IsClosed_def)
qed

theorem PollCtl_removes_closed_witness:
  "\<not> tconn_IsClosed (conn_pool one_login ! 1)"
proof -
  obtain e where run: "PollCtl login_os small_sconf small_app small_junk 0 new_small 0 = Some (ok one_login, e)"
    using one_login_run by blast
  have "reach (good_start small_sconf small_app) (srv_step login_os small_sconf small_app) new_small"
    using new_small_start by (rule reach_start)
  from PollCtl_removes_closed [OF this run, of "\<lparr>live_cnt = 1, conns = [1, 2]\<rparr>" 0]
  show ?thesis by (simp add: one_login_live)
qed


definition net_os :: "nat os" where
  "net_os = login_os\<lparr>os_socket := \<lambda>n. (Inr 3, n), os_setsockopt := \<lambda>fd opt n. (Inr (), n)\<rparr>"

definition listening :: server where
  "listening = new_small\<lparr>listenfd := 3\<rparr>"

text \<open>With the socket calls of \<open>net_os\<close> binding fails: the address is in use.\<close>

lemma start_fails:
  "Start net_os small_sconf ''0.0.0.0'' 1234 new_small 0 = ((False, emit (OnSystemError ''bind'' 9) listening), 0)"
  by (simp add: Start_def net_os_def login_os_def file_os_def no_os_def new_small_def listening_def server_new_def
      small_sconf_def small_conf_def Let_def)


text \<open>
  A start that fails after the socket was created cannot be repeated: the descriptor
  stays in \<open>listenfd\<close>, and every later start, on any address and with the system calls
  now succeeding, fails with "already started" and makes no system call, until a stop.
\<close>

theorem failed_Start_sticks:
  assumes "listenfd srv < 0" and "os_socket N e = (Inr fd, e0)" and "0 \<le> fd"
    and "Start N S ip port srv e = ((False, srv1), e1)"
  shows "listenfd srv1 = fd \<and>
    Start N2 S2 ip2 port2 srv1 e2 = ((False, emit (OnSystemError ''already started'' 0) srv1), e2)"
proof -
  have "listenfd srv1 = fd"
    using assms by (auto simp: Start_def emit_def Let_def split: if_splits sum.splits prod.splits)
  then show ?thesis using assms(3) by (simp add: Start_def)
qed

theorem failed_Start_sticks_witness:
  "\<exists>srv1. Start net_os small_sconf ''0.0.0.0'' 1234 new_small 0 = ((False, srv1), 0) \<and>
     Start net_os small_sconf ''0.0.0.0'' 5678 srv1 0 = ((False, emit (OnSystemError ''already started'' 0) srv1), 0)"
proof -
  have "listenfd new_small < 0" by (simp add: new_small_def server_new_def Let_def)
  moreover have "os_socket net_os 0 = (Inr 3, 0)" by (simp add: net_os_def)
  ultimately have "Start net_os small_sconf ''0.0.0.0'' 5678 (emit (OnSystemError ''bind'' 9) listening) 0 =
      ((False, emit (OnSystemError ''already started'' 0) (emit (OnSystemError ''bind'' 9) listening)), 0)"
    by (rule failed_Start_sticks [OF _ _ _ start_fails, THEN conjunct2]) simp
  then show ?thesis using start_fails by blast
qed

text \<open>
  A connection whose first read does not return a whole login is dropped: after a read
  error other than would-block, a would-block after the timeout, an end of file, fewer bytes than the login
  (also when the rest is still on its way) or bytes that are no login, the socket is closed, its entry is free
  for the next connection and nothing else has changed.
\<close>

theorem unfit_login_dropped:
  assumes "0 \<le> nc_fd (new_conns srv ! i)" and "os_read N (nc_fd (new_conns srv ! i)) (msg_len S) e = (r, e1)"
    and "case r of Inl err \<Rightarrow> err \<noteq> EAGAIN \<or> NewConnectionTimeout S < now - nc_time (new_conns srv ! i)
      | Inr bs \<Rightarrow> length bs < msg_len S \<or> decode_login S bs = None"
  shows "visit_entry N S app J now i srv e =
    Some (ok (srv\<lparr>new_conns := (new_conns srv)[i := (new_conns srv ! i)\<lparr>nc_fd := -1\<rparr>], avail_idx := i\<rparr>),
      os_close N (nc_fd (new_conns srv ! i)) e1)"
proof (cases r)
  case (Inl err)
  then show ?thesis using assms by (auto simp: visit_entry_def close_entry_def Let_def)
next
  case (Inr bs)
  then have "decode_login S bs = None" using assms(3) by (auto simp: decode_login_def Let_def)
  then show ?thesis using assms(1,2) Inr by (simp add: visit_entry_def close_entry_def Let_def)
qed

theorem unfit_login_dropped_witness:
  "visit_entry (login_os\<lparr>os_read := \<lambda>fd len n. (Inr (take 40 login_bytes), n)\<rparr>) small_sconf small_app small_junk 0 0
     (new_small\<lparr>new_conns := [\<lparr>nc_time = 0, nc_fd = 5, nc_addr = ''''\<rparr>]\<rparr>) 0 =
   Some (ok (new_small\<lparr>new_conns := [\<lparr>nc_time = 0, nc_fd = -1, nc_addr = ''''\<rparr>], avail_idx := 0\<rparr>), 0)"
proof -
  have "msg_len small_sconf = 56" by code_simp
  then have "length (take 40 login_bytes) < msg_len small_sconf" by simp
  then show ?thesis
    using unfit_login_dropped [of "new_small\<lparr>new_conns := [\<lparr>nc_time = 0, nc_fd = 5, nc_addr = ''''\<rparr>]\<rparr>" 0
        "login_os\<lparr>os_read := \<lambda>fd len n. (Inr (take 40 login_bytes), n)\<rparr>" small_sconf 0 "Inr (take 40 login_bytes)" 0
        0 small_app small_junk]
    by (simp add: login_os_def file_os_def no_os_def)
qed

end
