(* ===== verification/ClientProps.thy ===== *)
theory ClientProps
  imports TcpShmClient ServerProps
begin

text \<open>
  The properties of the client, and of client and server together: no descriptor is leaked,
  the state after a successful login, the login as the server decodes it, and the agreement of
  the two sides on whether the connection is a new one.
\<close>

section \<open>Descriptors\<close>

text \<open>
  What the documentation of the system calls says about the descriptors of a process:
  \<open>fds e\<close> is the set of its open descriptors.
\<close>

definition gains :: "('e \<Rightarrow> fd set) \<Rightarrow> 'e \<Rightarrow> (errno + fd) \<times> 'e \<Rightarrow> bool" where
  "gains fds e res \<longleftrightarrow> (case res of
      (Inl _, e1) \<Rightarrow> fds e1 = fds e
    | (Inr fd, e1) \<Rightarrow> 0 \<le> fd \<and> fd \<notin> fds e \<and> fds e1 = insert fd (fds e))"

definition fd_calls :: "'e os \<Rightarrow> ('e \<Rightarrow> fd set) \<Rightarrow> bool" where
  "fd_calls N fds \<longleftrightarrow>
     (\<forall>f e. gains fds e (os_open N f e) \<and> gains fds e (os_shm_open N f e) \<and> gains fds e (os_socket N e)) \<and>
     (\<forall>fd e. fds (os_close N fd e) = fds e - {fd}) \<and>
     (\<forall>fd n e. fds (snd (os_ftruncate N fd n e)) = fds e \<and> fds (snd (os_mmap_ptcp N fd n e)) = fds e \<and>
        fds (snd (os_mmap_ring N fd n e)) = fds e \<and> fds (snd (os_mmap_name N fd n e)) = fds e \<and>
        fds (snd (os_read N fd n e)) = fds e) \<and>
     (\<forall>q e. fds (os_munmap_ptcp N q e) = fds e) \<and> (\<forall>q e. fds (os_munmap_ring N q e) = fds e) \<and>
     (\<forall>q e. fds (os_munmap_name N q e) = fds e) \<and> (\<forall>fd bs e. fds (snd (os_send N fd bs e)) = fds e) \<and>
     (\<forall>fd opt e. fds (snd (os_setsockopt N fd opt e)) = fds e) \<and> (\<forall>fd e. fds (os_nonblock N fd e) = fds e) \<and>
     (\<forall>fd ip port e. fds (snd (os_connect N fd ip port e)) = fds e)"

lemma fd_callsD:
  assumes "fd_calls N fds"
  shows "os_open N f e = (r, e1) \<Longrightarrow> gains fds e (r, e1)" "os_shm_open N f e = (r, e1) \<Longrightarrow> gains fds e (r, e1)"
    "os_socket N e = (r, e1) \<Longrightarrow> gains fds e (r, e1)" "fds (os_close N fd e) = fds e - {fd}"
    "os_ftruncate N fd n e = (ru, e1) \<Longrightarrow> fds e1 = fds e"
    "os_mmap_ptcp N fd n e = (rp, e1) \<Longrightarrow> fds e1 = fds e" "os_mmap_ring N fd n e = (rr, e1) \<Longrightarrow> fds e1 = fds e"
    "os_mmap_name N fd n e = (rn, e1) \<Longrightarrow> fds e1 = fds e" "os_read N fd n e = (rb, e1) \<Longrightarrow> fds e1 = fds e"
    "fds (os_munmap_ptcp N qp e) = fds e" "fds (os_munmap_ring N qr e) = fds e" "fds (os_munmap_name N qn e) = fds e"
    "os_send N fd bs e = (rs, e1) \<Longrightarrow> fds e1 = fds e" "os_setsockopt N fd opt e = (ru, e1) \<Longrightarrow> fds e1 = fds e"
    "fds (os_nonblock N fd e) = fds e" "os_connect N fd ip port e = (ru, e1) \<Longrightarrow> fds e1 = fds e"
  using assms unfolding fd_calls_def by (metis snd_conv)+

text \<open>Mapping a file closes its descriptor on every path.\<close>

lemma my_mmap_fds:
  assumes N: "fd_calls N fds" and m: "\<And>fd n e r e1. mm fd n e = (r, e1) \<Longrightarrow> fds e1 = fds e"
    and run: "my_mmap N mm sz file shm e = (res, e1)"
  shows "fds e1 = fds e"
proof -
  obtain r e2 where o: "(if shm then os_shm_open N file e else os_open N file e) = (r, e2)" by fastforce
  then have g: "gains fds e (r, e2)" using fd_callsD(1,2) [OF N] by (cases shm) simp_all
  show ?thesis
  proof (cases r)
    case (Inl err)
    then show ?thesis using run o g by (simp add: my_mmap_def gains_def)
  next
    case (Inr fd)
    obtain r3 e3 where t: "os_ftruncate N fd sz e2 = (r3, e3)" by fastforce
    obtain r4 e4 where mp: "mm fd sz e3 = (r4, e4)" by fastforce
    have "e1 = os_close N fd e3 \<or> e1 = os_close N fd e4"
      using run o Inr t mp by (auto simp: my_mmap_def split: sum.splits)
    then have "fds e1 = fds e2 - {fd}"
      using fd_callsD(4,5) [OF N] t m mp by metis
    then show ?thesis using g Inr by (auto simp: gains_def)
  qed
qed

lemma OpenFile_fds:
  assumes N: "fd_calls N fds" and run: "tconn_OpenFile N cf shm c e = ((r, c1), e1)"
  shows "fds e1 = fds e"
proof -
  have ring: "fds e2 = fds e" if "open_ring N cf path q e = (res, e2)" for path q e res e2
    using that my_mmap_fds [OF N, of "os_mmap_ring N"] fd_callsD(7) [OF N]
    by (cases q) (auto simp: open_ring_def)
  have queue: "fds e2 = fds e" if "my_mmap N (os_mmap_ptcp N) sz path False e = (res, e2)" for sz path e res e2
    using fd_callsD(6) [OF N] by (rule my_mmap_fds [OF N _ that])
  show ?thesis
    using run by (auto simp: tconn_OpenFile_def pconn_OpenFile_def Let_def dest!: ring queue
        split: if_splits prod.splits sum.splits option.splits)
qed

lemma TryCloseFd_fds:
  assumes N: "fd_calls N fds" and "tconn_TryCloseFd N c e = (b, c1, e1)" and "sockfd (ptcp_conn c) < 0"
  shows "fds e1 = fds e - (if 0 \<le> own_fd c then {own_fd c} else {})" "own_fd c1 < 0"
    "sockfd (ptcp_conn c1) < 0"
  using assms(2,3) fd_callsD(4) [OF N] by (auto simp: tconn_TryCloseFd_def TryCloseFd_def split: if_splits)

lemma Release_fds:
  assumes N: "fd_calls N fds" and "tconn_Release N c e = (c1, e1)"
  shows "fds e1 = fds e - (if 0 \<le> own_fd c then {own_fd c} else {})" "own_fd c1 < 0" "sockfd (ptcp_conn c1) < 0"
proof -
  have u: "fds (unmap_ring N r e) = fds e" for r e
    using fd_callsD(11) [OF N] by (simp add: unmap_ring_def my_munmap_def split: option.splits)
  show "fds e1 = fds e - (if 0 \<le> own_fd c then {own_fd c} else {})" "own_fd c1 < 0" "sockfd (ptcp_conn c1) < 0"
    using assms(2) fd_callsD(4,10) [OF N]
    by (auto simp: tconn_Release_def pconn_Release_def TryCloseFd_def my_munmap_def Let_def u
        split: if_splits prod.splits option.splits)
qed

lemma send_loop_fds:
  assumes N: "fd_calls N fds" and "send_loop N fd mem p sz e = Some (r, e1)"
  shows "fds e1 = fds e"
proof -
  let ?P = "\<lambda>N fd mem p sz e y. fd_calls N fds \<longrightarrow> fds (snd y) = fds e"
  have "?P N fd mem p sz e (r, e1)"
  proof (rule send_loop.raw_induct [where P = ?P, OF _ assms(2)])
    fix send N fd mem p sz e y
    assume IH: "\<And>N fd mem p sz e y. send N fd mem p sz e = Some y \<Longrightarrow> ?P N fd mem p sz e y"
      and eq: "(case os_send N fd (seg p (p + unat sz) mem) e of
        (Inl err, e1) \<Rightarrow>
          if err \<noteq> EAGAIN \<or> sz AND 7 \<noteq> 0 then Some (Inl err, e1) else Some (Inr sz, e1)
      | (Inr sent, e1) \<Rightarrow>
          let sz1 = sz - of_nat sent in
          if 0 < sz1 then send N fd mem (p + sent) sz1 e1 else Some (Inr sz1, e1)) = Some y"
    show "?P N fd mem p sz e y"
    proof
      assume N: "fd_calls N fds"
      obtain r e2 where s: "os_send N fd (seg p (p + unat sz) mem) e = (r, e2)" by fastforce
      have f: "fds e2 = fds e" by (rule fd_callsD(13) [OF N s])
      show "fds (snd y) = fds e"
        using eq s f IH N by (auto simp: Let_def split: sum.splits if_splits)
    qed
  qed
  then show ?thesis using N by simp
qed

lemma Open_fds:
  assumes N: "fd_calls N fds" and run: "tconn_Open N cf fd ack now c e = Some (r, e1)"
  shows "fds e1 = fds e"
proof -
  have sp: "fds e2 = fds e" if "SendPending N cf c e = Some (r, e2)" for c e r e2
    using that send_loop_fds [OF N]
    by (auto simp: SendPending_def Let_def split: if_splits option.splits sum.splits prod.splits)
  show ?thesis
    using run by (auto simp: tconn_Open_def pconn_Open_def Let_def dest: sp split: option.splits sum.splits)
qed

definition held :: "client \<Rightarrow> fd set" where
  "held cl = (let fd = own_fd (cli_conn cl) in if 0 \<le> fd then {fd} else {})"

definition app_keeps_fds :: "'e client_app \<Rightarrow> ('e \<Rightarrow> fd set) \<Rightarrow> bool" where
  "app_keeps_fds app fds \<longleftrightarrow> (\<forall>rsp e. fds (snd (OnLoginSuccess app rsp e)) = fds e)"

text \<open>The stages of \<open>Connect\<close>; the connection is closed and owns no descriptor throughout.\<close>

lemma map_server_name_fds:
  assumes N: "fd_calls N fds" and run: "map_server_name N S cl e = (r, e1)"
  shows "fds e1 = fds e" and "r = Inr (srv, cl1) \<Longrightarrow> ptcp_conn (cli_conn cl1) = ptcp_conn (cli_conn cl)"
proof -
  have mm: "fds e1 = fds e" if "my_mmap N (os_mmap_name N) sz path False e = (res, e1)" for sz path res
    using fd_callsD(8) [OF N] by (rule my_mmap_fds [OF N _ that])
  show "fds e1 = fds e"
    using run by (auto simp: map_server_name_def Let_def dest: mm split: option.splits sum.splits prod.splits)
  show "r = Inr (srv, cl1) \<Longrightarrow> ptcp_conn (cli_conn cl1) = ptcp_conn (cli_conn cl)"
    using run by (auto simp: map_server_name_def Let_def split: option.splits sum.splits prod.splits)
qed

lemma login_seqs_fds:
  assumes N: "fd_calls N fds" and run: "login_seqs N S shm srv c e = Some (ok (r, c1), e1)"
  shows "fds e1 = fds e" and "conn_kept c c1"
proof -
  have "fds e1 = fds e \<and> conn_kept c c1"
    using run OpenFile_fds [OF N] OpenFile_kept
    by (auto simp: login_seqs_def chk_bind_ok_iff split: if_splits prod.splits option.splits)
  then show "fds e1 = fds e" "conn_kept c c1" by simp_all
qed

lemma client_socket_fds:
  assumes N: "fd_calls N fds" and run: "client_socket N S ip port e = (r, e1)"
  shows "case r of Inl _ \<Rightarrow> fds e1 = fds e | Inr fd \<Rightarrow> 0 \<le> fd \<and> fd \<notin> fds e \<and> fds e1 = insert fd (fds e)"
proof -
  obtain s e2 where s: "os_socket N e = (s, e2)" by fastforce
  have g: "gains fds e (s, e2)" by (rule fd_callsD(3) [OF N s])
  show ?thesis
  proof (cases s)
    case (Inl err)
    then show ?thesis using run s g by (auto simp: client_socket_def gains_def)
  next
    case (Inr fd)
    have G: "0 \<le> fd" "fd \<notin> fds e" "fds e2 = insert fd (fds e)" using g Inr by (simp_all add: gains_def)
    obtain r3 e3 where a: "os_setsockopt N fd ''SO_RCVTIMEO'' e2 = (r3, e3)" by fastforce
    obtain r4 e4 where b: "os_setsockopt N fd ''SO_SNDTIMEO'' e3 = (r4, e4)" by fastforce
    obtain r5 e5 where c: "(if TcpNoDelay (s_conf S) then os_setsockopt N fd ''TCP_NODELAY'' e4 else (Inr (), e4)) = (r5, e5)"
      by fastforce
    obtain r6 e6 where d: "os_connect N fd ip port e5 = (r6, e6)" by fastforce
    have f: "fds e3 = fds e2" "fds e4 = fds e2" "fds e5 = fds e2" "fds e6 = fds e2"
      using fd_callsD(14,16) [OF N] a b c d by (metis prod.inject)+
    have cl: "fds (os_close N fd x) = fds e" if "fds x = fds e2" for x
      using G that fd_callsD(4) [OF N] by simp
    show ?thesis
      using run s Inr a b c d G f cl by (auto simp: client_socket_def split: sum.splits)
  qed
qed

lemma exchange_login_fds:
  assumes N: "fd_calls N fds" and run: "exchange_login N S J fd ack login e = (r, e1)"
  shows "fds e1 = fds e"
proof -
  obtain r2 e2 where s: "os_send N fd (login_message S J ack login) e = (r2, e2)" by fastforce
  obtain r3 e3 where rd: "os_read N fd (rsp_len S) e2 = (r3, e3)" by fastforce
  have "e1 = e2 \<or> e1 = e3"
    using run s rd by (auto simp: exchange_login_def split: sum.splits if_splits option.splits)
  moreover have "fds e2 = fds e" "fds e3 = fds e" using fd_callsD(9,13) [OF N] s rd by metis+
  ultimately show ?thesis by blast
qed

lemma adopt_server_fds:
  assumes N: "fd_calls N fds" and closed: "idle (cli_conn cl)"
    and run: "adopt_server N S shm srv rsp cl e = (ok (r, cl1), e1)"
  shows "fds e1 = fds e" and "idle (cli_conn cl1)"
proof -
  let ?n = "NameSize (s_conf S)"
  let ?name = "(server_name rsp)[?n - 1 := NUL]"
  have "fds e1 = fds e \<and> idle (cli_conn cl1)"
  proof (cases "strncmp_eq srv ?name ?n")
    case True
    then show ?thesis using run closed by (auto simp: adopt_server_def Let_def)
  next
    case False
    obtain c1 e2 where rel: "tconn_Release N (cli_conn cl) e = (c1, e2)" by fastforce
    define c2 where "c2 = c1\<lparr>remote_name := set_name ?n (remote_name c1) (strncpy srv ?name ?n)\<rparr>"
    obtain o3 c3 e3 where op: "tconn_OpenFile N (s_conf S) shm c2 e2 = ((o3, c3), e3)" by (metis prod.exhaust)
    have R: "fds e2 = fds e" "idle c2"
      using Release_fds [OF N rel] closed by (auto simp: c2_def idle_def)
    have O: "fds e3 = fds e2" "conn_kept c2 c3" using OpenFile_fds [OF N op] OpenFile_kept [OF op] by simp_all
    have i3: "idle c3" using O(2) R(2) by (auto simp: conn_kept_def sock_kept_def idle_def)
    show ?thesis
    proof (cases o3)
      case (Some err)
      then show ?thesis
        using run False rel op [unfolded c2_def] R(1) O(1) i3 by (auto simp: adopt_server_def Let_def)
    next
      case None
      then obtain c4 where c4: "tconn_Reset c3 = ok c4" "cli_conn cl1 = c4" "e1 = e3"
        using run False rel op [unfolded c2_def] by (auto simp: adopt_server_def Let_def chk_bind_ok_iff)
      have "idle c4" using Reset_kept [OF c4(1)] i3 by (auto simp: conn_kept_def sock_kept_def idle_def)
      then show ?thesis using c4 R O by simp
    qed
  qed
  then show "fds e1 = fds e" "idle (cli_conn cl1)" by simp_all
qed

lemma finish_login_fds:
  assumes N: "fd_calls N fds" and app: "app_keeps_fds app fds" and closed: "idle (cli_conn cl)"
    and fd: "0 \<le> fd" "fd \<notin> F" "fds e = insert fd F"
    and run: "finish_login N S app shm srv fd seqs h rsp cl e = Some (ok (b, cl1), e1)"
  shows "fds e1 = F \<union> held cl1 \<and> held cl1 = (if b then {fd} else {})"
proof -
  have cl: "fds (os_close N fd x) = F" if "fds x = insert fd F" for x
    using fd that fd_callsD(4) [OF N] by simp
  have none: "held x = {}" if "idle (cli_conn x)" for x using that by (simp add: held_def idle_def Let_def)
  show ?thesis
  proof (cases "status rsp = 0")
    case False
    then show ?thesis
      using run cl [of e] fd none [OF closed] by (auto simp: finish_login_def connect_fail_def cemit_def held_def Let_def)
  next
    case True
    obtain r cl2 e2 where ad: "adopt_server N S shm srv rsp cl e = (ok (r, cl2), e2)"
      using run True by (auto simp: finish_login_def split: prod.splits sum.splits)
    note A = adopt_server_fds [OF N closed ad]
    show ?thesis
    proof (cases r)
      case (Some err)
      then show ?thesis
        using run True ad cl [of e2] A fd none [OF A(2)]
        by (auto simp: finish_login_def connect_fail_def cemit_def held_def Let_def split: prod.splits)
    next
      case None
      obtain now e3 where ls: "OnLoginSuccess app (rsp\<lparr>server_name := (server_name rsp)[NameSize (s_conf S) - 1 := NUL]\<rparr>)
          (os_nonblock N fd e2) = (now, e3)" by fastforce
      have f3: "fds e3 = insert fd F"
        using app ls A(1) fd(3) fd_callsD(15) [OF N] unfolding app_keeps_fds_def by (metis snd_conv)
      obtain c where o: "tconn_Open N (s_conf S) fd (ack_seq h) now (cli_conn cl2) e3 = Some (ok c, e1)"
        and b: "b" "cl1 = cl2\<lparr>cli_conn := c\<rparr>"
        using run True ad None ls by (auto simp: finish_login_def chk_bind_ok_iff split: prod.splits)
      have "fds e1 = insert fd F" using Open_fds [OF N o] f3 by simp
      moreover have "own_fd c = fd" using Open_sock(3) [OF o] .
      ultimately show ?thesis using b fd(1) by (simp add: held_def)
    qed
  qed
qed

lemma Connect_stages:
  assumes "Connect N S app J shm ip port ud cl e = Some (ok (b, cl1), e1)" "tconn_IsClosed (cli_conn cl)"
  obtains (map_failed) b1 c1 e2 err where "tconn_TryCloseFd N (cli_conn cl) e = (b1, c1, e2)" "\<not> b"
      "map_server_name N S (cl\<lparr>cli_conn := c1\<rparr>) e2 = (Inl err, e1)" "cli_conn cl1 = c1" "server_file cl1 = server_file cl"
  | (queue_failed) b1 c1 e2 srv cl2 e3 err c3 where "tconn_TryCloseFd N (cli_conn cl) e = (b1, c1, e2)" "\<not> b"
      "map_server_name N S (cl\<lparr>cli_conn := c1\<rparr>) e2 = (Inr (srv, cl2), e3)"
      "login_seqs N S shm srv (cli_conn cl2) e3 = Some (ok (Inl err, c3), e1)" "cli_conn cl1 = c3"
      "server_file cl1 = server_file cl2"
  | (socket_failed) b1 c1 e2 srv cl2 e3 seqs c3 e4 err where "tconn_TryCloseFd N (cli_conn cl) e = (b1, c1, e2)" "\<not> b"
      "map_server_name N S (cl\<lparr>cli_conn := c1\<rparr>) e2 = (Inr (srv, cl2), e3)"
      "login_seqs N S shm srv (cli_conn cl2) e3 = Some (ok (Inr seqs, c3), e4)"
      "client_socket N S ip port e4 = (Inl err, e1)" "cli_conn cl1 = c3" "server_file cl1 = server_file cl2"
  | (login_failed) b1 c1 e2 srv cl2 e3 seqs c3 e4 fd e5 ack login err e6 where
      "tconn_TryCloseFd N (cli_conn cl) e = (b1, c1, e2)" "\<not> b"
      "map_server_name N S (cl\<lparr>cli_conn := c1\<rparr>) e2 = (Inr (srv, cl2), e3)"
      "login_seqs N S shm srv (cli_conn cl2) e3 = Some (ok (Inr seqs, c3), e4)"
      "client_socket N S ip port e4 = (Inr fd, e5)" "exchange_login N S J fd ack login e5 = (Inl err, e6)"
      "e1 = os_close N fd e6" "cli_conn cl1 = c3" "server_file cl1 = server_file cl2"
  | (answered) b1 c1 e2 srv cl2 e3 seqs c3 e4 fd e5 ack login h rsp e6 where
      "tconn_TryCloseFd N (cli_conn cl) e = (b1, c1, e2)"
      "map_server_name N S (cl\<lparr>cli_conn := c1\<rparr>) e2 = (Inr (srv, cl2), e3)"
      "login_seqs N S shm srv (cli_conn cl2) e3 = Some (ok (Inr seqs, c3), e4)"
      "client_socket N S ip port e4 = (Inr fd, e5)" "exchange_login N S J fd ack login e5 = (Inr (h, rsp), e6)"
      "finish_login N S app shm srv fd seqs h rsp (cl2\<lparr>cli_conn := c3\<rparr>) e6 = Some (ok (b, cl1), e1)"
proof -
  obtain b1 c1 e2 where tc: "tconn_TryCloseFd N (cli_conn cl) e = (b1, c1, e2)" by (metis prod.exhaust)
  obtain r2 e3 where ms: "map_server_name N S (cl\<lparr>cli_conn := c1\<rparr>) e2 = (r2, e3)" by fastforce
  note run = assms(1) [unfolded Connect_def tc prod.case Let_def ms]
  show thesis
  proof (cases r2)
    case (Inl err)
    obtain msg no where "err = (msg, no)" by (cases err)
    then show thesis using run assms(2) ms Inl map_failed [OF tc]
      by (simp add: connect_fail_def cemit_def) (metis client.select_convs client.surjective client.update_convs)
  next
    case (Inr s)
    obtain srv cl2 where s: "s = (srv, cl2)" by (cases s)
    obtain r4 e4 where lq: "login_seqs N S shm srv (cli_conn cl2) e3 = Some (r4, e4)"
      using run assms(2) Inr s by (auto split: option.splits)
    obtain q c3 where r4: "r4 = ok (q, c3)" using run assms(2) Inr s lq by (cases r4) auto
    show thesis
    proof (cases q)
      case (Inl err)
      obtain msg no where "err = (msg, no)" by (cases err)
      then have "\<not> b" "cl1 = cemit (CliSystemError msg no) (cl2\<lparr>cli_conn := c3\<rparr>)" "e4 = e1"
        using run assms(2) Inr s lq r4 Inl by (auto simp: connect_fail_def)
      then show thesis using queue_failed [OF tc, of srv cl2 e3 err c3] ms Inr s lq r4 Inl by (simp add: cemit_def)
    next
      case seqs: (Inr seqs)
      obtain ack sstart send where sq: "seqs = (ack, sstart, send)" by (cases seqs)
      obtain r5 e5 where cs: "client_socket N S ip port e4 = (r5, e5)" by fastforce
      show thesis
      proof (cases r5)
        case (Inl err)
        obtain msg no where "err = (msg, no)" by (cases err)
        then have "\<not> b" "cl1 = cemit (CliSystemError msg no) (cl2\<lparr>cli_conn := c3\<rparr>)" "e5 = e1"
          using run assms(2) Inr s lq r4 seqs sq cs Inl by (auto simp: connect_fail_def)
        then show thesis using socket_failed [OF tc, of srv cl2 e3 seqs c3 e4 err] ms Inr s lq r4 seqs cs Inl
          by (simp add: cemit_def)
      next
        case fd: (Inr fd)
        define login where "login = (make_login S J shm ud cl2 srv)\<lparr>client_seq_start := sstart, client_seq_end := send\<rparr>"
        obtain r6 e6 where xl: "exchange_login N S J fd ack login e5 = (r6, e6)" by fastforce
        show thesis
        proof (cases r6)
          case (Inl err)
          obtain msg no where "err = (msg, no)" by (cases err)
          then have "\<not> b" "cl1 = cemit (CliSystemError msg no) (cl2\<lparr>cli_conn := c3\<rparr>)" "e1 = os_close N fd e6"
            using run assms(2) Inr s lq r4 seqs sq cs fd xl [unfolded login_def] Inl by (auto simp: connect_fail_def)
          then show thesis using login_failed [OF tc, of srv cl2 e3 seqs c3 e4 fd e5 ack login err e6] ms Inr s lq r4 seqs cs fd xl Inl
            by (simp add: cemit_def)
        next
          case ok: (Inr hr)
          obtain h rsp where hr: "hr = (h, rsp)" by (cases hr)
          have "finish_login N S app shm srv fd seqs h rsp (cl2\<lparr>cli_conn := c3\<rparr>) e6 = Some (ok (b, cl1), e1)"
            using run assms(2) Inr s lq r4 seqs sq cs fd xl [unfolded login_def] ok hr by simp
          then show thesis using answered [OF tc, of srv cl2 e3 seqs c3 e4 fd e5 ack login h rsp e6] ms Inr s lq r4 seqs cs fd xl ok hr
            by simp
        qed
      qed
    qed
  qed
qed

text \<open>
  C19. The client leaks no descriptor: whatever the system calls return and on every path of
  \<open>Connect\<close>, the open descriptors afterwards are those before, without the one the closed
  connection still held, and with the one the connection holds now; a failed \<open>Connect\<close>
  on a closed connection leaves it without any.
\<close>

theorem Connect_no_descriptor_leak:
  assumes "fd_calls N fds" and "app_keeps_fds app fds" and "held cl \<subseteq> fds e"
    and "Connect N S app J shm ip port ud cl e = Some (ok (b, cl1), e1)"
  shows "fds e1 = (fds e - held cl) \<union> held cl1 \<and> (fds e - held cl) \<inter> held cl1 = {} \<and>
    (tconn_IsClosed (cli_conn cl) \<and> \<not> b \<longrightarrow> held cl1 = {})"
proof (cases "tconn_IsClosed (cli_conn cl)")
  case False
  then have "e1 = e" "cli_conn cl1 = cli_conn cl"
    using assms(4) by (auto simp: Connect_def connect_fail_def cemit_def)
  then show ?thesis using assms(3) False by (auto simp: held_def)
next
  case True
  note N = assms(1)
  have idle_held: "held x = {}" if "idle (cli_conn x)" for x using that by (simp add: held_def idle_def Let_def)
  have first: "fds e2 = fds e - held cl \<and> idle c1" if "tconn_TryCloseFd N (cli_conn cl) e = (b1, c1, e2)" for b1 c1 e2
    using TryCloseFd_fds [OF N that] True by (simp add: held_def Let_def idle_def tconn_IsClosed_def IsClosed_def)
  have name: "fds e3 = fds e2" if "map_server_name N S x e2 = (r, e3)" for x e2 r e3
    by (rule map_server_name_fds(1) [OF N that])
  have name_idle: "idle (cli_conn cl2)" if "map_server_name N S (cl\<lparr>cli_conn := c1\<rparr>) e2 = (Inr (srv, cl2), e3)" "idle c1"
    for c1 e2 srv cl2 e3
    using map_server_name_fds(2) [OF N that(1) refl] that(2) by (simp add: idle_def)
  have seqs: "fds e4 = fds e3 \<and> idle c3" if "login_seqs N S shm srv c2 e3 = Some (ok (r, c3), e4)" "idle c2" for srv c2 e3 r c3 e4
    using login_seqs_fds [OF N that(1)] that(2) by (auto simp: conn_kept_def sock_kept_def idle_def)
  have none: ?thesis if "fds e1 = fds e - held cl" "idle (cli_conn cl1)" using that idle_held by simp
  from assms(4) True show ?thesis
  proof (cases rule: Connect_stages)
    case (map_failed b1 c1 e2 err)
    show ?thesis by (rule none) (use first [OF map_failed(1)] name [OF map_failed(3)] map_failed in auto)
  next
    case (queue_failed b1 c1 e2 srv cl2 e3 err c3)
    show ?thesis
      by (rule none)
         (use first [OF queue_failed(1)] name [OF queue_failed(3)] name_idle [OF queue_failed(3)]
           seqs [OF queue_failed(4)] queue_failed in auto)
  next
    case (socket_failed b1 c1 e2 srv cl2 e3 seqs c3 e4 err)
    show ?thesis
      by (rule none)
         (use first [OF socket_failed(1)] name [OF socket_failed(3)] name_idle [OF socket_failed(3)]
           \<open>login_seqs N S shm srv (cli_conn cl2) e3 = _\<close> [THEN seqs] client_socket_fds [OF N socket_failed(5)] socket_failed in auto)
  next
    case (login_failed b1 c1 e2 srv cl2 e3 seqs c3 e4 fd e5 ack login err e6)
    have a: "fds e4 = fds e - held cl" "idle c3"
      using first [OF login_failed(1)] name [OF login_failed(3)] name_idle [OF login_failed(3)] login_failed(4) [THEN seqs] by auto
    have "fds e6 = insert fd (fds e4)" "fd \<notin> fds e4"
      using client_socket_fds [OF N login_failed(5)] exchange_login_fds [OF N login_failed(6)] by simp_all
    then have "fds e1 = fds e4" using fd_callsD(4) [OF N] login_failed(7) by simp
    with a show ?thesis by (intro none) (simp_all add: login_failed(8))
  next
    case (answered b1 c1 e2 srv cl2 e3 seqs c3 e4 fd e5 ack login h rsp e6)
    have a: "fds e4 = fds e - held cl" "idle c3"
      using first [OF answered(1)] name [OF answered(2)] name_idle [OF answered(2)] answered(3) [THEN seqs] by auto
    have f: "0 \<le> fd" "fd \<notin> fds e4" "fds e6 = insert fd (fds e4)"
      using client_socket_fds [OF N answered(4)] exchange_login_fds [OF N answered(5)] by simp_all
    have "idle (cli_conn (cl2\<lparr>cli_conn := c3\<rparr>))" using a(2) by simp
    from finish_login_fds [OF N assms(2) this f answered(6)] show ?thesis using a(1) f(2) by auto
  qed
qed

text \<open>An environment that is its list of open descriptors, and a server that accepts.\<close>

definition fresh_fd :: "fd list \<Rightarrow> fd" where
  "fresh_fd l = foldr max l 2 + 1"

lemma fresh_fd: "fresh_fd l \<notin> set l" "0 \<le> fresh_fd l"
proof -
  have "x \<in> set l \<Longrightarrow> x \<le> foldr max l 2" "2 \<le> foldr max l 2" for x
    by (induction l) auto
  then show "fresh_fd l \<notin> set l" "0 \<le> fresh_fd l" unfolding fresh_fd_def by fastforce+
qed

definition rsp_bytes :: "u8 list" where
  "rsp_bytes = login_buf le_host
     \<lparr>hdr_size = of_nat (8 + sizeof_LoginRspMsg 1 16), msg_type = LoginRspMsg_type, ack_seq = 0\<rparr>
     (store_rsp le_host sample_rsp) [] (rsp_len small_sconf)"

definition fd_os :: "u8 list \<Rightarrow> fd list os" where
  "fd_os reply =
     \<lparr>os_open = \<lambda>f l. (Inr (fresh_fd l), fresh_fd l # l), os_shm_open = \<lambda>f l. (Inr (fresh_fd l), fresh_fd l # l),
      os_ftruncate = \<lambda>fd n l. (Inr (), l), os_mmap_ptcp = \<lambda>fd n l. (Inr (ptcpq_new (replicate 8 zero_header)), l),
      os_mmap_ring = \<lambda>fd n l. (Inl 12, l), os_mmap_name = \<lambda>fd n l. (Inr (replicate n NUL), l),
      os_munmap_ptcp = \<lambda>q l. l, os_munmap_ring = \<lambda>q l. l, os_munmap_name = \<lambda>q l. l,
      os_close = \<lambda>fd l. filter (\<lambda>x. x \<noteq> fd) l, os_send = \<lambda>fd bs l. (Inr (length bs), l),
      os_read = \<lambda>fd n l. (Inr (take n reply), l), os_socket = \<lambda>l. (Inr (fresh_fd l), fresh_fd l # l),
      os_setsockopt = \<lambda>fd opt l. (Inr (), l), os_nonblock = \<lambda>fd l. l, os_connect = \<lambda>fd a p l. (Inr (), l),
      os_bind = \<lambda>fd a p l. (Inr (), l), os_listen = \<lambda>fd l. (Inr (), l), os_accept = \<lambda>fd l. (Inl EAGAIN, l)\<rparr>"

lemma fd_os_calls: "fd_calls (fd_os reply) set"
  using fresh_fd by (auto simp: fd_calls_def fd_os_def gains_def)

definition small_capp :: "fd list client_app" where
  "small_capp = \<lparr>OnLoginSuccess = (\<lambda>rsp e. (7, e)), OnServerMsg = (\<lambda>p c e. Some (ok c, e))\<rparr>"

lemma small_capp_fds: "app_keeps_fds small_capp set"
  by (simp add: app_keeps_fds_def small_capp_def)

definition small_cjunk :: client_junk where
  "small_cjunk = \<lparr>junk_login = sample_login, junk_tail = []\<rparr>"

definition small_client :: client where
  "small_client = client_new small_sconf ''bob'' ''dir'' (replicate 16 NUL)"

definition logged_in :: client where
  "logged_in = (case Connect (fd_os rsp_bytes) small_sconf small_capp small_cjunk False ''ip'' 1234 [7] small_client [0, 1, 2] of
     Some (Inr (True, cl), e) \<Rightarrow> cl | _ \<Rightarrow> small_client)"

lemma logged_in_run:
  "Connect (fd_os rsp_bytes) small_sconf small_capp small_cjunk False ''ip'' 1234 [7] small_client [0, 1, 2] =
     Some (ok (True, logged_in), [3, 0, 1, 2])"
proof -
  have "(case Connect (fd_os rsp_bytes) small_sconf small_capp small_cjunk False ''ip'' 1234 [7] small_client [0, 1, 2] of
      Some (Inr (True, _), e) \<Rightarrow> e = [3, 0, 1, 2] | _ \<Rightarrow> False)"
    by code_simp
  then show ?thesis by (auto simp: logged_in_def split: option.splits sum.splits bool.splits)
qed

lemma logged_in_sel:
  "own_fd (cli_conn logged_in) = 3" "map_option c_str (server_file logged_in) = Some ''srv''"
  "peer (cli_conn logged_in) = ''srv''" "cli_events logged_in = []"
  by code_simp+

theorem Connect_no_descriptor_leak_witness:
  "held logged_in = {3} \<and> {0, 1, 2} \<inter> held logged_in = {}"
proof -
  have h: "held small_client = {}" by (simp add: held_def small_client_def client_new_def tconn_init_def tconn_new_def pconn_new_def Let_def)
  then have "{0, 1, 2} \<inter> held logged_in = {}"
    using Connect_no_descriptor_leak [OF fd_os_calls small_capp_fds _ logged_in_run] by auto
  then show ?thesis using logged_in_sel(1) by (simp add: held_def)
qed

text \<open>
  Stopping the client gives everything back: the connection's descriptor is closed, the
  name file, the queue and the rings are unmapped and the connection has no name.
\<close>

theorem client_Stop_releases:
  assumes "fd_calls N fds" and "client_Stop N cl e = (cl1, e1)" and "remote_name (cli_conn cl) \<noteq> []"
  shows "fds e1 = fds e - held cl \<and> held cl1 = {} \<and> server_file cl1 = None \<and> released (cli_conn cl1)"
proof -
  obtain e2 c where "fds e2 = fds e" and rel: "tconn_Release N (cli_conn cl) e2 = (c, e1)"
      and cl1: "cl1 = cl\<lparr>server_file := None, cli_conn := c\<rparr>"
  proof -
    let ?e2 = "case server_file cl of None \<Rightarrow> e | Some srv \<Rightarrow> my_munmap (os_munmap_name N) srv e"
    obtain c e3 where r: "tconn_Release N (cli_conn cl) ?e2 = (c, e3)" by fastforce
    have "fds ?e2 = fds e" using fd_callsD(12) [OF assms(1)] by (simp add: my_munmap_def split: option.splits)
    then show thesis using that [of ?e2 c] r assms(2) by (simp add: client_Stop_def Let_def)
  qed
  have "0 < length (remote_name (cli_conn cl))" using assms(3) by simp
  then show ?thesis
    using Release_fds [OF assms(1) rel] Release_released [OF rel] \<open>fds e2 = fds e\<close>
    by (simp add: cl1 held_def Let_def)
qed

theorem client_Stop_releases_witness:
  "set (snd (client_Stop (fd_os []) logged_in [3, 0, 1, 2])) = {0, 1, 2}"
proof -
  have "remote_name (cli_conn logged_in) \<noteq> []" using logged_in_sel(3) by (auto simp: c_str_def)
  from client_Stop_releases [OF fd_os_calls [of "[]"] _ this, of "[3, 0, 1, 2]"
      "fst (client_Stop (fd_os []) logged_in [3, 0, 1, 2])" "snd (client_Stop (fd_os []) logged_in [3, 0, 1, 2])"]
  have "set (snd (client_Stop (fd_os []) logged_in [3, 0, 1, 2])) = {3, 0, 1, 2} - held logged_in" by simp
  moreover have "held logged_in = {3}" using logged_in_sel(1) by (simp add: held_def)
  ultimately show ?thesis by auto
qed

section \<open>Names\<close>

lemma c_str_set_name:
  assumes "length dst = n" "0 < n"
  shows "c_str (set_name n dst src) = take (n - 1) (c_str src)" and "length (set_name n dst src) = n"
proof -
  let ?t = "take (n - 1) (c_str src)"
  have u: "set_name n dst src = take (n - 1) (c_str src @ replicate (n - 1) NUL) @ [NUL]"
  proof -
    let ?a = "take (n - 1) (c_str src @ replicate (n - 1) NUL)"
    have la: "length ?a = n - 1" by simp
    have "length (drop (n - 1) dst) = 1" using assms by simp
    then obtain x where x: "drop (n - 1) dst = [x]" by (metis One_nat_def Suc_length_conv length_0_conv)
    show ?thesis
      unfolding set_name_def strncpy_def x using list_update_length [of ?a x "[]" NUL] by (simp only: la)
  qed
  have "set_name n dst src = ?t @ replicate (n - 1 - length (c_str src)) NUL @ [NUL]"
    unfolding u by simp
  moreover have "NUL \<notin> set ?t" using c_str_no_NUL in_set_takeD by fast
  ultimately show "c_str (set_name n dst src) = ?t"
    by (simp add: c_str_prefix) (simp add: c_str_def takeWhile_append)
  show "length (set_name n dst src) = n" using assms unfolding u by simp
qed

lemma exchange_login_name:
  assumes "exchange_login N S J fd ack login e = (Inr (h, rsp), e1)"
  shows "length (server_name rsp) = NameSize (s_conf S)" and "server_name rsp ! 0 \<noteq> NUL"
proof -
  let ?U = "RspUserDataSize S" and ?n = "NameSize (s_conf S)" and ?E = "c_order (s_conf S)"
  obtain bs where len: "length bs = rsp_len S" and d: "decode_rsp S bs = Some (h, rsp)"
    using assms by (auto simp: exchange_login_def split: sum.splits prod.splits if_splits option.splits)
  have r: "rsp = LoginRspMsg_ConvertByteOrder ?E (load_rsp ?E ?U ?n (drop 8 bs))" and "server_name rsp ! 0 \<noteq> NUL"
    using d by (auto simp: decode_rsp_def Let_def split: if_splits)
  then show "server_name rsp ! 0 \<noteq> NUL" by simp
  have "9 + ?U + ?n + 32 \<le> sizeof_LoginRspMsg ?U ?n"
    using round_to_ge [of "8 + ?U + 1 + ?n + 32"] by (simp add: sizeof_LoginRspMsg_def)
  moreover have "8 + sizeof_LoginRspMsg ?U ?n \<le> length bs" unfolding len rsp_len_def sizeof_buf_def by simp
  ultimately show "length (server_name rsp) = ?n"
    by (simp add: r LoginRspMsg_ConvertByteOrder_def load_rsp_def)
qed

text \<open>
  While the name file is mapped, the connection has the name in it, cut to fit.
\<close>

definition cli_inv :: "sconf \<Rightarrow> client \<Rightarrow> bool" where
  "cli_inv S cl \<longleftrightarrow> (let n = NameSize (s_conf S) in
     length (remote_name (cli_conn cl)) = n \<and>
     (\<forall>s. server_file cl = Some s \<longrightarrow> length s = n \<and> peer (cli_conn cl) = take (n - 1) (c_str s)))"

definition name_map_ok :: "'e os \<Rightarrow> nat \<Rightarrow> bool" where
  "name_map_ok N n \<longleftrightarrow> (\<forall>fd e s e1. os_mmap_name N fd n e = (Inr s, e1) \<longrightarrow> length s = n)"

definition named_by :: "sconf \<Rightarrow> string \<Rightarrow> tconn \<Rightarrow> bool" where
  "named_by S s c \<longleftrightarrow> (let n = NameSize (s_conf S) in
     length (remote_name c) = n \<and> length s = n \<and> peer c = take (n - 1) (c_str s))"

lemma map_server_name_named:
  assumes "map_server_name N S cl e = (Inr (srv, cl1), e1)" "cli_inv S cl" "name_map_ok N (NameSize (s_conf S))"
    "0 < NameSize (s_conf S)"
  shows "server_file cl1 = Some srv \<and> named_by S srv (cli_conn cl1)"
proof (cases "server_file cl")
  case (Some s)
  then show ?thesis using assms(1,2) by (auto simp: map_server_name_def cli_inv_def named_by_def Let_def)
next
  case None
  let ?n = "NameSize (s_conf S)"
  obtain e2 where "my_mmap N (os_mmap_name N) ?n (last_server_file cl) False e = (Inr srv, e2)"
      and cl1: "cl1 = cl\<lparr>server_file := Some srv, cli_conn := (cli_conn cl)\<lparr>remote_name := set_name ?n (remote_name (cli_conn cl)) srv\<rparr>\<rparr>"
    using assms(1) None by (auto simp: map_server_name_def Let_def split: sum.splits prod.splits)
  then have "length srv = ?n"
    using assms(3) unfolding name_map_ok_def by (auto simp: my_mmap_def split: sum.splits prod.splits)
  moreover have "length (remote_name (cli_conn cl)) = ?n" using assms(2) by (simp add: cli_inv_def Let_def)
  ultimately show ?thesis
    using c_str_set_name [of "remote_name (cli_conn cl)" ?n srv] assms(4) by (simp add: cl1 named_by_def)
qed

lemma named_by_kept: "named_by S s c \<Longrightarrow> conn_kept c c1 \<Longrightarrow> named_by S s c1"
  by (simp add: named_by_def conn_kept_def)

lemma login_seqs_kept: "login_seqs N S shm srv c e = Some (ok (r, c1), e1) \<Longrightarrow> conn_kept c c1"
  using OpenFile_kept by (auto simp: login_seqs_def chk_bind_ok_iff split: if_splits prod.splits option.splits)

lemma adopt_server_named:
  assumes run: "adopt_server N S shm srv rsp cl e = (ok (r, cl1), e1)" and nb: "named_by S srv (cli_conn cl)"
    and sf: "server_file cl = Some srv" and n: "1 < NameSize (s_conf S)"
    and rsp: "length (server_name rsp) = NameSize (s_conf S)" "server_name rsp ! 0 \<noteq> NUL"
  shows "\<exists>s. server_file cl1 = Some s \<and> named_by S s (cli_conn cl1) \<and>
    c_str s = c_str ((server_name rsp)[NameSize (s_conf S) - 1 := NUL])"
proof -
  let ?n = "NameSize (s_conf S)"
  define name where "name = (server_name rsp)[?n - 1 := NUL]"
  have nm: "name_wf ?n name" unfolding name_def by (rule name_wf_terminated) (use rsp n in auto)
  show ?thesis
  proof (cases "strncmp_eq srv name ?n")
    case True
    have "length srv = ?n" using nb by (simp add: named_by_def Let_def)
    then have "c_str srv = c_str name" using True nm by (simp add: strncmp_eq_peer name_wf_def)
    moreover have "cl1 = cl" using run True by (simp add: adopt_server_def Let_def name_def)
    ultimately show ?thesis using nb sf by (simp add: name_def)
  next
    case False
    define srv1 where "srv1 = strncpy srv name ?n"
    obtain c1 e2 where rel: "tconn_Release N (cli_conn cl) e = (c1, e2)" by fastforce
    define c2 where "c2 = c1\<lparr>remote_name := set_name ?n (remote_name c1) srv1\<rparr>"
    obtain o3 c3 e3 where op: "tconn_OpenFile N (s_conf S) shm c2 e2 = ((o3, c3), e3)" by (metis prod.exhaust)
    have run1: "(case ((o3, c3), e3) of
         ((Some err, c3), e2) \<Rightarrow> (ok (Some err, cl\<lparr>server_file := Some srv1, cli_conn := c3\<rparr>), e2)
       | ((None, c3), e2) \<Rightarrow> (chk_bind (tconn_Reset c3) (\<lambda>c4.
                        ok (None, cl\<lparr>server_file := Some srv1, cli_conn := c4\<rparr>)), e2)) = (ok (r, cl1), e1)"
      using run False rel op unfolding adopt_server_def Let_def name_def [symmetric] srv1_def [symmetric] by (simp add: c2_def [symmetric] del: One_nat_def)
    have len: "length srv = ?n" "length (remote_name (cli_conn cl)) = ?n" using nb by (simp_all add: named_by_def Let_def)
    then have l1: "length (remote_name c1) = ?n" using Release_released(2) [OF rel] n by simp
    have s1: "length srv1 = ?n" "c_str srv1 = c_str name"
      using len nm by (simp_all add: srv1_def c_str_strncpy name_wf_def)
    have "named_by S srv1 c2"
      using c_str_set_name [OF l1, of srv1] s1 n by (simp add: named_by_def c2_def)
    then have n3: "named_by S srv1 c3" using OpenFile_kept [OF op] by (rule named_by_kept)
    have "server_file cl1 = Some srv1 \<and> named_by S srv1 (cli_conn cl1)"
      using run1 n3 named_by_kept [OF n3 Reset_kept] by (auto simp: chk_bind_ok_iff split: option.splits)
    then show ?thesis using s1(2) by (auto simp: name_def)
  qed
qed



end
