(* ===== verification/LoginExchange.thy ===== *)
theory LoginExchange
  imports ClientProps
begin

text \<open>
  The client and the server together: what one side sends in a login is what the other
  decodes, and both decide alike whether the sequence numbers start again.
\<close>

section \<open>Buffers\<close>

text \<open>Two sides fit when they agree on the byte order of the wire and on the sizes of the structs.\<close>

definition sides_fit :: "sconf \<Rightarrow> sconf \<Rightarrow> bool" where
  "sides_fit S T \<longleftrightarrow>
     ToLittle (c_order (s_conf S)) = ToLittle (c_order (s_conf T)) \<and>
     NameSize (s_conf S) = NameSize (s_conf T) \<and>
     UserDataSize S = UserDataSize T \<and> RspUserDataSize S = RspUserDataSize T \<and>
     sizeof_LoginMsg (UserDataSize S) (NameSize (s_conf S)) < 65528 \<and>
     sizeof_LoginRspMsg (RspUserDataSize S) (NameSize (s_conf S)) < 65528"

lemma login_buf_split:
  assumes "8 + length body \<le> len"
  shows "\<exists>pad. login_buf E h body junk len = header_bytes E h @ body @ pad \<and> length (login_buf E h body junk len) = len"
  using assms by (intro exI [of _ "take (len - 8 - length body) (junk @ replicate len 0)"]) (simp add: login_buf_def)

lemma sizeof_buf_ge: "8 + k \<le> sizeof_buf k"
  by (simp add: sizeof_buf_def)

lemma login_fits: "login_wf U n m \<Longrightarrow> 8 + length (store_login E m) \<le> sizeof_buf (sizeof_LoginMsg U n)"
  using round_to_ge [of "8 + U + 1 + 2 * n"] sizeof_buf_ge [of "sizeof_LoginMsg U n"]
  by (simp add: store_login_def login_wf_def sizeof_LoginMsg_def)

lemma rsp_fits: "rsp_wf U n m \<Longrightarrow> 8 + length (store_rsp E m) \<le> sizeof_buf (sizeof_LoginRspMsg U n)"
  using round_to_ge [of "8 + U + 1 + n + 32"] sizeof_buf_ge [of "sizeof_LoginRspMsg U n"]
  by (simp add: store_rsp_def rsp_wf_def sizeof_LoginRspMsg_def)

lemma unat_size: "k < 65528 \<Longrightarrow> unat (of_nat (8 + k) :: u16) = 8 + k"
  unfolding unat_of_nat by simp

lemma wf_conv:
  "login_wf U n (LoginMsg_ConvertByteOrder E m) = login_wf U n m"
  "rsp_wf U n (LoginRspMsg_ConvertByteOrder E r) = rsp_wf U n r"
  by (simp_all add: login_wf_def rsp_wf_def LoginMsg_ConvertByteOrder_def LoginRspMsg_ConvertByteOrder_def)

lemma decode_login_message:
  assumes fit: "sides_fit S T" and wf: "login_wf (UserDataSize S) (NameSize (s_conf S)) m"
  shows "decode_login T (login_message S J ack m) =
    Some (\<lparr>hdr_size = of_nat (8 + sizeof_LoginMsg (UserDataSize S) (NameSize (s_conf S))),
           msg_type = LoginMsg_type, ack_seq = ack\<rparr>, m)"
proof -
  let ?A = "c_order (s_conf S)" and ?B = "c_order (s_conf T)" and ?U = "UserDataSize S" and ?n = "NameSize (s_conf S)"
  let ?h = "\<lparr>hdr_size = of_nat (8 + sizeof_LoginMsg ?U ?n), msg_type = LoginMsg_type, ack_seq = ack\<rparr>"
  let ?st = "store_login ?A (LoginMsg_ConvertByteOrder ?A m)"
  have o: "ToLittle ?A = ToLittle ?B" and same: "NameSize (s_conf T) = ?n" "UserDataSize T = ?U"
    and small: "sizeof_LoginMsg ?U ?n < 65528"
    using fit unfolding sides_fit_def by metis+
  have "8 + length ?st \<le> sizeof_buf (sizeof_LoginMsg ?U ?n)" by (rule login_fits) (simp add: wf_conv wf)
  from login_buf_split [OF this, of ?A "ConvertByteOrder ?A ?h" "junk_tail J"]
  obtain pad where b: "login_message S J ack m = header_bytes ?A (ConvertByteOrder ?A ?h) @ ?st @ pad"
    and len: "length (login_message S J ack m) = msg_len T"
    by (auto simp: login_message_def Let_def msg_len_def same)
  have st: "?st = store_login ?B (LoginMsg_ConvertByteOrder ?B m)"
    using o by (simp add: store_login_wire wire_order_def)
  have ld: "load_login ?B ?U ?n (?st @ pad) = LoginMsg_ConvertByteOrder ?B m"
    unfolding st by (rule load_store_login) (simp add: wf_conv wf)
  have hd: "ConvertByteOrder ?B (load_header ?B (login_message S J ack m)) = ?h"
    unfolding b by (rule load_header_wire [OF o])
  have dr: "drop 8 (login_message S J ack m) = ?st @ pad" unfolding b by simp
  show ?thesis
    unfolding decode_login_def Let_def same dr ld hd using len unat_size [OF small]
    by (simp add: login_conv.conv_conv)
qed

text \<open>What the server sends: the header was converted before the acknowledgement went in.\<close>

definition rsp_bytes_of :: "sconf \<Rightarrow> stack_junk \<Rightarrow> u32 \<Rightarrow> login_rsp \<Rightarrow> u8 list" where
  "rsp_bytes_of T J ack r =
     (let E = c_order (s_conf T);
          h = ConvertByteOrder E \<lparr>hdr_size = of_nat (8 + sizeof_LoginRspMsg (RspUserDataSize T) (NameSize (s_conf T))),
                msg_type = LoginRspMsg_type, ack_seq = junk_ack J\<rparr>
      in login_buf E (h\<lparr>ack_seq := Convert32 E ack\<rparr>) (store_rsp E (LoginRspMsg_ConvertByteOrder E r)) (junk_pad J) (rsp_len T))"

lemma decode_rsp_bytes:
  assumes fit: "sides_fit S T" and wf: "rsp_wf (RspUserDataSize S) (NameSize (s_conf S)) r" and ne: "server_name r ! 0 \<noteq> NUL"
  shows "decode_rsp S (rsp_bytes_of T J ack r) =
    Some (\<lparr>hdr_size = of_nat (8 + sizeof_LoginRspMsg (RspUserDataSize S) (NameSize (s_conf S))),
           msg_type = LoginRspMsg_type, ack_seq = ack\<rparr>, r) \<and> length (rsp_bytes_of T J ack r) = rsp_len S"
proof -
  let ?A = "c_order (s_conf S)" and ?B = "c_order (s_conf T)" and ?U = "RspUserDataSize S" and ?n = "NameSize (s_conf S)"
  let ?h = "\<lparr>hdr_size = of_nat (8 + sizeof_LoginRspMsg ?U ?n), msg_type = LoginRspMsg_type, ack_seq = ack\<rparr>"
  let ?st = "store_rsp ?B (LoginRspMsg_ConvertByteOrder ?B r)"
  have o: "ToLittle ?B = ToLittle ?A" and same: "NameSize (s_conf T) = ?n" "RspUserDataSize T = ?U"
    and small: "sizeof_LoginRspMsg ?U ?n < 65528"
    using fit unfolding sides_fit_def by metis+
  have "8 + length ?st \<le> sizeof_buf (sizeof_LoginRspMsg ?U ?n)" by (rule rsp_fits) (simp add: wf_conv wf)
  from login_buf_split [OF this, of ?B "ConvertByteOrder ?B ?h" "junk_pad J"]
  obtain pad where b: "rsp_bytes_of T J ack r = header_bytes ?B (ConvertByteOrder ?B ?h) @ ?st @ pad"
    and len: "length (rsp_bytes_of T J ack r) = rsp_len S"
    by (auto simp: rsp_bytes_of_def ConvertByteOrder_def Let_def rsp_len_def same)
  have st: "?st = store_rsp ?A (LoginRspMsg_ConvertByteOrder ?A r)"
    using o by (simp add: store_rsp_wire wire_order_def)
  have ld: "load_rsp ?A ?U ?n (?st @ pad) = LoginRspMsg_ConvertByteOrder ?A r"
    unfolding st by (rule load_store_rsp) (simp add: wf_conv wf)
  have hd: "ConvertByteOrder ?A (load_header ?A (rsp_bytes_of T J ack r)) = ?h"
    unfolding b by (rule load_header_wire [OF o])
  have dr: "drop 8 (rsp_bytes_of T J ack r) = ?st @ pad" unfolding b by simp
  show ?thesis
    unfolding decode_rsp_def Let_def dr ld hd using len ne unat_size [OF small]
    by (simp add: rsp_conv.conv_conv)
qed

lemma c_str_cut:
  assumes "length s = n" "0 < n"
  shows "c_str (s[n - 1 := NUL]) = take (n - 1) (c_str s)"
proof -
  have "s[n - 1 := NUL] = take (n - 1) s @ [NUL]"
    using assms upd_conv_take_nth_drop [of "n - 1" s NUL] by simp
  moreover have "c_str (take k s @ [NUL]) = take k (c_str s)" for k
  proof (induction s arbitrary: k)
    case (Cons x s)
    then show ?case by (cases k) (simp_all add: c_str_def)
  qed (simp add: c_str_def)
  ultimately show ?thesis by simp
qed

section \<open>The exchange\<close>


text \<open>
  C18. Whenever the server gets as far as the sequence numbers, the client decodes its answer:
  the server's numbers and status 0 when each side's acknowledgement lies in the other side's
  queue, status 1 otherwise; in that case nothing but the event and the answer happens, and
  otherwise an accepted login means that the whole answer went out.
\<close>

theorem login_answer_understood:
  assumes "sides_fit S T" and "rsp_wf (RspUserDataSize S) (NameSize (s_conf S)) rsp" and "server_name rsp ! 0 \<noteq> NUL"
    and h: "h = ConvertByteOrder (c_order (s_conf T))
      \<lparr>hdr_size = of_nat (8 + sizeof_LoginRspMsg (RspUserDataSize T) (NameSize (s_conf T))),
       msg_type = LoginRspMsg_type, ack_seq = junk_ack J\<rparr>"
    and run: "login_check N T J now fd addr shm g i k h rsp (la, ls, le) (ra, rs, re) srv e = Some (ok (fd1, srv1), e1)"
  shows "\<exists>buf h1. decode_rsp S buf = Some (h1, rsp\<lparr>server_seq_start := ls, server_seq_end := le,
        status := (if CheckAckInQueue ra ls le \<and> CheckAckInQueue la rs re then 0 else 1)\<rparr>) \<and> ack_seq h1 = la \<and>
     (if CheckAckInQueue ra ls le \<and> CheckAckInQueue la rs re
      then fd1 = -1 \<and> fd \<noteq> -1 \<longrightarrow> fst (os_send N fd buf e) = Inr (rsp_len T)
      else fd1 = fd \<and> srv1 = emit (OnSeqNumberMismatch k (la, ls, le) (ra, rs, re)) srv \<and> e1 = snd (os_send N fd buf e))"
proof -
  define st :: u8 where "st = (if CheckAckInQueue ra ls le \<and> CheckAckInQueue la rs re then 0 else 1)"
  define r where "r = rsp\<lparr>server_seq_start := ls, server_seq_end := le, status := st\<rparr>"
  let ?E = "c_order (s_conf T)"
  let ?h = "h\<lparr>ack_seq := Convert32 ?E la\<rparr>"
    and ?r = "\<lambda>s. (LoginRspMsg_ConvertByteOrder ?E (rsp\<lparr>server_seq_start := ls, server_seq_end := le\<rparr>))\<lparr>status := s\<rparr>"
  have "?r st = LoginRspMsg_ConvertByteOrder ?E r" by (simp add: r_def LoginRspMsg_ConvertByteOrder_def)
  then have send: "send_rsp N T J fd ?h (?r st) e = os_send N fd (rsp_bytes_of T J la r) e"
    by (simp add: send_rsp_def rsp_bytes_of_def Let_def h)
  have "rsp_wf (RspUserDataSize S) (NameSize (s_conf S)) r" "server_name r ! 0 \<noteq> NUL"
    using assms(2,3) by (simp_all add: r_def rsp_wf_def)
  from decode_rsp_bytes [OF assms(1) this, of J la]
  obtain h1 where dec: "decode_rsp S (rsp_bytes_of T J la r) = Some (h1, r)" and ack: "ack_seq h1 = la"
    by auto
  show ?thesis
  proof (cases "CheckAckInQueue ra ls le \<and> CheckAckInQueue la rs re")
    case True
    then have "fst (os_send N fd (rsp_bytes_of T J la r) e) = Inr (rsp_len T)" if "fd1 = -1" "fd \<noteq> -1"
      using run that send
      by (auto simp: login_check_def Let_def st_def split: prod.splits if_splits)
    then show ?thesis using dec ack True by (intro exI [of _ "rsp_bytes_of T J la r"] exI [of _ h1]) (simp add: r_def st_def)
  next
    case False
    then have "fd1 = fd \<and> srv1 = emit (OnSeqNumberMismatch k (la, ls, le) (ra, rs, re)) srv \<and>
        e1 = snd (os_send N fd (rsp_bytes_of T J la r) e)"
      using run send by (auto simp: login_check_def refuse_def Let_def st_def)
    then show ?thesis using dec ack False
      by (intro exI [of _ "rsp_bytes_of T J la r"] exI [of _ h1]) (auto simp: r_def st_def)
  qed
qed

definition big_endian_sconf :: sconf where
  "big_endian_sconf = small_sconf\<lparr>s_conf := small_conf\<lparr>c_order := \<lparr>ToLittle = True, is_little_endian = False\<rparr>\<rparr>\<rparr>"

lemma small_sides_fit: "sides_fit big_endian_sconf small_sconf"
  by (simp add: sides_fit_def big_endian_sconf_def small_sconf_def small_conf_def le_host_def
      sizeof_LoginMsg_def sizeof_LoginRspMsg_def round_to_def)

lemma big_endian_sizes [simp]:
  "NameSize (s_conf big_endian_sconf) = 16" "UserDataSize big_endian_sconf = 1" "RspUserDataSize big_endian_sconf = 1"
  by (simp_all add: big_endian_sconf_def small_sconf_def small_conf_def)


theorem login_answer_understood_witness:
  "\<exists>buf h. decode_rsp big_endian_sconf buf = Some (h, sample_rsp\<lparr>server_seq_start := 4, server_seq_end := 6, status := 1\<rparr>) \<and> ack_seq h = 9"
proof -
  let ?h = "ConvertByteOrder (c_order (s_conf small_sconf))
      \<lparr>hdr_size = of_nat (8 + sizeof_LoginRspMsg (RspUserDataSize small_sconf) (NameSize (s_conf small_sconf))),
       msg_type = LoginRspMsg_type, ack_seq = junk_ack small_junk\<rparr>"
  let ?run = "login_check login_os small_sconf small_junk 0 5 ''addr'' False 0 0 1 ?h sample_rsp (9, 4, 6) (3, 1, 2) new_small 0"
  have no: "\<not> CheckAckInQueue 3 4 6" by code_simp
  have "\<exists>fd1 srv1 e1. ?run = Some (ok (fd1, srv1), e1)" by (simp add: login_check_def refuse_def Let_def no)
  then obtain fd1 srv1 e1 where "?run = Some (ok (fd1, srv1), e1)" by blast
  note run = this
  have wf: "rsp_wf (RspUserDataSize big_endian_sconf) (NameSize (s_conf big_endian_sconf)) sample_rsp" "server_name sample_rsp ! 0 \<noteq> NUL"
    by (simp_all add: rsp_wf_def sample_rsp_def)
  obtain buf h1 where "decode_rsp big_endian_sconf buf = Some (h1, sample_rsp\<lparr>server_seq_start := 4, server_seq_end := 6,
        status := (if CheckAckInQueue 3 4 6 \<and> CheckAckInQueue 9 1 2 then 0 else 1)\<rparr>)" "ack_seq h1 = 9"
    using login_answer_understood [OF small_sides_fit wf refl run] by (elim exE conjE)
  moreover have "\<not> (CheckAckInQueue 3 4 6 \<and> CheckAckInQueue 9 1 2)" using no by simp
  ultimately show ?thesis unfolding if_not_P [OF \<open>\<not> (CheckAckInQueue 3 4 6 \<and> CheckAckInQueue 9 1 2)\<close>] by blast
qed

end
