(* ===== verification/MarketData.thy ===== *)
theory MarketData
  imports TcpShmConn "HOL-Library.Signed_Division"
begin

text \<open>
  The messages of the market data example, \<^verbatim>\<open>crypto_market_example/common.h\<close>: the five structs
  and their layout in memory, and what both programs of the example share (the clock of
  \<^verbatim>\<open>timestamp.h\<close>, the names of the instruments, the access to the body of a message).  A
  \<open>double\<close> is its 64-bit pattern; the arithmetic on doubles is a parameter.
\<close>

section \<open>Doubles and the clock\<close>

type_synonym f64 = u64

text \<open>
  The floating point operations: conversion from \<open>int\<close>, the double nearest to \<open>m * 10 ^ - k\<close>
  (a literal with \<open>k\<close> decimals), and the rest as named.
\<close>

record fpu =
  fp_of_int :: "int \<Rightarrow> f64"
  fp_lit :: "int \<Rightarrow> nat \<Rightarrow> f64"
  fp_add :: "f64 \<Rightarrow> f64 \<Rightarrow> f64"
  fp_sub :: "f64 \<Rightarrow> f64 \<Rightarrow> f64"
  fp_mul :: "f64 \<Rightarrow> f64 \<Rightarrow> f64"
  fp_div :: "f64 \<Rightarrow> f64 \<Rightarrow> f64"
  fp_abs :: "f64 \<Rightarrow> f64"
  fp_less :: "f64 \<Rightarrow> f64 \<Rightarrow> bool"

text \<open>\<open>std::max\<close> and \<open>std::min\<close>.\<close>

definition fp_max :: "fpu \<Rightarrow> f64 \<Rightarrow> f64 \<Rightarrow> f64" where
  "fp_max F a b = (if fp_less F a b then b else a)"

definition fp_min :: "fpu \<Rightarrow> f64 \<Rightarrow> f64 \<Rightarrow> f64" where
  "fp_min F a b = (if fp_less F b a then b else a)"

text \<open>The random distributions of the standard library and the real-time clock (seconds, nanoseconds).\<close>

record 'e source =
  uniform_real :: "f64 \<Rightarrow> f64 \<Rightarrow> 'e \<Rightarrow> f64 \<times> 'e"
  uniform_int :: "int \<Rightarrow> int \<Rightarrow> 'e \<Rightarrow> int \<times> 'e"
  clock_gettime :: "'e \<Rightarrow> (int \<times> int) \<times> 'e"

definition now :: "'e source \<Rightarrow> 'e \<Rightarrow> u64 \<times> 'e" where
  "now G e = (case clock_gettime G e of ((tv_sec, tv_nsec), e1) \<Rightarrow>
     (word_of_int (tv_sec * 1000000000 + tv_nsec), e1))"

section \<open>Eight bytes in memory\<close>

definition mem64 :: "byte_order \<Rightarrow> u64 \<Rightarrow> u8 list" where
  "mem64 E x =
     (let le = map (\<lambda>k. ucast (drop_bit (8 * k) x)) [0 ..< 8]
      in if is_little_endian E then le else rev le)"

definition le64 :: "u8 list \<Rightarrow> u64" where
  "le64 bs = foldr (\<lambda>b x. ucast b OR push_bit 8 x) bs 0"

definition load64 :: "byte_order \<Rightarrow> u8 list \<Rightarrow> u64" where
  "load64 E bs = le64 (if is_little_endian E then bs else rev bs)"

lemma length_mem64 [simp]: "length (mem64 E x) = 8"
  by (simp add: mem64_def Let_def)

lemma le64_bytes: "le64 (map (\<lambda>k. ucast (drop_bit (8 * k) (x :: u64))) [k ..< 8]) = drop_bit (8 * k) x"
  if "k \<le> 8"
  using that
proof (induction k rule: inc_induct)
  case base
  have "drop_bit 64 x = 0" by (rule bit_word_eqI) (simp add: bit_simps)
  then show ?case by (simp add: le64_def)
next
  case (step k)
  have "le64 (map (\<lambda>k. ucast (drop_bit (8 * k) x)) [k ..< 8]) =
      ucast (ucast (drop_bit (8 * k) x) :: u8) OR push_bit 8 (drop_bit (8 * Suc k) x)"
    using step by (simp add: upt_conv_Cons le64_def)
  also have "\<dots> = drop_bit (8 * k) x"
  proof (rule bit_word_eqI)
    fix n assume "n < LENGTH(64)"
    have "8 * Suc k + (n - 8) = 8 * k + n" if "8 \<le> n" using that by simp
    then show "bit (ucast (ucast (drop_bit (8 * k) x) :: u8) OR push_bit 8 (drop_bit (8 * Suc k) x)) n \<longleftrightarrow>
        bit (drop_bit (8 * k) x) n"
      using \<open>n < LENGTH(64)\<close> by (cases "n < 8") (auto simp: bit_simps simp del: mult_Suc_right)
  qed
  finally show ?case .
qed

lemma load64_mem64 [simp]: "load64 E (mem64 E x) = x"
  using le64_bytes [of 0 x] by (simp add: load64_def mem64_def Let_def)

text \<open>Any bytes survive being read as a header and stored again.\<close>

lemma not_bit_u8 [simp]: "8 \<le> n \<Longrightarrow> \<not> bit (x :: u8) n"
  by (auto dest: bit_imp_le_length)

lemma mem16_load16: "length bs = 2 \<Longrightarrow> mem16 E (load16 E bs) = bs"
proof -
  have "mem16 E (load16 E [a, b]) = [a, b]" for a b
    by (auto simp: mem16_def load16_def bit_simps intro!: bit_word_eqI)
  moreover assume "length bs = 2"
  then obtain a b where "bs = [a, b]" by (auto simp: length_Suc_conv numeral_2_eq_2)
  ultimately show ?thesis by simp
qed

lemma mem32_load32: "length bs = 4 \<Longrightarrow> mem32 E (load32 E bs) = bs"
proof -
  have "mem32 E (load32 E [a, b, c, d]) = [a, b, c, d]" for a b c d
    by (auto simp: mem32_def load32_def bit_simps intro!: bit_word_eqI)
  moreover assume "length bs = 4"
  then obtain a b c d where "bs = [a, b, c, d]" by (auto simp: length_Suc_conv eval_nat_numeral)
  ultimately show ?thesis by simp
qed

lemma header_bytes_load:
  assumes "length bs = 8"
  shows "header_bytes E (load_header E bs) = bs"
proof -
  have "take 2 bs @ take 2 (drop 2 bs) @ take 4 (drop 4 bs) = bs"
    using assms by (metis add.commute append_take_drop_id drop_drop dual_order.refl numeral_Bit0 take_all length_drop
        add_diff_cancel_left')
  then show ?thesis
    using assms by (simp add: header_bytes_def load_header_def mem16_load16 mem32_load32)
qed

section \<open>Structs in memory\<close>

text \<open>
  The members of a struct in memory: pairs of an offset and the bytes of the value.  Bytes
  between the members (padding) keep what they were.
\<close>

type_synonym fields = "(nat \<times> u8 list) list"

definition set_fields :: "fields \<Rightarrow> u8 list \<Rightarrow> u8 list" where
  "set_fields fs bs = fold (\<lambda>(off, v). blit v off) fs bs"

text \<open>The fields are in order, apart from each other and end at most at \<open>n\<close>.\<close>

fun laid_out :: "nat \<Rightarrow> fields \<Rightarrow> nat \<Rightarrow> bool" where
  "laid_out i [] n \<longleftrightarrow> i \<le> n"
| "laid_out i ((off, v) # fs) n \<longleftrightarrow> i \<le> off \<and> laid_out (off + length v) fs n"

lemma laid_out_le: "laid_out i fs n \<Longrightarrow> i \<le> n"
  by (induction i fs n rule: laid_out.induct) auto

lemma laid_out_append:
  "laid_out i fs k \<Longrightarrow> laid_out k gs n \<Longrightarrow> laid_out i (fs @ gs) n"
proof (induction i fs k rule: laid_out.induct)
  case (1 i k)
  then show ?case by (cases gs) auto
qed auto

lemma length_set_fields [simp]: "laid_out i fs (length bs) \<Longrightarrow> length (set_fields fs bs) = length bs"
proof (induction fs arbitrary: i bs)
  case (Cons f fs)
  obtain off v where f: "f = (off, v)" by (cases f)
  have l: "laid_out (off + length v) fs (length bs)" using Cons.prems f by simp
  then have "off + length v \<le> length bs" by (rule laid_out_le)
  then have len: "length (blit v off bs) = length bs" by simp
  have "length (set_fields fs (blit v off bs)) = length (blit v off bs)"
    by (rule Cons.IH [of "off + length v"]) (simp only: len l)
  then show ?case by (simp only: set_fields_def f fold.simps case_prod_conv o_apply len)
qed (simp add: set_fields_def)

lemma seg_set_fields_before:
  "laid_out i fs (length bs) \<Longrightarrow> k \<le> i \<Longrightarrow> seg j k (set_fields fs bs) = seg j k bs"
proof (induction fs arbitrary: i bs)
  case (Cons f fs)
  obtain off v where f: "f = (off, v)" by (cases f)
  have l: "i \<le> off" "laid_out (off + length v) fs (length bs)" using Cons.prems f by simp_all
  then have b: "off + length v \<le> length bs" using laid_out_le by blast
  then have len: "length (blit v off bs) = length bs" by simp
  have "seg j k (set_fields fs (blit v off bs)) = seg j k (blit v off bs)"
    by (rule Cons.IH [of "off + length v"]) (simp only: len l, use l(1) Cons.prems(2) in simp)
  also have "\<dots> = seg j k bs"
    using b l(1) Cons.prems(2) by (intro seg_blit_before) simp_all
  finally show ?case by (simp add: set_fields_def f)
qed (simp add: set_fields_def)

lemma seg_set_fields:
  "laid_out i fs (length bs) \<Longrightarrow> (off, v) \<in> set fs \<Longrightarrow> seg off (off + length v) (set_fields fs bs) = v"
proof (induction fs arbitrary: i bs)
  case (Cons f fs)
  obtain o2 v2 where f: "f = (o2, v2)" by (cases f)
  have l: "laid_out (o2 + length v2) fs (length bs)" using Cons.prems f by simp
  then have b: "o2 + length v2 \<le> length bs" using laid_out_le by blast
  then have len: "length (blit v2 o2 bs) = length bs" by simp
  then have l2: "laid_out (o2 + length v2) fs (length (blit v2 o2 bs))" using l by simp
  have s: "set_fields (f # fs) bs = set_fields fs (blit v2 o2 bs)" by (simp add: set_fields_def f)
  show ?case
  proof (cases "(off, v) \<in> set fs")
    case True
    then show ?thesis unfolding s by (rule Cons.IH [OF l2])
  next
    case False
    then have "off = o2" "v = v2" using Cons.prems(2) f by auto
    then show ?thesis unfolding s using seg_set_fields_before [OF l2] seg_blit_same [OF b] by simp
  qed
qed simp

text \<open>Integers of the host in memory.\<close>

definition int_at :: "byte_order \<Rightarrow> nat \<Rightarrow> int \<Rightarrow> fields" where
  "int_at E off v = [(off, mem32 E (word_of_int v))]"

definition int64_at :: "byte_order \<Rightarrow> nat \<Rightarrow> u64 \<Rightarrow> fields" where
  "int64_at E off v = [(off, mem64 E v)]"

definition double_at :: "byte_order \<Rightarrow> nat \<Rightarrow> f64 \<Rightarrow> fields" where
  "double_at E off v = [(off, mem64 E v)]"

definition bool_at :: "nat \<Rightarrow> bool \<Rightarrow> fields" where
  "bool_at off b = [(off, [if b then 1 else 0])]"

definition get_int :: "byte_order \<Rightarrow> nat \<Rightarrow> u8 list \<Rightarrow> int" where
  "get_int E off bs = sint (load32 E (seg off (off + 4) bs))"

definition get_64 :: "byte_order \<Rightarrow> nat \<Rightarrow> u8 list \<Rightarrow> u64" where
  "get_64 E off bs = load64 E (seg off (off + 8) bs)"

definition get_bool :: "nat \<Rightarrow> u8 list \<Rightarrow> bool" where
  "get_bool off bs \<longleftrightarrow> seg off (off + 1) bs \<noteq> [0]"

definition int_ok :: "int \<Rightarrow> bool" where
  "int_ok v \<longleftrightarrow> - 2147483648 \<le> v \<and> v < 2147483648"

lemma sint_word_of_int: "int_ok v \<Longrightarrow> sint (word_of_int v :: u32) = v"
  unfolding int_ok_def by (simp add: sint_sbintrunc' signed_take_bit_int_eq_self)

lemma get_int_set:
  assumes "laid_out i fs (length bs)" "int_ok v" "(off, mem32 E (word_of_int v)) \<in> set fs"
  shows "get_int E off (set_fields fs bs) = v"
  using seg_set_fields [OF assms(1,3)] assms(2) by (simp add: get_int_def sint_word_of_int)

lemma get_64_set:
  assumes "laid_out i fs (length bs)" "(off, mem64 E v) \<in> set fs"
  shows "get_64 E off (set_fields fs bs) = v"
  using seg_set_fields [OF assms] by (simp add: get_64_def)

lemma get_bool_set:
  assumes "laid_out i fs (length bs)" "(off, [if b then 1 else 0]) \<in> set fs"
  shows "get_bool off (set_fields fs bs) = b"
  using seg_set_fields [OF assms] by (cases b) (simp_all add: get_bool_def)

section \<open>The messages\<close>

record price_level =
  pl_price :: f64
  pl_size :: int

record depth_msg =
  md_instrument_id :: int
  md_bid :: "price_level list"
  md_ask :: "price_level list"

record trade_msg =
  tr_instrument_id :: int
  tr_price :: f64
  tr_size :: int
  tr_trade_id :: int
  tr_is_buy :: bool
  tr_timestamp :: u64

record volatility_msg =
  vo_instrument_id :: int
  vo_implied :: f64
  vo_historical :: f64
  vo_realized :: f64
  vo_timestamp :: u64

record kline_msg =
  kl_instrument_id :: int
  kl_period :: int
  kl_open :: f64
  kl_high :: f64
  kl_low :: f64
  kl_close :: f64
  kl_volume :: int
  kl_timestamp :: u64

record ticker_msg =
  ti_instrument_id :: int
  ti_last_price :: f64
  ti_daily_change :: f64
  ti_daily_percent_change :: f64
  ti_daily_high :: f64
  ti_daily_low :: f64
  ti_daily_volume :: int
  ti_timestamp :: u64

text \<open>Sizes and message types.\<close>

definition sizeof_MarketDepthMsg :: nat where "sizeof_MarketDepthMsg = 168"
definition sizeof_TradeMsg :: nat where "sizeof_TradeMsg = 40"
definition sizeof_VolatilityMsg :: nat where "sizeof_VolatilityMsg = 40"
definition sizeof_KLineMsg :: nat where "sizeof_KLineMsg = 56"
definition sizeof_TickerMsg :: nat where "sizeof_TickerMsg = 64"

definition MarketDepthMsg_type :: u16 where "MarketDepthMsg_type = 5"
definition TradeMsg_type :: u16 where "TradeMsg_type = 6"
definition VolatilityMsg_type :: u16 where "VolatilityMsg_type = 7"
definition KLineMsg_type :: u16 where "KLineMsg_type = 8"
definition TickerMsg_type :: u16 where "TickerMsg_type = 9"

text \<open>The layout: each struct is aligned to eight bytes.\<close>

definition level_fields :: "byte_order \<Rightarrow> nat \<Rightarrow> price_level \<Rightarrow> fields" where
  "level_fields E off l = double_at E off (pl_price l) @ int_at E (off + 8) (pl_size l)"

fun levels_fields :: "byte_order \<Rightarrow> nat \<Rightarrow> price_level list \<Rightarrow> fields" where
  "levels_fields E off [] = []"
| "levels_fields E off (l # ls) = level_fields E off l @ levels_fields E (off + 16) ls"

definition depth_fields :: "byte_order \<Rightarrow> depth_msg \<Rightarrow> fields" where
  "depth_fields E m =
     int_at E 0 (md_instrument_id m) @ levels_fields E 8 (md_bid m) @ levels_fields E 88 (md_ask m)"

definition trade_fields :: "byte_order \<Rightarrow> trade_msg \<Rightarrow> fields" where
  "trade_fields E m =
     int_at E 0 (tr_instrument_id m) @ double_at E 8 (tr_price m) @ int_at E 16 (tr_size m) @
     int_at E 20 (tr_trade_id m) @ bool_at 24 (tr_is_buy m) @ int64_at E 32 (tr_timestamp m)"

definition volatility_fields :: "byte_order \<Rightarrow> volatility_msg \<Rightarrow> fields" where
  "volatility_fields E m =
     int_at E 0 (vo_instrument_id m) @ double_at E 8 (vo_implied m) @ double_at E 16 (vo_historical m) @
     double_at E 24 (vo_realized m) @ int64_at E 32 (vo_timestamp m)"

definition kline_fields :: "byte_order \<Rightarrow> kline_msg \<Rightarrow> fields" where
  "kline_fields E m =
     int_at E 0 (kl_instrument_id m) @ int_at E 4 (kl_period m) @ double_at E 8 (kl_open m) @
     double_at E 16 (kl_high m) @ double_at E 24 (kl_low m) @ double_at E 32 (kl_close m) @
     int_at E 40 (kl_volume m) @ int64_at E 48 (kl_timestamp m)"

definition ticker_fields :: "byte_order \<Rightarrow> ticker_msg \<Rightarrow> fields" where
  "ticker_fields E m =
     int_at E 0 (ti_instrument_id m) @ double_at E 8 (ti_last_price m) @ double_at E 16 (ti_daily_change m) @
     double_at E 24 (ti_daily_percent_change m) @ double_at E 32 (ti_daily_high m) @
     double_at E 40 (ti_daily_low m) @ int_at E 48 (ti_daily_volume m) @ int64_at E 56 (ti_timestamp m)"

text \<open>Reading a struct through a pointer to its bytes.\<close>

definition load_levels :: "byte_order \<Rightarrow> nat \<Rightarrow> u8 list \<Rightarrow> price_level list" where
  "load_levels E off bs =
     map (\<lambda>i. \<lparr>pl_price = get_64 E (off + 16 * i) bs, pl_size = get_int E (off + 16 * i + 8) bs\<rparr>) [0 ..< 5]"

definition load_depth :: "byte_order \<Rightarrow> u8 list \<Rightarrow> depth_msg" where
  "load_depth E bs =
     \<lparr>md_instrument_id = get_int E 0 bs, md_bid = load_levels E 8 bs, md_ask = load_levels E 88 bs\<rparr>"

definition load_trade :: "byte_order \<Rightarrow> u8 list \<Rightarrow> trade_msg" where
  "load_trade E bs =
     \<lparr>tr_instrument_id = get_int E 0 bs, tr_price = get_64 E 8 bs, tr_size = get_int E 16 bs,
      tr_trade_id = get_int E 20 bs, tr_is_buy = get_bool 24 bs, tr_timestamp = get_64 E 32 bs\<rparr>"

definition load_volatility :: "byte_order \<Rightarrow> u8 list \<Rightarrow> volatility_msg" where
  "load_volatility E bs =
     \<lparr>vo_instrument_id = get_int E 0 bs, vo_implied = get_64 E 8 bs, vo_historical = get_64 E 16 bs,
      vo_realized = get_64 E 24 bs, vo_timestamp = get_64 E 32 bs\<rparr>"

definition load_kline :: "byte_order \<Rightarrow> u8 list \<Rightarrow> kline_msg" where
  "load_kline E bs =
     \<lparr>kl_instrument_id = get_int E 0 bs, kl_period = get_int E 4 bs, kl_open = get_64 E 8 bs,
      kl_high = get_64 E 16 bs, kl_low = get_64 E 24 bs, kl_close = get_64 E 32 bs,
      kl_volume = get_int E 40 bs, kl_timestamp = get_64 E 48 bs\<rparr>"

definition load_ticker :: "byte_order \<Rightarrow> u8 list \<Rightarrow> ticker_msg" where
  "load_ticker E bs =
     \<lparr>ti_instrument_id = get_int E 0 bs, ti_last_price = get_64 E 8 bs, ti_daily_change = get_64 E 16 bs,
      ti_daily_percent_change = get_64 E 24 bs, ti_daily_high = get_64 E 32 bs,
      ti_daily_low = get_64 E 40 bs, ti_daily_volume = get_int E 48 bs, ti_timestamp = get_64 E 56 bs\<rparr>"

lemmas at_defs = int_at_def int64_at_def double_at_def bool_at_def level_fields_def
lemmas sizeof_defs =
  sizeof_MarketDepthMsg_def sizeof_TradeMsg_def sizeof_VolatilityMsg_def sizeof_KLineMsg_def sizeof_TickerMsg_def

definition five :: "'a list \<Rightarrow> bool" where
  "five xs \<longleftrightarrow> length xs = 5"

lemma fiveE: "five xs \<Longrightarrow> (\<And>a b c d e. xs = [a, b, c, d, e] \<Longrightarrow> P) \<Longrightarrow> P"
  by (auto simp: five_def length_Suc_conv eval_nat_numeral)

lemma depth_laid_out: "five (md_bid m) \<Longrightarrow> five (md_ask m) \<Longrightarrow> laid_out 0 (depth_fields E m) 168"
  by (auto elim!: fiveE simp: depth_fields_def at_defs)

lemma trade_laid_out: "laid_out 0 (trade_fields E m) 40"
  by (simp add: trade_fields_def at_defs)

lemma volatility_laid_out: "laid_out 0 (volatility_fields E m) 40"
  by (simp add: volatility_fields_def at_defs)

lemma kline_laid_out: "laid_out 0 (kline_fields E m) 56"
  by (simp add: kline_fields_def at_defs)

lemma ticker_laid_out: "laid_out 0 (ticker_fields E m) 64"
  by (simp add: ticker_fields_def at_defs)

definition depth_ok :: "depth_msg \<Rightarrow> bool" where
  "depth_ok m \<longleftrightarrow> int_ok (md_instrument_id m) \<and> five (md_bid m) \<and> five (md_ask m) \<and>
     (\<forall>l \<in> set (md_bid m @ md_ask m). int_ok (pl_size l))"

definition trade_ok :: "trade_msg \<Rightarrow> bool" where
  "trade_ok m \<longleftrightarrow> int_ok (tr_instrument_id m) \<and> int_ok (tr_size m) \<and> int_ok (tr_trade_id m)"

definition kline_ok :: "kline_msg \<Rightarrow> bool" where
  "kline_ok m \<longleftrightarrow> int_ok (kl_instrument_id m) \<and> int_ok (kl_period m) \<and> int_ok (kl_volume m)"

definition ticker_ok :: "ticker_msg \<Rightarrow> bool" where
  "ticker_ok m \<longleftrightarrow> int_ok (ti_instrument_id m) \<and> int_ok (ti_daily_volume m)"

lemma load_set_trade:
  assumes "trade_ok m" "length bs = 40"
  shows "load_trade E (set_fields (trade_fields E m) bs) = m"
proof -
  have l: "laid_out 0 (trade_fields E m) (length bs)" using trade_laid_out assms(2) by simp
  have "get_bool 24 (set_fields (trade_fields E m) bs) = tr_is_buy m"
    by (rule get_bool_set [OF l]) (simp add: trade_fields_def at_defs)
  then show ?thesis
    using l assms(1)
    by (intro trade_msg.equality)
       (auto simp: trade_ok_def load_trade_def intro!: get_int_set get_64_set, simp_all add: trade_fields_def at_defs)
qed

lemma load_set_volatility:
  "int_ok (vo_instrument_id m) \<Longrightarrow> length bs = 40 \<Longrightarrow>
     load_volatility E (set_fields (volatility_fields E m) bs) = m"
  using volatility_laid_out [of E m]
  by (auto simp: load_volatility_def intro!: volatility_msg.equality get_int_set get_64_set)
     (simp_all add: volatility_fields_def at_defs)

lemma load_set_kline:
  "kline_ok m \<Longrightarrow> length bs = 56 \<Longrightarrow> load_kline E (set_fields (kline_fields E m) bs) = m"
  using kline_laid_out [of E m]
  by (auto simp: kline_ok_def load_kline_def intro!: kline_msg.equality get_int_set get_64_set)
     (simp_all add: kline_fields_def at_defs)

lemma load_set_ticker:
  "ticker_ok m \<Longrightarrow> length bs = 64 \<Longrightarrow> load_ticker E (set_fields (ticker_fields E m) bs) = m"
  using ticker_laid_out [of E m]
  by (auto simp: ticker_ok_def load_ticker_def intro!: ticker_msg.equality get_int_set get_64_set)
     (simp_all add: ticker_fields_def at_defs)

lemma level_in:
  "i < length ls \<Longrightarrow>
     (off + 16 * i, mem64 E (pl_price (ls ! i))) \<in> set (levels_fields E off ls) \<and>
     (off + 16 * i + 8, mem32 E (word_of_int (pl_size (ls ! i)))) \<in> set (levels_fields E off ls)"
proof (induction ls arbitrary: off i)
  case (Cons l ls)
  then show ?case
    using Cons.IH [of "i - 1" "off + 16"] by (cases i) (auto simp: at_defs algebra_simps)
qed simp

lemma load_levels_set:
  assumes "laid_out 0 fs (length bs)" "five ls" "\<forall>l \<in> set ls. int_ok (pl_size l)"
    and "set (levels_fields E off ls) \<subseteq> set fs"
  shows "load_levels E off (set_fields fs bs) = ls"
proof (rule nth_equalityI)
  show "length (load_levels E off (set_fields fs bs)) = length ls" using assms(2) by (simp add: load_levels_def five_def)
next
  fix i assume "i < length (load_levels E off (set_fields fs bs))"
  then have i: "i < 5" "i < length ls" using assms(2) by (simp_all add: load_levels_def five_def)
  have "int_ok (pl_size (ls ! i))" using i(2) assms(3) by simp
  moreover have "(off + 16 * i, mem64 E (pl_price (ls ! i))) \<in> set fs"
      "(off + 16 * i + 8, mem32 E (word_of_int (pl_size (ls ! i)))) \<in> set fs"
    using level_in [OF i(2)] assms(4) by blast+
  ultimately show "load_levels E off (set_fields fs bs) ! i = ls ! i"
    using i get_64_set [OF assms(1)] get_int_set [OF assms(1)] by (simp add: load_levels_def)
qed

lemma load_set_depth:
  assumes "depth_ok m" "length bs = 168"
  shows "load_depth E (set_fields (depth_fields E m) bs) = m"
proof -
  have f: "five (md_bid m)" "five (md_ask m)" and ok: "int_ok (md_instrument_id m)"
      "\<forall>l \<in> set (md_bid m). int_ok (pl_size l)" "\<forall>l \<in> set (md_ask m). int_ok (pl_size l)"
    using assms(1) by (auto simp: depth_ok_def)
  have l: "laid_out 0 (depth_fields E m) (length bs)" using depth_laid_out [OF f] assms(2) by simp
  have "get_int E 0 (set_fields (depth_fields E m) bs) = md_instrument_id m"
    using l ok(1) by (rule get_int_set) (simp add: depth_fields_def at_defs)
  moreover have "load_levels E 8 (set_fields (depth_fields E m) bs) = md_bid m"
    by (rule load_levels_set [OF l f(1) ok(2)]) (auto simp: depth_fields_def)
  moreover have "load_levels E 88 (set_fields (depth_fields E m) bs) = md_ask m"
    by (rule load_levels_set [OF l f(2) ok(3)]) (auto simp: depth_fields_def)
  ultimately show ?thesis by (intro depth_msg.equality) (simp_all add: load_depth_def)
qed

section \<open>Names of instruments\<close>

definition base_currencies :: "string list" where
  "base_currencies =
     [''BTC'', ''ETH'', ''BNB'', ''XRP'', ''ADA'', ''SOL'', ''DOT'', ''DOGE'', ''AVAX'', ''MATIC'',
      ''LINK'', ''UNI'', ''ATOM'', ''LTC'', ''FTM'', ''ALGO'', ''XLM'', ''VET'', ''AXS'', ''FIL'']"

definition quote_currencies :: "string list" where
  "quote_currencies = [''USDT'', ''USDC'', ''BUSD'', ''DAI'', ''USD'', ''EUR'']"

text \<open>The division by a \<open>size_t\<close> converts the \<open>int\<close> to 64 bits without a sign.\<close>

definition GetSymbolName :: "int \<Rightarrow> string" where
  "GetSymbolName instrument_id =
     (let id = word_of_int instrument_id :: u64;
          base_idx = unat (id mod of_nat (length base_currencies));
          quote_idx = unat (id div of_nat (length base_currencies) mod of_nat (length quote_currencies))
      in base_currencies ! base_idx @ ''-'' @ quote_currencies ! quote_idx)"

section \<open>Log lines\<close>

text \<open>A line of the log: the kind of the line and what it shows.\<close>

datatype shown = ShowStr string | ShowInt int | ShowDouble f64 | ShowNat u64

datatype log_line =
    LogSent u16 "shown list"
  | LogRequest u16 "shown list"
  | LogReceived u16 "shown list"
  | LogStats "shown list"
  | LogTypeStats int "shown list"

text \<open>The names of the periods, in UTF-8: minutes, hours, day, week.\<close>

definition period_str :: "int \<Rightarrow> string" where
  "period_str p =
     (let minutes = [CHR 0xE5, CHR 0x88, CHR 0x86, CHR 0xE9, CHR 0x92, CHR 0x9F];
          hours = [CHR 0xE5, CHR 0xB0, CHR 0x8F, CHR 0xE6, CHR 0x97, CHR 0xB6]
      in if p = 0 then ''1'' @ minutes
         else if p = 1 then ''5'' @ minutes
         else if p = 2 then ''15'' @ minutes
         else if p = 3 then ''30'' @ minutes
         else if p = 4 then ''1'' @ hours
         else if p = 5 then ''4'' @ hours
         else if p = 6 then ''1'' @ [CHR 0xE5, CHR 0xA4, CHR 0xA9]
         else if p = 7 then ''1'' @ [CHR 0xE5, CHR 0x91, CHR 0xA8]
         else '''')"

text \<open>Buy and sell, in UTF-8.\<close>

definition side_str :: "bool \<Rightarrow> string" where
  "side_str is_buy =
     (if is_buy then [CHR 0xE4, CHR 0xB9, CHR 0xB0, CHR 0xE5, CHR 0x85, CHR 0xA5]
      else [CHR 0xE5, CHR 0x8D, CHR 0x96, CHR 0xE5, CHR 0x87, CHR 0xBA])"

section \<open>The memory behind a message pointer\<close>

text \<open>
  A queue of blocks as an array of bytes and back: for the TCP queue blocks of eight bytes, for the
  ring blocks of a header and 56 bytes.
\<close>

definition bytes_blocks :: "byte_order \<Rightarrow> u8 list \<Rightarrow> msg_header list" where
  "bytes_blocks E bs = map (\<lambda>i. load_header E (drop (8 * i) bs)) [0 ..< length bs div 8]"

definition ring_bytes :: "byte_order \<Rightarrow> u8 list block list \<Rightarrow> u8 list" where
  "ring_bytes E bs = concat (map (\<lambda>b. header_bytes E (header b) @ rest b) bs)"

definition bytes_ring :: "byte_order \<Rightarrow> u8 list \<Rightarrow> u8 list block list" where
  "bytes_ring E bs =
     map (\<lambda>i. \<lparr>header = load_header E (drop (64 * i) bs), rest = seg (64 * i + 8) (64 * i + 64) bs\<rparr>)
       [0 ..< length bs div 64]"

text \<open>
  The array a message to send lies in, with the offset of its header, and its update; and the
  array of a message received.
\<close>

definition tx_mem :: "byte_order \<Rightarrow> msg_ptr \<Rightarrow> tconn \<Rightarrow> (u8 list \<times> nat) checked" where
  "tx_mem E p c =
     (case p of
        InQueue i \<Rightarrow> chk_bind (deref (ptcp_conn c)) (\<lambda>q. ok (blocks_bytes E (blk q), 8 * unat i))
      | InRing j \<Rightarrow> (case shm_sendq c of None \<Rightarrow> Inl NullPointer | Some q \<Rightarrow> ok (ring_bytes E (q_blk q), 64 * j))
      | InRecvBuf i \<Rightarrow> ok (recvbuf (ptcp_conn c), unat i))"

definition tx_put :: "byte_order \<Rightarrow> msg_ptr \<Rightarrow> u8 list \<Rightarrow> tconn \<Rightarrow> tconn" where
  "tx_put E p mem c =
     (case p of
        InQueue i \<Rightarrow> c\<lparr>ptcp_conn := (ptcp_conn c)
          \<lparr>q_ptr := map_option (\<lambda>q. q\<lparr>blk := bytes_blocks E mem\<rparr>) (q_ptr (ptcp_conn c))\<rparr>\<rparr>
      | InRing j \<Rightarrow> c\<lparr>shm_sendq := map_option (\<lambda>q. q\<lparr>q_blk := bytes_ring E mem\<rparr>) (shm_sendq c)\<rparr>
      | InRecvBuf i \<Rightarrow> c\<lparr>ptcp_conn := (ptcp_conn c)\<lparr>recvbuf := mem\<rparr>\<rparr>)"

definition rx_mem :: "byte_order \<Rightarrow> msg_ptr \<Rightarrow> tconn \<Rightarrow> (u8 list \<times> nat) checked" where
  "rx_mem E p c =
     (case p of
        InRing j \<Rightarrow> (case shm_recvq c of None \<Rightarrow> Inl NullPointer | Some q \<Rightarrow> ok (ring_bytes E (q_blk q), 64 * j))
      | _ \<Rightarrow> tx_mem E p c)"

text \<open>Reading \<open>n\<close> bytes of an array.\<close>

definition read_at :: "nat \<Rightarrow> nat \<Rightarrow> u8 list \<Rightarrow> u8 list checked" where
  "read_at i n mem = (if i + n \<le> length mem then ok (seg i (i + n) mem) else Inl OutOfBounds)"

text \<open>The header and the body of a message received; a body is a struct of \<open>n\<close> bytes.\<close>

definition rx_header :: "byte_order \<Rightarrow> msg_ptr \<Rightarrow> tconn \<Rightarrow> msg_header checked" where
  "rx_header E p c =
     chk_bind (rx_mem E p c) (\<lambda>(mem, off). chk_bind (read_at off 8 mem) (\<lambda>bs. ok (load_header E bs)))"

definition rx_body :: "byte_order \<Rightarrow> nat \<Rightarrow> msg_ptr \<Rightarrow> tconn \<Rightarrow> u8 list checked" where
  "rx_body E n p c = chk_bind (rx_mem E p c) (\<lambda>(mem, off). read_at (off + 8) n mem)"

text \<open>
  Between \<open>Alloc\<close> and \<open>Push\<close>: the type goes into the header and the members into the body,
  a struct of \<open>n\<close> bytes.
\<close>

definition tx_fill :: "byte_order \<Rightarrow> u16 \<Rightarrow> nat \<Rightarrow> fields \<Rightarrow> msg_ptr \<Rightarrow> tconn \<Rightarrow> tconn checked" where
  "tx_fill E t n fs p c =
     chk_bind (tx_mem E p c) (\<lambda>(mem, off).
     chk_bind (write_at (mem16 E t) (off + 2) mem) (\<lambda>mem.
     chk_bind (read_at (off + 8) n mem) (\<lambda>body.
     chk_bind (write_at (set_fields fs body) (off + 8) mem) (\<lambda>mem. ok (tx_put E p mem c)))))"

definition tx_type :: "byte_order \<Rightarrow> msg_ptr \<Rightarrow> tconn \<Rightarrow> u16 checked" where
  "tx_type E p c =
     chk_bind (tx_mem E p c) (\<lambda>(mem, off). chk_bind (read_at (off + 2) 2 mem) (\<lambda>bs. ok (load16 E bs)))"

section \<open>Programs in the environment\<close>

text \<open>
  The variables of a program are a part of the environment of the library's operations, and the
  system calls do not touch them.
\<close>

definition lift_call :: "('w \<Rightarrow> 'r \<times> 'w) \<Rightarrow> 'w \<times> 's \<Rightarrow> 'r \<times> ('w \<times> 's)" where
  "lift_call f e = (let (w, s) = e; (r, w1) = f w in (r, (w1, s)))"

definition lift_env :: "('w \<Rightarrow> 'w) \<Rightarrow> 'w \<times> 's \<Rightarrow> 'w \<times> 's" where
  "lift_env f e = (f (fst e), snd e)"

definition lift_os :: "'w os \<Rightarrow> ('w \<times> 's) os" where
  "lift_os N =
     \<lparr>os_open = \<lambda>f. lift_call (os_open N f), os_shm_open = \<lambda>f. lift_call (os_shm_open N f),
      os_ftruncate = \<lambda>fd n. lift_call (os_ftruncate N fd n),
      os_mmap_ptcp = \<lambda>fd n. lift_call (os_mmap_ptcp N fd n),
      os_mmap_ring = \<lambda>fd n. lift_call (os_mmap_ring N fd n),
      os_mmap_name = \<lambda>fd n. lift_call (os_mmap_name N fd n),
      os_munmap_ptcp = \<lambda>q. lift_env (os_munmap_ptcp N q), os_munmap_ring = \<lambda>q. lift_env (os_munmap_ring N q),
      os_munmap_name = \<lambda>s. lift_env (os_munmap_name N s), os_close = \<lambda>fd. lift_env (os_close N fd),
      os_send = \<lambda>fd bs. lift_call (os_send N fd bs), os_read = \<lambda>fd n. lift_call (os_read N fd n),
      os_socket = lift_call (os_socket N), os_setsockopt = \<lambda>fd s. lift_call (os_setsockopt N fd s),
      os_nonblock = \<lambda>fd. lift_env (os_nonblock N fd),
      os_connect = \<lambda>fd a p. lift_call (os_connect N fd a p), os_bind = \<lambda>fd a p. lift_call (os_bind N fd a p),
      os_listen = \<lambda>fd. lift_call (os_listen N fd), os_accept = \<lambda>fd. lift_call (os_accept N fd)\<rparr>"

section \<open>Configuration\<close>

text \<open>
  \<open>CommonConf\<close>, with what the two programs agree on besides it; \<open>queue\<close> is the size of the TCP
  queue, \<open>little\<close> whether the host is little endian.  Times are in nanoseconds.
\<close>

definition NanoInSecond :: int where
  "NanoInSecond = 1000000000"

definition market_conf :: "bool \<Rightarrow> u32 \<Rightarrow> conf" where
  "market_conf little queue =
     \<lparr>c_order = \<lparr>ToLittle = True, is_little_endian = little\<rparr>, NameSize = 16, TcpQueueSize = queue,
      ShmQueueSize = 1024 * 1024, TcpRecvBufInitSize = 1000, TcpRecvBufMaxSize = 2000, TcpNoDelay = True,
      ConnectionTimeout = 10 * NanoInSecond, HeartBeatInverval = 3 * NanoInSecond\<rparr>"

end
