(* ===== verification/MarketServer.thy ===== *)
theory MarketServer
  imports TcpShmServer MarketData "HOL-Library.AList_Mapping"
begin

text \<open>
  Model of \<^verbatim>\<open>crypto_market_example/echo_server.cpp\<close>: the five functions that make up and send a
  message, one turn of the thread that sends to the active connections, and the callbacks.
  The random numbers and the clock come from a source on the environment.  Lines of the log
  keep what they show, not their wording.
\<close>

section \<open>State\<close>

record market_server =
  last_trade_id :: u32
  msg_send_count :: "(int, int) mapping"
  ms_log :: "log_line list"

definition market_server_new :: market_server where
  "market_server_new =
     \<lparr>last_trade_id = 0, msg_send_count = fold (\<lambda>i. Mapping.update (i + 5) 0) [0 .. 4] Mapping.empty,
      ms_log = []\<rparr>"

definition count_sent :: "u16 \<Rightarrow> market_server \<Rightarrow> market_server" where
  "count_sent t a =
     a\<lparr>msg_send_count := Mapping.update (uint t)
         (case Mapping.lookup (msg_send_count a) (uint t) of None \<Rightarrow> 1 | Some n \<Rightarrow> n + 1) (msg_send_count a)\<rparr>"

text \<open>The lines at the end of \<open>Run\<close>: each type with its count, in the order of the types.\<close>

definition sent_lines :: "market_server \<Rightarrow> log_line list" where
  "sent_lines a =
     map (\<lambda>ty. LogTypeStats ty [ShowInt (case Mapping.lookup (msg_send_count a) ty of None \<Rightarrow> 0 | Some n \<Rightarrow> n)])
       (Mapping.ordered_keys (msg_send_count a))"

text \<open>\<open>ServerConf\<close>; the user data of both logins is one \<open>char\<close>.\<close>

definition market_sconf :: "bool \<Rightarrow> sconf" where
  "market_sconf little =
     \<lparr>s_conf = market_conf little 4000, MaxNewConnections = 5, MaxShmConnsPerGrp = 4, MaxShmGrps = 1,
      MaxTcpConnsPerGrp = 4, MaxTcpGrps = 1, NewConnectionTimeout = 3 * NanoInSecond,
      UserDataSize = 1, RspUserDataSize = 1\<rparr>"

definition RandomOffset :: "fpu \<Rightarrow> 'e source \<Rightarrow> 'e \<Rightarrow> f64 \<times> 'e" where
  "RandomOffset F G e = uniform_real G (fp_lit F (-5) 1) (fp_lit F 5 1) e"

definition RandomSize :: "'e source \<Rightarrow> 'e \<Rightarrow> int \<times> 'e" where
  "RandomSize G e = uniform_int G 1 100 e"

section \<open>Sending one message\<close>

text \<open>
  The five functions share their frame: \<open>Alloc\<close>, and nothing else when there is no space; the
  type and the members; the log line; \<open>Push\<close>; and the count for the type found in the header
  after the push.  \<open>mk\<close> gives the members, what is logged, and the new state.
\<close>

type_synonym 'e maker = "market_server \<Rightarrow> 'e \<Rightarrow> fields \<times> shown list \<times> market_server \<times> 'e"

definition send_msg ::
  "'e os \<Rightarrow> conf \<Rightarrow> nat \<Rightarrow> u16 \<Rightarrow> 'e maker \<Rightarrow> tconn \<Rightarrow> market_server \<Rightarrow> 'e \<Rightarrow>
     ((tconn \<times> market_server) checked \<times> 'e) option"
where
  "send_msg N cf len t mk c a e =
     (let E = c_order cf in
      case tconn_Alloc cf (of_nat len) c of
        Inl f \<Rightarrow> Some (Inl f, e)
      | Inr (None, c1) \<Rightarrow> Some (ok (c1, a), e)
      | Inr (Some p, c1) \<Rightarrow>
          (case mk a e of (fs, shows, a1, e1) \<Rightarrow>
            (case tx_fill E t len fs p c1 of
               Inl f \<Rightarrow> Some (Inl f, e1)
             | Inr c2 \<Rightarrow>
                 and_then (tconn_Push N cf c2 e1) (\<lambda>c3 e2.
                   Some (chk_bind (tx_type E p c3) (\<lambda>ty.
                     ok (c3, count_sent ty (a1\<lparr>ms_log := ms_log a1 @ [LogSent t shows]\<rparr>))), e2)))))"

definition base_price :: "fpu \<Rightarrow> int \<Rightarrow> f64" where
  "base_price F instrument_id = fp_add F (fp_lit F 100 0) (fp_of_int F (instrument_id smod 100))"

fun make_levels ::
  "fpu \<Rightarrow> 'e source \<Rightarrow> f64 \<Rightarrow> int list \<Rightarrow> 'e \<Rightarrow> price_level list \<times> price_level list \<times> 'e"
where
  "make_levels F G base [] e = ([], [], e)"
| "make_levels F G base (i # is) e =
     (let step = fp_mul F (fp_of_int F i) (fp_lit F 1 1);
          (off1, e1) = RandomOffset F G e;
          bid_price = fp_sub F (fp_sub F base step) off1;
          (r1, e2) = RandomSize G e1;
          bid_size = 100 + i * 10 + r1;
          (off2, e3) = RandomOffset F G e2;
          ask_price = fp_add F (fp_add F (fp_add F base (fp_lit F 1 1)) step) off2;
          (r2, e4) = RandomSize G e3;
          ask_size = 100 + i * 10 + r2;
          (bids, asks, e5) = make_levels F G base is e4
      in (\<lparr>pl_price = bid_price, pl_size = bid_size\<rparr> # bids,
          \<lparr>pl_price = ask_price, pl_size = ask_size\<rparr> # asks, e5))"

definition make_depth :: "byte_order \<Rightarrow> fpu \<Rightarrow> 'e source \<Rightarrow> int \<Rightarrow> 'e maker" where
  "make_depth E F G instrument_id a e =
     (let id = instrument_id smod 120;
          (bids, asks, e1) = make_levels F G (base_price F id) [0 .. 4] e;
          msg = \<lparr>md_instrument_id = id, md_bid = bids, md_ask = asks\<rparr>
      in (depth_fields E msg,
          [ShowStr (GetSymbolName id), ShowInt id, ShowDouble (pl_price (bids ! 0)), ShowDouble (pl_price (asks ! 0))],
          a, e1))"

definition SendMarketDepthMsg ::
  "'e os \<Rightarrow> conf \<Rightarrow> fpu \<Rightarrow> 'e source \<Rightarrow> int \<Rightarrow> tconn \<Rightarrow> market_server \<Rightarrow> 'e \<Rightarrow>
     ((tconn \<times> market_server) checked \<times> 'e) option"
where
  "SendMarketDepthMsg N cf F G instrument_id =
     send_msg N cf sizeof_MarketDepthMsg MarketDepthMsg_type (make_depth (c_order cf) F G instrument_id)"

definition make_trade :: "byte_order \<Rightarrow> fpu \<Rightarrow> 'e source \<Rightarrow> int \<Rightarrow> 'e maker" where
  "make_trade E F G instrument_id a e =
     (let id = instrument_id smod 120;
          (off, e1) = RandomOffset F G e;
          (sz, e2) = RandomSize G e1;
          trade_id = last_trade_id a + 1;
          (r, e3) = RandomSize G e2;
          (ts, e4) = now G e3;
          msg = \<lparr>tr_instrument_id = id, tr_price = fp_add F (base_price F id) off, tr_size = 100 + sz,
                 tr_trade_id = sint trade_id, tr_is_buy = (r smod 2 = 0), tr_timestamp = ts\<rparr>
      in (trade_fields E msg,
          [ShowStr (GetSymbolName id), ShowInt id, ShowDouble (tr_price msg), ShowInt (tr_size msg),
           ShowStr (side_str (tr_is_buy msg))],
          a\<lparr>last_trade_id := trade_id\<rparr>, e4))"

definition SendTradeMsg ::
  "'e os \<Rightarrow> conf \<Rightarrow> fpu \<Rightarrow> 'e source \<Rightarrow> int \<Rightarrow> tconn \<Rightarrow> market_server \<Rightarrow> 'e \<Rightarrow>
     ((tconn \<times> market_server) checked \<times> 'e) option"
where
  "SendTradeMsg N cf F G instrument_id =
     send_msg N cf sizeof_TradeMsg TradeMsg_type (make_trade (c_order cf) F G instrument_id)"

text \<open>A volatility: \<open>start + (instrument_id % m) * 0.01 + RandomOffset() * 0.1\<close>.\<close>

definition random_volatility ::
  "fpu \<Rightarrow> 'e source \<Rightarrow> f64 \<Rightarrow> int \<Rightarrow> int \<Rightarrow> 'e \<Rightarrow> f64 \<times> 'e"
where
  "random_volatility F G start m i e =
     (let (off, e1) = RandomOffset F G e
      in (fp_add F (fp_add F start (fp_mul F (fp_of_int F (i smod m)) (fp_lit F 1 2)))
            (fp_mul F off (fp_lit F 1 1)), e1))"

definition make_volatility :: "byte_order \<Rightarrow> fpu \<Rightarrow> 'e source \<Rightarrow> int \<Rightarrow> 'e maker" where
  "make_volatility E F G instrument_id a e =
     (let id = instrument_id smod 120;
          (implied, e1) = random_volatility F G (fp_lit F 2 1) 10 id e;
          (historical, e2) = random_volatility F G (fp_lit F 18 2) 8 id e1;
          (realized, e3) = random_volatility F G (fp_lit F 19 2) 9 id e2;
          (ts, e4) = now G e3;
          msg = \<lparr>vo_instrument_id = id, vo_implied = implied, vo_historical = historical,
                 vo_realized = realized, vo_timestamp = ts\<rparr>
      in (volatility_fields E msg,
          [ShowStr (GetSymbolName id), ShowInt id, ShowDouble implied, ShowDouble historical, ShowDouble realized],
          a, e4))"

definition SendVolatilityMsg ::
  "'e os \<Rightarrow> conf \<Rightarrow> fpu \<Rightarrow> 'e source \<Rightarrow> int \<Rightarrow> tconn \<Rightarrow> market_server \<Rightarrow> 'e \<Rightarrow>
     ((tconn \<times> market_server) checked \<times> 'e) option"
where
  "SendVolatilityMsg N cf F G instrument_id =
     send_msg N cf sizeof_VolatilityMsg VolatilityMsg_type (make_volatility (c_order cf) F G instrument_id)"

definition make_kline :: "byte_order \<Rightarrow> fpu \<Rightarrow> 'e source \<Rightarrow> int \<Rightarrow> 'e maker" where
  "make_kline E F G instrument_id a e =
     (let id = instrument_id smod 120;
          base = base_price F id;
          (r, e1) = RandomSize G e;
          period = r smod 8;
          (off1, e2) = RandomOffset F G e1;
          range = fp_add F (fp_lit F 1 0) (fp_mul F off1 (fp_lit F 5 1));
          (off2, e3) = RandomOffset F G e2;
          close = fp_add F base off2;
          (off3, e4) = RandomOffset F G e3;
          opening = fp_sub F close off3;
          high = fp_add F (fp_max F opening close) (fp_mul F range (fp_lit F 2 1));
          low = fp_sub F (fp_min F opening close) (fp_mul F range (fp_lit F 2 1));
          (v, e5) = RandomSize G e4;
          (ts, e6) = now G e5;
          msg = \<lparr>kl_instrument_id = id, kl_period = period, kl_open = opening, kl_high = high, kl_low = low,
                 kl_close = close, kl_volume = 1000 + v * 10, kl_timestamp = ts\<rparr>
      in (kline_fields E msg,
          [ShowStr (GetSymbolName id), ShowInt id, ShowStr (period_str period), ShowDouble opening,
           ShowDouble high, ShowDouble low, ShowDouble close, ShowInt (kl_volume msg)],
          a, e6))"

definition SendKLineMsg ::
  "'e os \<Rightarrow> conf \<Rightarrow> fpu \<Rightarrow> 'e source \<Rightarrow> int \<Rightarrow> tconn \<Rightarrow> market_server \<Rightarrow> 'e \<Rightarrow>
     ((tconn \<times> market_server) checked \<times> 'e) option"
where
  "SendKLineMsg N cf F G instrument_id =
     send_msg N cf sizeof_KLineMsg KLineMsg_type (make_kline (c_order cf) F G instrument_id)"

definition make_ticker :: "byte_order \<Rightarrow> fpu \<Rightarrow> 'e source \<Rightarrow> int \<Rightarrow> 'e maker" where
  "make_ticker E F G instrument_id a e =
     (let id = instrument_id smod 120;
          base = base_price F id;
          (off1, e1) = RandomOffset F G e;
          (off2, e2) = RandomOffset F G e1;
          change = fp_mul F off2 (fp_lit F 2 0);
          (off3, e3) = RandomOffset F G e2;
          (off4, e4) = RandomOffset F G e3;
          (v, e5) = RandomSize G e4;
          (ts, e6) = now G e5;
          msg = \<lparr>ti_instrument_id = id, ti_last_price = fp_add F base off1, ti_daily_change = change,
                 ti_daily_percent_change = fp_mul F (fp_div F change base) (fp_lit F 100 0),
                 ti_daily_high = fp_add F base (fp_abs F (fp_mul F off3 (fp_lit F 2 0))),
                 ti_daily_low = fp_sub F base (fp_abs F (fp_mul F off4 (fp_lit F 2 0))),
                 ti_daily_volume = 10000 + v * 100, ti_timestamp = ts\<rparr>
      in (ticker_fields E msg,
          [ShowStr (GetSymbolName id), ShowInt id, ShowDouble (ti_last_price msg),
           ShowDouble (ti_daily_percent_change msg), ShowDouble (ti_daily_high msg),
           ShowDouble (ti_daily_low msg), ShowInt (ti_daily_volume msg)],
          a, e6))"

definition SendTickerMsg ::
  "'e os \<Rightarrow> conf \<Rightarrow> fpu \<Rightarrow> 'e source \<Rightarrow> int \<Rightarrow> tconn \<Rightarrow> market_server \<Rightarrow> 'e \<Rightarrow>
     ((tconn \<times> market_server) checked \<times> 'e) option"
where
  "SendTickerMsg N cf F G instrument_id =
     send_msg N cf sizeof_TickerMsg TickerMsg_type (make_ticker (c_order cf) F G instrument_id)"

section \<open>The sending thread\<close>

text \<open>The message sent when \<open>total_sent\<close> have been; \<open>total_sent\<close> starts at 0 and only grows.\<close>

definition send_next ::
  "'e os \<Rightarrow> conf \<Rightarrow> fpu \<Rightarrow> 'e source \<Rightarrow> nat \<Rightarrow> tconn \<Rightarrow> market_server \<Rightarrow> 'e \<Rightarrow>
     ((tconn \<times> market_server) checked \<times> 'e) option"
where
  "send_next N cf F G total_sent =
     (let msg_type = 5 + total_sent mod 5; instrument_id = int (total_sent mod 120)
      in if msg_type = 5 then SendMarketDepthMsg N cf F G instrument_id
         else if msg_type = 6 then SendTradeMsg N cf F G instrument_id
         else if msg_type = 7 then SendVolatilityMsg N cf F G instrument_id
         else if msg_type = 8 then SendKLineMsg N cf F G instrument_id
         else SendTickerMsg N cf F G instrument_id)"

definition max_msgs_to_send :: nat where
  "max_msgs_to_send = 10000"

text \<open>One pass over the connections; the state is the pool, \<open>total_sent\<close> and the server's own state.\<close>

fun send_round ::
  "'e os \<Rightarrow> conf \<Rightarrow> fpu \<Rightarrow> 'e source \<Rightarrow> nat list \<Rightarrow> tconn list \<times> nat \<times> market_server \<Rightarrow> 'e \<Rightarrow>
     ((tconn list \<times> nat \<times> market_server) checked \<times> 'e) option"
where
  "send_round N cf F G [] s e = Some (ok s, e)"
| "send_round N cf F G (k # ks) (pool, sent_cnt, a) e =
     (if tconn_IsClosed (pool ! k) then send_round N cf F G ks (pool, sent_cnt, a) e
      else and_then (send_next N cf F G sent_cnt (pool ! k) a e) (\<lambda>(c, a1) e1.
        let s1 = (pool[k := c], Suc sent_cnt, a1)
        in if max_msgs_to_send \<le> Suc sent_cnt then Some (ok s1, e1) else send_round N cf F G ks s1 e1))"

text \<open>
  \<open>active_connections\<close> changes only in the callbacks \<open>OnClientLogon\<close> and \<open>OnClientDisconnected\<close>,
  so it is a function of the events.
\<close>

fun active_after :: "event \<Rightarrow> nat list \<Rightarrow> nat list" where
  "active_after (OnClientLogon addr k) ks = ks @ [k]"
| "active_after (OnClientDisconnected k reason err) ks = remove1 k ks"
| "active_after _ ks = ks"

definition active_connections :: "server \<Rightarrow> nat list" where
  "active_connections srv = fold active_after (events srv) []"

text \<open>
  One turn of the loop of \<open>SendMarketDataPeriodically\<close>: the copy of the active connections and the
  pass over them.  With none of them the thread only sleeps.
\<close>

definition send_turn ::
  "'e os \<Rightarrow> conf \<Rightarrow> fpu \<Rightarrow> 'e source \<Rightarrow> server \<times> nat \<times> market_server \<Rightarrow> 'e \<Rightarrow>
     ((server \<times> nat \<times> market_server) checked \<times> 'e) option"
where
  "send_turn N cf F G s e =
     (let (srv, sent_cnt, a) = s in
      if max_msgs_to_send \<le> sent_cnt then Some (ok s, e)
      else map_option (\<lambda>(r, e1). (chk_bind r (\<lambda>(pool, total1, a1).
             ok (srv\<lparr>conn_pool := pool\<rparr>, total1, a1)), e1))
        (send_round N cf F G (active_connections srv) (conn_pool srv, sent_cnt, a) e))"

section \<open>Callbacks\<close>

text \<open>\<open>OnNewConnection\<close>; \<open>H\<close> is \<open>std::hash\<close>, and \<open>strcpy\<close> copies the terminating null as well.\<close>

definition market_OnNewConnection ::
  "(string \<Rightarrow> u64) \<Rightarrow> sconf \<Rightarrow> string \<Rightarrow> login_msg \<Rightarrow> login_rsp \<Rightarrow> 'e \<Rightarrow> (int \<times> login_rsp) \<times> 'e"
where
  "market_OnNewConnection H S addr login rsp e =
     (let hh = H (c_str (client_name login));
          refuse_with = (\<lambda>msg. rsp\<lparr>error_msg := blit (msg @ [NUL]) 0 (error_msg rsp)\<rparr>)
      in (if use_shm login \<noteq> 0 then
            if 0 < MaxShmGrps S then (int (unat hh mod MaxShmGrps S), rsp) else (- 1, refuse_with ''Shm disabled'')
          else
            if 0 < MaxTcpGrps S then (int (unat hh mod MaxTcpGrps S), rsp) else (- 1, refuse_with ''Tcp disabled''),
          e))"

text \<open>\<open>OnClientMsg\<close>: a request is logged, every message is popped.\<close>

definition market_OnClientMsg ::
  "conf \<Rightarrow> msg_ptr \<Rightarrow> tconn \<Rightarrow> 'w \<times> market_server \<Rightarrow> (tconn checked \<times> ('w \<times> market_server)) option"
where
  "market_OnClientMsg cf p c e =
     (let (w, a) = e; E = c_order cf in
      case rx_header E p c of
        Inl f \<Rightarrow> Some (Inl f, e)
      | Inr h \<Rightarrow>
          let t = msg_type h in
          if 5 \<le> t \<and> t \<le> 9 then
            (case rx_body E 4 p c of
               Inl f \<Rightarrow> Some (Inl f, e)
             | Inr body \<Rightarrow>
                 let id = get_int E 0 body in
                 Some (tconn_Pop cf c,
                   (w, a\<lparr>ms_log := ms_log a @ [LogRequest t [ShowStr (GetSymbolName id), ShowInt id]]\<rparr>)))
          else Some (tconn_Pop cf c, e))"

definition market_app :: "(string \<Rightarrow> u64) \<Rightarrow> sconf \<Rightarrow> ('w \<times> market_server) server_app" where
  "market_app H S =
     \<lparr>OnNewConnection = market_OnNewConnection H S, OnClientMsg = market_OnClientMsg (s_conf S)\<rparr>"

end
