(* ===== verification/MarketClient.thy ===== *)
theory MarketClient
  imports TcpShmClient MarketData "HOL-Library.AList_Mapping"
begin

text \<open>
  Model of \<^verbatim>\<open>crypto_market_example/echo_client.cpp\<close>: the handlers of the messages, the latency
  statistics, and the run of the client.  The client's own state is part of the environment
  of the library's operations.  A handler that calls \<open>exit\<close> does not return: \<open>None\<close>.
\<close>

section \<open>State\<close>

record latency_stats =
  ls_min :: u64
  ls_max :: u64
  ls_total :: u64
  ls_count :: int

definition latency_stats_new :: latency_stats where
  "latency_stats_new = \<lparr>ls_min = - 1, ls_max = 0, ls_total = 0, ls_count = 0\<rparr>"

definition latency_update :: "u64 \<Rightarrow> latency_stats \<Rightarrow> latency_stats" where
  "latency_update latency s =
     \<lparr>ls_min = min (ls_min s) latency, ls_max = max (ls_max s) latency, ls_total = ls_total s + latency,
      ls_count = ls_count s + 1\<rparr>"

text \<open>The two numbers live in mapped files and are kept as values; the maps are functions.\<close>

record market_client =
  msg_sent :: int
  start_time :: u64
  stop_time :: u64
  send_num :: int
  recv_num :: int
  stats_of :: "(int, latency_stats) mapping"
  msg_sent_time :: "u64 \<rightharpoonup> int \<times> u64"
  mc_log :: "log_line list"

definition MaxNum :: int where
  "MaxNum = 10000"

definition mlog :: "log_line \<Rightarrow> market_client \<Rightarrow> market_client" where
  "mlog l mc = mc\<lparr>mc_log := mc_log mc @ [l]\<rparr>"

section \<open>Handlers\<close>

text \<open>
  What the five handlers of market data share: the check of the instrument, the latency when the
  time of sending is known, the log line and the count.  \<open>shows\<close> is the part of the line that
  depends on the message.
\<close>

definition accept_msg ::
  "'w source \<Rightarrow> u16 \<Rightarrow> int \<Rightarrow> shown list \<Rightarrow> market_client \<Rightarrow> 'w \<Rightarrow> (market_client \<times> 'w) option"
where
  "accept_msg G t v shows mc w =
     (if v \<noteq> recv_num mc smod 120 then None
      else
        let (recv_time, w1) = now G w;
            key = word_of_int (recv_num mc);
            counted = [ShowInt (recv_num mc + 1), ShowInt MaxNum];
            mc1 = (case msg_sent_time mc key of
                Some (ty, sent) \<Rightarrow>
                  let latency = recv_time - sent;
                      s = (case Mapping.lookup (stats_of mc) ty of None \<Rightarrow> latency_stats_new | Some s \<Rightarrow> s)
                  in (mlog (LogReceived t (shows @ [ShowNat latency] @ counted)) mc)
                       \<lparr>stats_of := Mapping.update ty (latency_update latency s) (stats_of mc),
                        msg_sent_time := (msg_sent_time mc)(key := None)\<rparr>
              | None \<Rightarrow> mlog (LogReceived t (shows @ counted)) mc)
        in Some (mc1\<lparr>recv_num := recv_num mc + 1\<rparr>, w1))"

definition handleMarketDepthMsg ::
  "byte_order \<Rightarrow> 'w source \<Rightarrow> u8 list \<Rightarrow> market_client \<Rightarrow> 'w \<Rightarrow> (market_client \<times> 'w) option"
where
  "handleMarketDepthMsg E G body =
     (let msg = load_depth E body; v = md_instrument_id msg
      in accept_msg G MarketDepthMsg_type v
           [ShowStr (GetSymbolName v), ShowInt v, ShowDouble (pl_price (md_bid msg ! 0)),
            ShowDouble (pl_price (md_ask msg ! 0))])"

definition handleTradeMsg ::
  "byte_order \<Rightarrow> 'w source \<Rightarrow> u8 list \<Rightarrow> market_client \<Rightarrow> 'w \<Rightarrow> (market_client \<times> 'w) option"
where
  "handleTradeMsg E G body =
     (let msg = load_trade E body; v = tr_instrument_id msg
      in accept_msg G TradeMsg_type v
           [ShowStr (GetSymbolName v), ShowInt v, ShowDouble (tr_price msg), ShowInt (tr_size msg),
            ShowStr (side_str (tr_is_buy msg))])"

definition handleVolatilityMsg ::
  "byte_order \<Rightarrow> 'w source \<Rightarrow> u8 list \<Rightarrow> market_client \<Rightarrow> 'w \<Rightarrow> (market_client \<times> 'w) option"
where
  "handleVolatilityMsg E G body =
     (let msg = load_volatility E body; v = vo_instrument_id msg
      in accept_msg G VolatilityMsg_type v
           [ShowStr (GetSymbolName v), ShowInt v, ShowDouble (vo_implied msg), ShowDouble (vo_historical msg),
            ShowDouble (vo_realized msg)])"

definition handleKLineMsg ::
  "byte_order \<Rightarrow> 'w source \<Rightarrow> u8 list \<Rightarrow> market_client \<Rightarrow> 'w \<Rightarrow> (market_client \<times> 'w) option"
where
  "handleKLineMsg E G body =
     (let msg = load_kline E body; v = kl_instrument_id msg
      in accept_msg G KLineMsg_type v
           [ShowStr (GetSymbolName v), ShowInt v, ShowStr (period_str (kl_period msg)), ShowDouble (kl_open msg),
            ShowDouble (kl_high msg), ShowDouble (kl_low msg), ShowDouble (kl_close msg), ShowInt (kl_volume msg)])"

definition handleTickerMsg ::
  "byte_order \<Rightarrow> 'w source \<Rightarrow> u8 list \<Rightarrow> market_client \<Rightarrow> 'w \<Rightarrow> (market_client \<times> 'w) option"
where
  "handleTickerMsg E G body =
     (let msg = load_ticker E body; v = ti_instrument_id msg
      in accept_msg G TickerMsg_type v
           [ShowStr (GetSymbolName v), ShowInt v, ShowDouble (ti_last_price msg),
            ShowDouble (ti_daily_percent_change msg), ShowDouble (ti_daily_high msg),
            ShowDouble (ti_daily_low msg), ShowInt (ti_daily_volume msg)])"

text \<open>\<open>handleMsg\<close> for the values of a \<open>MsgTpl\<close>; the conversion acts on a copy of each value.\<close>

fun handleMsg :: "byte_order \<Rightarrow> int list \<Rightarrow> market_client \<Rightarrow> market_client option" where
  "handleMsg E [] mc = Some mc"
| "handleMsg E (v # vs) mc =
     (if ConvertSigned32 E v \<noteq> recv_num mc then None
      else handleMsg E vs (mc\<lparr>recv_num := recv_num mc + 1\<rparr>))"

definition msg_vals :: "byte_order \<Rightarrow> nat \<Rightarrow> u8 list \<Rightarrow> int list" where
  "msg_vals E n body = map (\<lambda>i. get_int E (4 * i) body) [0 ..< n]"

text \<open>The size of the struct a type stands for, and its handler.\<close>

definition body_size :: "u16 \<Rightarrow> nat" where
  "body_size t =
     (if 1 \<le> t \<and> t \<le> 4 then 4 * unat t
      else if t = MarketDepthMsg_type then sizeof_MarketDepthMsg
      else if t = TradeMsg_type then sizeof_TradeMsg
      else if t = VolatilityMsg_type then sizeof_VolatilityMsg
      else if t = KLineMsg_type then sizeof_KLineMsg
      else if t = TickerMsg_type then sizeof_TickerMsg
      else 0)"

definition handle_body ::
  "byte_order \<Rightarrow> 'w source \<Rightarrow> u16 \<Rightarrow> u8 list \<Rightarrow> market_client \<Rightarrow> 'w \<Rightarrow> (market_client \<times> 'w) option"
where
  "handle_body E G t body mc w =
     (if 1 \<le> t \<and> t \<le> 4 then map_option (\<lambda>mc1. (mc1, w)) (handleMsg E (msg_vals E (unat t) body) mc)
      else if t = MarketDepthMsg_type then handleMarketDepthMsg E G body mc w
      else if t = TradeMsg_type then handleTradeMsg E G body mc w
      else if t = VolatilityMsg_type then handleVolatilityMsg E G body mc w
      else if t = KLineMsg_type then handleKLineMsg E G body mc w
      else if t = TickerMsg_type then handleTickerMsg E G body mc w
      else Some (mc, w))"

text \<open>
  \<open>OnServerMsg\<close>, as the release build has it: the assertion on an unknown type does nothing.
\<close>

definition market_OnServerMsg ::
  "conf \<Rightarrow> 'w source \<Rightarrow> msg_ptr \<Rightarrow> tconn \<Rightarrow> 'w \<times> market_client \<Rightarrow>
     (tconn checked \<times> ('w \<times> market_client)) option"
where
  "market_OnServerMsg cf G p c e =
     (let (w, mc) = e; E = c_order cf in
      case chk_bind (rx_header E p c) (\<lambda>h.
             chk_bind (rx_body E (body_size (msg_type h)) p c) (\<lambda>body. ok (msg_type h, body))) of
        Inl f \<Rightarrow> Some (Inl f, e)
      | Inr (t, body) \<Rightarrow>
          map_option (\<lambda>(mc1, w1). (tconn_Pop cf c, (w1, mc1))) (handle_body E G t body mc w))"

text \<open>\<open>OnLoginSuccess\<close> gives the time.\<close>

definition market_client_app :: "conf \<Rightarrow> 'w source \<Rightarrow> ('w \<times> market_client) client_app" where
  "market_client_app cf G =
     \<lparr>OnLoginSuccess = (\<lambda>rsp (w, mc). let (t, w1) = now G w in (sint t, (w1, mc))),
      OnServerMsg = market_OnServerMsg cf G\<rparr>"

section \<open>Running\<close>

text \<open>\<open>ClientConf\<close>; the members only a server uses are not read by the client.\<close>

definition market_cconf :: "bool \<Rightarrow> sconf" where
  "market_cconf little =
     \<lparr>s_conf = market_conf little 2000, MaxNewConnections = 0, MaxShmConnsPerGrp = 0, MaxShmGrps = 0,
      MaxTcpConnsPerGrp = 0, MaxTcpGrps = 0, NewConnectionTimeout = 0, UserDataSize = 1, RspUserDataSize = 1\<rparr>"

definition PollNum :: "market_client \<Rightarrow> bool" where
  "PollNum mc \<longleftrightarrow> MaxNum \<le> recv_num mc"

text \<open>
  The start of a run, after the login: both numbers are mapped and set to 0, the statistics are
  cleared.  \<open>M\<close> maps an \<open>int\<close>; the result is false when a file could not be mapped.
\<close>

definition num_file :: "tconn \<Rightarrow> string \<Rightarrow> string" where
  "num_file c suffix =
     c_str (ptcp_dir c) @ ''/'' @ c_str (local_name c) @ ''_'' @ c_str (remote_name c) @ suffix"

definition start_run ::
  "'w os \<Rightarrow> (fd \<Rightarrow> nat \<Rightarrow> 'w \<Rightarrow> (errno + int) \<times> 'w) \<Rightarrow> tconn \<Rightarrow> market_client \<Rightarrow> 'w \<Rightarrow>
     bool \<times> market_client \<times> 'w"
where
  "start_run N M c mc w =
     (case my_mmap N M 4 (num_file c ''.send_num'') False w of
        (sn, w1) \<Rightarrow>
          (case my_mmap N M 4 (num_file c ''.recv_num'') False w1 of
             (rn, w2) \<Rightarrow>
               (case (sn, rn) of
                  (Inr _, Inr _) \<Rightarrow>
                    (True, mc\<lparr>send_num := 0, recv_num := 0,
                              stats_of := fold (\<lambda>t. Mapping.update t latency_stats_new) [5 .. 9] Mapping.empty,
                              msg_sent_time := Map.empty\<rparr>, w2)
                | _ \<Rightarrow> (False, mc, w2))))"

text \<open>The loop of a run over TCP; nothing bounds the number of its turns.\<close>

partial_function (option) run_tcp ::
  "'w os \<Rightarrow> sconf \<Rightarrow> 'w source \<Rightarrow> client \<Rightarrow> 'w \<times> market_client \<Rightarrow>
     (client checked \<times> ('w \<times> market_client)) option"
where
  "run_tcp N S G cl e =
     (if tconn_IsClosed (cli_conn cl) then Some (ok cl, e)
      else if PollNum (snd e) then
        (case now G (fst e) of
           (t, w1) \<Rightarrow> Some (ok (cl\<lparr>cli_conn := tconn_Close (cli_conn cl)\<rparr>), (w1, (snd e)\<lparr>stop_time := t\<rparr>)))
      else
        (case now G (fst e) of
           (t, w1) \<Rightarrow>
             (case client_PollTcp (lift_os N) S (market_client_app (s_conf S) G) (sint t) cl (w1, snd e) of
                None \<Rightarrow> None
              | Some (Inl f, e1) \<Rightarrow> Some (Inl f, e1)
              | Some (Inr cl1, e1) \<Rightarrow> run_tcp N S G cl1 e1)))"

declare run_tcp.simps [code]

text \<open>
  \<open>PrintLatencyStats\<close>: the totals, and a line for each type with a count, in the order of the
  types.  The name of the type is shown as the type.
\<close>

definition avg_rtt :: "fpu \<Rightarrow> u64 \<Rightarrow> market_client \<Rightarrow> f64" where
  "avg_rtt F total_latency mc =
     (if 0 < msg_sent mc then fp_div F (fp_of_int F (uint total_latency)) (fp_of_int F (msg_sent mc))
      else fp_lit F 0 0)"

definition type_line :: "fpu \<Rightarrow> market_client \<Rightarrow> int \<Rightarrow> log_line list" where
  "type_line F mc ty =
     (case Mapping.lookup (stats_of mc) ty of
        None \<Rightarrow> []
      | Some s \<Rightarrow>
          if ls_count s = 0 then []
          else let avg = fp_div F (fp_of_int F (uint (ls_total s))) (fp_of_int F (ls_count s)) in
            [LogTypeStats ty [ShowInt (ls_count s), ShowNat (ls_min s), ShowNat (ls_max s), ShowDouble avg,
                              ShowDouble (fp_div F avg (fp_lit F 1000000 0))]])"

definition PrintLatencyStats :: "fpu \<Rightarrow> u64 \<Rightarrow> market_client \<Rightarrow> log_line list" where
  "PrintLatencyStats F total_latency mc =
     (let avg = avg_rtt F total_latency mc
      in LogStats [ShowInt (send_num mc), ShowInt (recv_num mc), ShowNat total_latency] #
         LogStats [ShowDouble avg, ShowDouble (fp_div F avg (fp_lit F 1000000 0))] #
         concat (map (type_line F mc) (Mapping.ordered_keys (stats_of mc))))"

text \<open>
  \<open>Run\<close> without shared memory; the result is the client and the lines printed at the end.
\<close>

definition market_Run ::
  "'w os \<Rightarrow> (fd \<Rightarrow> nat \<Rightarrow> 'w \<Rightarrow> (errno + int) \<times> 'w) \<Rightarrow> sconf \<Rightarrow> fpu \<Rightarrow> 'w source \<Rightarrow> client_junk \<Rightarrow>
     string \<Rightarrow> u16 \<Rightarrow> client \<Rightarrow> 'w \<times> market_client \<Rightarrow>
     ((client \<times> log_line list) checked \<times> ('w \<times> market_client)) option"
where
  "market_Run N M S F G J ip port cl e =
     and_then (Connect (lift_os N) S (market_client_app (s_conf S) G) J False ip port [0] cl e) (\<lambda>(b, cl1) (w1, mc1).
       if \<not> b then Some (ok (cl1, []), (w1, mc1))
       else case start_run N M (cli_conn cl1) mc1 w1 of
         (False, mc2, w2) \<Rightarrow> Some (ok (cl1, []), (w2, mc2))
       | (True, mc2, w2) \<Rightarrow>
           (case now G w2 of
              (t, w3) \<Rightarrow>
                and_then (run_tcp N S G cl1 (w3, mc2\<lparr>start_time := t\<rparr>)) (\<lambda>cl2 (w4, mc4).
                  case client_Stop (lift_os N) cl2 (w4, mc4) of
                    (cl3, (w5, mc5)) \<Rightarrow>
                      Some (ok (cl3, PrintLatencyStats F (stop_time mc5 - start_time mc5) mc5), (w5, mc5)))))"

text \<open>
  With shared memory two threads share the connection: the turns of the thread that polls the ring
  and of the one that polls TCP for heartbeats.  Both end when the connection is closed.
\<close>

definition shm_turn ::
  "sconf \<Rightarrow> 'w source \<Rightarrow> client \<Rightarrow> 'w \<times> market_client \<Rightarrow> (client checked \<times> ('w \<times> market_client)) option"
where
  "shm_turn S G cl e =
     (if PollNum (snd e) then
        (case now G (fst e) of
           (t, w1) \<Rightarrow> Some (ok (cl\<lparr>cli_conn := tconn_Close (cli_conn cl)\<rparr>), (w1, (snd e)\<lparr>stop_time := t\<rparr>)))
      else client_PollShm S (market_client_app (s_conf S) G) cl e)"

definition tcp_turn ::
  "'w os \<Rightarrow> sconf \<Rightarrow> 'w source \<Rightarrow> client \<Rightarrow> 'w \<times> market_client \<Rightarrow>
     (client checked \<times> ('w \<times> market_client)) option"
where
  "tcp_turn N S G cl e =
     (case now G (fst e) of
        (t, w1) \<Rightarrow> client_PollTcp (lift_os N) S (market_client_app (s_conf S) G) (sint t) cl (w1, snd e))"

end
