(* ===== verification/EnvKept.thy ===== *)
theory EnvKept
  imports TcpShmClient
begin

text \<open>
  A part of the environment that no system call touches is kept by every operation of a
  connection and of the client, up to what the callbacks of the user do to it.  The locale
  states this for any such part; a program that lives in the environment of the library (its
  own variables, say) is an instance.
\<close>

locale env_kept =
  fixes N :: "'e os" and K :: "'e \<Rightarrow> 'k"
  assumes files: "K (snd (os_open N f e)) = K e" "K (snd (os_shm_open N f e)) = K e"
      "K (snd (os_ftruncate N fd n e)) = K e" "K (os_close N fd e) = K e"
    and maps: "K (snd (os_mmap_ptcp N fd n e)) = K e" "K (snd (os_mmap_ring N fd n e)) = K e"
      "K (snd (os_mmap_name N fd n e)) = K e" "K (os_munmap_ptcp N q e) = K e"
      "K (os_munmap_ring N r e) = K e" "K (os_munmap_name N s e) = K e"
    and sockets: "K (snd (os_send N fd bs e)) = K e" "K (snd (os_read N fd n e)) = K e"
      "K (snd (os_socket N e)) = K e" "K (snd (os_setsockopt N fd opt e)) = K e"
      "K (os_nonblock N fd e) = K e" "K (snd (os_connect N fd ip port e)) = K e"
begin

lemma call:
  "os_open N f e = (a, e1) \<Longrightarrow> K e1 = K e" "os_shm_open N f e = (a, e1) \<Longrightarrow> K e1 = K e"
  "os_ftruncate N fd n e = (b, e1) \<Longrightarrow> K e1 = K e"
  "os_mmap_ptcp N fd n e = (c, e1) \<Longrightarrow> K e1 = K e" "os_mmap_ring N fd n e = (d, e1) \<Longrightarrow> K e1 = K e"
  "os_mmap_name N fd n e = (g, e1) \<Longrightarrow> K e1 = K e"
  "os_send N fd bs e = (h, e1) \<Longrightarrow> K e1 = K e" "os_read N fd n e = (i, e1) \<Longrightarrow> K e1 = K e"
  "os_socket N e = (j, e1) \<Longrightarrow> K e1 = K e" "os_setsockopt N fd opt e = (b, e1) \<Longrightarrow> K e1 = K e"
  "os_connect N fd ip port e = (b, e1) \<Longrightarrow> K e1 = K e"
  using files maps sockets by (metis snd_conv)+

lemma my_mmap_env:
  assumes "\<And>fd n e r e1. mm fd n e = (r, e1) \<Longrightarrow> K e1 = K e" "my_mmap N mm sz f shm e = (r, e1)"
  shows "K e1 = K e"
  using assms(2) by (auto simp: my_mmap_def files dest!: call assms(1) split: prod.splits sum.splits if_splits)

lemma mmap_env:
  "my_mmap N (os_mmap_ptcp N) sz f shm e = (rp, e1) \<Longrightarrow> K e1 = K e"
  "my_mmap N (os_mmap_ring N) sz f shm e = (rr, e1) \<Longrightarrow> K e1 = K e"
  "my_mmap N (os_mmap_name N) sz f shm e = (rn, e1) \<Longrightarrow> K e1 = K e"
  using my_mmap_env [of "os_mmap_ptcp N"] my_mmap_env [of "os_mmap_ring N"] my_mmap_env [of "os_mmap_name N"] call(4-6)
  by blast+

lemma OpenFile_env: "tconn_OpenFile N cf shm c e = (r, e1) \<Longrightarrow> K e1 = K e"
  by (auto simp: tconn_OpenFile_def open_ring_def pconn_OpenFile_def Let_def
      dest!: mmap_env
      split: if_splits option.splits sum.splits prod.splits)

lemma TryCloseFd_env: "tconn_TryCloseFd N c e = (b, c1, e1) \<Longrightarrow> K e1 = K e"
  by (auto simp: tconn_TryCloseFd_def TryCloseFd_def files split: if_splits prod.splits)

lemma Release_env: "tconn_Release N c e = (c1, e1) \<Longrightarrow> K e1 = K e"
  by (auto simp: tconn_Release_def pconn_Release_def TryCloseFd_def unmap_ring_def my_munmap_def files maps Let_def
      split: if_splits option.splits prod.splits)

lemma send_loop_env:
  assumes "send_loop N fd mem p sz e = Some (r, e1)"
  shows "K e1 = K e"
proof -
  let ?P = "\<lambda>M fd mem p sz e y. M = N \<longrightarrow> K (snd y) = K e"
  have "?P N fd mem p sz e (r, e1)"
  proof (rule send_loop.raw_induct [where P = ?P, OF _ assms])
    fix send M fd mem p sz e y
    assume IH: "\<And>M fd mem p sz e y. send M fd mem p sz e = Some y \<Longrightarrow> ?P M fd mem p sz e y"
      and eq: "(case os_send M fd (seg p (p + unat sz) mem) e of
        (Inl err, e1) \<Rightarrow>
          if err \<noteq> EAGAIN \<or> sz AND 7 \<noteq> 0 then Some (Inl err, e1) else Some (Inr sz, e1)
      | (Inr sent, e1) \<Rightarrow>
          let sz1 = sz - of_nat sent in
          if 0 < sz1 then send M fd mem (p + sent) sz1 e1 else Some (Inr sz1, e1)) = Some y"
    show "?P M fd mem p sz e y"
    proof
      assume M: "M = N"
      obtain r e2 where s: "os_send N fd (seg p (p + unat sz) mem) e = (r, e2)" by fastforce
      have "K e2 = K e" by (rule call(7) [OF s])
      then show "K (snd y) = K e"
        using eq s IH M by (auto simp: Let_def split: sum.splits if_splits)
    qed
  qed
  then show ?thesis by simp
qed

lemma SendPending_env: "SendPending N cf c e = Some (r, e1) \<Longrightarrow> K e1 = K e"
  by (auto simp: SendPending_def Let_def dest!: send_loop_env
      split: if_splits option.splits sum.splits prod.splits)

lemma SendHB_env: "SendHB N cf now c e = Some (r, e1) \<Longrightarrow> K e1 = K e"
  by (auto simp: SendHB_def Let_def dest!: call SendPending_env
      split: if_splits option.splits sum.splits prod.splits bool.splits)

lemma DoRecv_env: "DoRecv N cf c e = (r, e1) \<Longrightarrow> K e1 = K e"
  by (auto simp: DoRecv_def Let_def dest!: call split: if_splits sum.splits prod.splits)

lemma Front_env: "pconn_Front N cf c e = Some (r, e1) \<Longrightarrow> K e1 = K e"
  by (auto simp: pconn_Front_def dest!: DoRecv_env split: if_splits option.splits sum.splits prod.splits bool.splits)

lemma TcpFront_env: "TcpFront N cf now c e = Some (r, e1) \<Longrightarrow> K e1 = K e"
  by (auto simp: TcpFront_def dest!: SendHB_env Front_env split: option.splits sum.splits)

lemma Open_env: "tconn_Open N cf fd ack now c e = Some (r, e1) \<Longrightarrow> K e1 = K e"
  by (auto simp: tconn_Open_def pconn_Open_def Let_def dest!: SendPending_env split: option.splits sum.splits)

section \<open>The client\<close>

lemma map_server_name_env: "map_server_name N S cl e = (r, e1) \<Longrightarrow> K e1 = K e"
  by (auto simp: map_server_name_def Let_def dest!: mmap_env split: option.splits sum.splits prod.splits)

lemma login_seqs_env: "login_seqs N S shm srv c e = Some (r, e1) \<Longrightarrow> K e1 = K e"
  by (auto simp: login_seqs_def dest!: OpenFile_env split: if_splits prod.splits option.splits)

lemma client_socket_env: "client_socket N S ip port e = (r, e1) \<Longrightarrow> K e1 = K e"
  by (auto simp: client_socket_def files dest!: call split: sum.splits prod.splits if_splits)

lemma exchange_login_env: "exchange_login N S J fd ack login e = (r, e1) \<Longrightarrow> K e1 = K e"
  by (auto simp: exchange_login_def dest!: call split: sum.splits prod.splits if_splits option.splits)

lemma adopt_server_env: "adopt_server N S shm srv rsp cl e = (r, e1) \<Longrightarrow> K e1 = K e"
  by (auto simp: adopt_server_def Let_def dest!: OpenFile_env Release_env split: if_splits prod.splits option.splits)

lemma finish_login_env:
  assumes "\<And>rsp e t e1. OnLoginSuccess app rsp e = (t, e1) \<Longrightarrow> K e1 = K e"
  shows "finish_login N S app shm srv fd seqs h rsp cl e = Some (r, e1) \<Longrightarrow> K e1 = K e"
  by (auto simp: finish_login_def connect_fail_def files sockets dest!: adopt_server_env Open_env assms
      split: if_splits prod.splits option.splits sum.splits)

lemma Connect_env:
  assumes "\<And>rsp e t e1. OnLoginSuccess app rsp e = (t, e1) \<Longrightarrow> K e1 = K e"
  shows "Connect N S app J shm ip port ud cl e = Some (r, e1) \<Longrightarrow> K e1 = K e"
proof -
  have fin: "K e2 = K e" if "finish_login N S app shm srv fd seqs h rsp cl e = Some (r, e2)"
    for srv fd seqs h rsp cl e r e2
    using finish_login_env [OF assms that] .
  show "Connect N S app J shm ip port ud cl e = Some (r, e1) \<Longrightarrow> K e1 = K e"
    by (auto simp: Connect_def connect_fail_def Let_def files
        dest!: TryCloseFd_env map_server_name_env login_seqs_env client_socket_env exchange_login_env fin
        split: if_splits prod.splits option.splits sum.splits)
qed

lemma client_close_fd_env: "client_close_fd N cl e = (cl1, e1) \<Longrightarrow> K e1 = K e"
  by (auto simp: client_close_fd_def dest!: TryCloseFd_env split: prod.splits if_splits)

lemma client_Stop_env: "client_Stop N cl e = (cl1, e1) \<Longrightarrow> K e1 = K e"
  by (auto simp: client_Stop_def Let_def my_munmap_def maps dest!: Release_env split: prod.splits option.splits)

text \<open>Polling changes the kept part only as the user's reaction to a message does.\<close>

lemma client_PollTcp_env:
  assumes msg: "\<And>p c e r e1. OnServerMsg app p c e = Some (r, e1) \<Longrightarrow> P (K e) \<Longrightarrow> P (K e1)"
    and run: "client_PollTcp N S app now cl e = Some (r, e1)" and P: "P (K e)"
  shows "P (K e1)"
proof -
  have msg1: "P (K e2)" if "OnServerMsg app p c e1 = Some (r, e2)" "K e1 = K e" for p c e1 r e2
    using msg [OF that(1)] that(2) P by simp
  have serve: "P (K e2)" if "client_serve app (TcpFront N cf now c e) = Some (r, e2)" for cf c r e2
    using that P by (auto simp: client_serve_def dest!: TcpFront_env split: option.splits sum.splits)
      (rule msg1)
  obtain r2 e2 where r2: "(if tconn_IsClosed (cli_conn cl) then Some (ok (cli_conn cl), e)
      else client_serve app (TcpFront N (s_conf S) now (cli_conn cl) e)) = Some (r2, e2)"
    and e1: "(case r2 of Inl f \<Rightarrow> (Inl f, e2)
       | Inr c \<Rightarrow> (case client_close_fd N (cl\<lparr>cli_conn := c\<rparr>) e2 of (cl1, e3) \<Rightarrow> (ok cl1, e3))) = (r, e1)"
    using run unfolding client_PollTcp_def by auto
  have "P (K e2)" using r2 P serve by (auto split: if_splits)
  moreover have "K e1 = K e2" using e1 by (auto dest: client_close_fd_env split: sum.splits prod.splits)
  ultimately show ?thesis by simp
qed

end

end
