(* ===== verification/Delivery.thy ===== *)
theory Delivery
  imports ConnKept "HOL-Library.Sublist"
begin

text \<open>
  From one program to the other: the bytes a connection puts into its socket are the frames of
  the messages posted, in order, and what the peer pops are these messages, over any number
  of connections that break at any time.
\<close>

section \<open>Messages as bytes\<close>

definition frame_of :: "byte_order \<Rightarrow> pmsg \<Rightarrow> frame" where
  "frame_of E m = (fst m, blocks_bytes E (snd m))"

definition app_msg :: "pmsg \<Rightarrow> bool" where
  "app_msg m \<longleftrightarrow> msg_type (fst m) \<noteq> HeartbeatMsg_type"

definition msgs_bytes :: "byte_order \<Rightarrow> pmsg list \<Rightarrow> u8 list" where
  "msgs_bytes E ms = blocks_bytes E (enc_msgs E ms)"

lemma is_hb_frame_of [simp]: "is_hb (frame_of E m) \<longleftrightarrow> \<not> app_msg m"
  by (simp add: is_hb_def frame_of_def app_msg_def)

lemma frame_len_nblk: "frame_len h = 8 * nblk h"
  by (simp add: frame_len_def unat_round8 nblk_def)

lemma blocks_bytes_Cons: "blocks_bytes E (b # bs) = header_bytes E b @ blocks_bytes E bs"
  by (simp add: blocks_bytes_def)

lemma wire_frames_msg:
  assumes o: "ToLittle A = ToLittle B" and wf: "wf_msg m"
  shows "wire_frames B (blocks_bytes A (enc_msg A m) @ bs) =
    (frame_of A m # fst (wire_frames B bs), snd (wire_frames B bs))"
proof -
  obtain h body where m: "m = (h, body)" by (cases m)
  let ?x = "blocks_bytes A (enc_msg A m) @ bs"
  have x: "?x = header_bytes A (ConvertByteOrder A h) @ blocks_bytes A body @ bs"
    by (simp add: m blocks_bytes_Cons)
  have h: "wire_header B ?x = h" unfolding x wire_header_def by (rule load_header_wire [OF o])
  have len: "frame_len h = 8 + length (blocks_bytes A body)"
    using wf by (simp add: m frame_len_nblk)
  then have d: "drop (frame_len h) ?x = bs" and g: "seg 8 (frame_len h) ?x = blocks_bytes A body"
    unfolding x by (simp_all add: seg_def)
  have "8 \<le> length ?x" "frame_len h \<le> length ?x" unfolding x len by simp_all
  moreover have "frame_len h \<noteq> 0" unfolding len by simp
  ultimately have "wire_frames B ?x = ((h, seg 8 (frame_len h) ?x) # fst (wire_frames B (drop (frame_len h) ?x)),
      snd (wire_frames B (drop (frame_len h) ?x)))"
    using wire_frames_step [OF _ h [symmetric]] by blast
  then show ?thesis unfolding d g by (simp only: frame_of_def m fst_conv snd_conv)
qed

lemma wire_frames_msgs:
  assumes "ToLittle A = ToLittle B" "list_all wf_msg ms"
  shows "wire_frames B (msgs_bytes A ms @ bs) =
    (map (frame_of A) ms @ fst (wire_frames B bs), snd (wire_frames B bs))"
  using assms(2)
proof (induction ms)
  case (Cons m ms)
  then show ?case
    using wire_frames_msg [OF assms(1), of m "msgs_bytes A ms @ bs"]
    by (simp add: msgs_bytes_def blocks_bytes_append)
qed (simp add: msgs_bytes_def)

lemma wire_frames_part:
  assumes o: "ToLittle A = ToLittle B" and wf: "wf_msg m" and p: "enc_msg A m = p @ u" "length p < nblk (fst m)"
  shows "wire_frames B (blocks_bytes A p) = ([], blocks_bytes A p)"
proof (cases p)
  case Nil
  then show ?thesis by (simp add: wire_frames_short)
next
  case (Cons b p')
  obtain h body where m: "m = (h, body)" by (cases m)
  then have "b = ConvertByteOrder A h" using p(1) Cons by simp
  then have "wire_header B (blocks_bytes A p) = h"
    unfolding Cons blocks_bytes_Cons wire_header_def by (simp only: load_header_wire [OF o])
  then show ?thesis
    using p(2) m Cons by (intro wire_frames_stop [OF _ refl]) (simp_all add: frame_len_nblk)
qed

section \<open>A stream cut between blocks\<close>

text \<open>
  Of the messages \<open>gone @ todo\<close> the blocks \<open>sent\<close> have been written and the blocks \<open>left\<close> not: all of
  \<open>gone\<close> and less than the first of \<open>todo\<close>.
\<close>

definition cut_at :: "byte_order \<Rightarrow> pmsg list \<Rightarrow> pmsg list \<Rightarrow> msg_header list \<Rightarrow> msg_header list \<Rightarrow> bool" where
  "cut_at E gone todo sent left \<longleftrightarrow>
     (\<exists>part. sent = enc_msgs E gone @ part \<and> enc_msgs E todo = part @ left \<and>
       (case todo of [] \<Rightarrow> part = [] | m # _ \<Rightarrow> length part < nblk (fst m)))"

lemma cut_at_start: "list_all wf_msg todo \<Longrightarrow> cut_at E [] todo [] (enc_msgs E todo)"
  by (cases todo) (auto simp: cut_at_def nblk_le gr0_conv_Suc)

lemma split_enc:
  assumes "list_all wf_msg ms" "enc_msgs E ms = p @ u"
  shows "\<exists>d t part. ms = d @ t \<and> p = enc_msgs E d @ part \<and> enc_msgs E t = part @ u \<and>
    (case t of [] \<Rightarrow> part = [] | m # _ \<Rightarrow> length part < nblk (fst m))"
  using assms
proof (induction ms arbitrary: p)
  case (Cons m ms)
  then have wf: "wf_msg m" "list_all wf_msg ms" and eq: "enc_msg E m @ enc_msgs E ms = p @ u" by simp_all
  show ?case
  proof (cases "length p < nblk (fst m)")
    case True
    then show ?thesis using Cons.prems by (intro exI [of _ "[]"] exI [of _ "m # ms"] exI [of _ p]) simp
  next
    case False
    then have "enc_msg E m = take (nblk (fst m)) p"
      using eq wf(1) by (metis append_eq_append_conv_if length_enc_msg linorder_not_less)
    then obtain p' where p: "p = enc_msg E m @ p'" by (metis append_take_drop_id)
    then have "enc_msgs E ms = p' @ u" using eq by simp
    then obtain d t part where "ms = d @ t" "p' = enc_msgs E d @ part" "enc_msgs E t = part @ u"
        "case t of [] \<Rightarrow> part = [] | m # _ \<Rightarrow> length part < nblk (fst m)"
      using Cons.IH [OF wf(2)] by blast
    then show ?thesis using p by (intro exI [of _ "m # d"] exI [of _ t]) simp
  qed
qed simp

lemma cut_advance:
  assumes "cut_at E gone todo sent (u @ left)" "list_all wf_msg todo"
  obtains d t where "todo = d @ t" "cut_at E (gone @ d) t (sent @ u) left"
proof -
  obtain part where p: "sent = enc_msgs E gone @ part" "enc_msgs E todo = (part @ u) @ left"
    using assms(1) by (auto simp: cut_at_def)
  obtain d t part' where "todo = d @ t" "part @ u = enc_msgs E d @ part'" "enc_msgs E t = part' @ left"
      "case t of [] \<Rightarrow> part' = [] | m # _ \<Rightarrow> length part' < nblk (fst m)"
    using split_enc [OF assms(2) p(2)] by blast
  then show thesis using that [of d t] p(1) by (simp add: cut_at_def)
qed

lemma cut_append:
  assumes "cut_at E gone todo sent left" "wf_msg m"
  shows "cut_at E gone (todo @ [m]) sent (left @ enc_msg E m)"
proof -
  have "0 < nblk (fst m)" using assms(2) by (cases m) simp
  then show ?thesis using assms(1) by (cases todo) (auto simp: cut_at_def)
qed

lemma cut_all:
  assumes "cut_at E gone todo sent []" "list_all wf_msg todo"
  shows "todo = [] \<and> sent = enc_msgs E gone"
  using assms by (cases todo) (auto simp: cut_at_def)

lemma cut_enc: "cut_at E gone todo sent left \<Longrightarrow> enc_msgs E (gone @ todo) = sent @ left"
  by (auto simp: cut_at_def)

lemma cut_left: "cut_at E gone todo sent left \<Longrightarrow> list_all wf_msg todo \<Longrightarrow> length left \<le> nblks todo"
  unfolding cut_at_def by (elim exE conjE) (metis le_add2 length_append length_enc_msgs)

lemma cut_frames:
  assumes "cut_at A gone todo sent left" "list_all wf_msg (gone @ todo)" "ToLittle A = ToLittle B"
  shows "fst (wire_frames B (blocks_bytes A sent)) = map (frame_of A) gone"
proof -
  obtain part where p: "sent = enc_msgs A gone @ part" "enc_msgs A todo = part @ left"
      "case todo of [] \<Rightarrow> part = [] | m # _ \<Rightarrow> length part < nblk (fst m)"
    using assms(1) by (auto simp: cut_at_def)
  have "wire_frames B (blocks_bytes A part) = ([], blocks_bytes A part)"
  proof (cases todo)
    case Nil
    then show ?thesis using p by (simp add: wire_frames_short)
  next
    case (Cons m ms)
    have wf: "wf_msg m" using assms(2) Cons by simp
    have len: "length part < nblk (fst m)" using p(3) Cons by simp
    have "enc_msg A m @ enc_msgs A ms = part @ left" using p(2) Cons by simp
    then have "enc_msg A m = part @ drop (length part) (enc_msg A m)"
      using len wf by (metis append_eq_append_conv_if append_take_drop_id length_enc_msg less_imp_le_nat not_le)
    then show ?thesis by (rule wire_frames_part [OF assms(3) wf _ len])
  qed
  then show ?thesis
    using wire_frames_msgs [OF assms(3), of gone "blocks_bytes A part"] assms(2)
    by (simp add: p(1) blocks_bytes_append msgs_bytes_def)
qed

text \<open>Whatever has been written of a stream of messages parses to the first of them.\<close>

lemma app_frames_prefix:
  assumes "msgs_bytes A all = bs @ r" "list_all wf_msg all" "ToLittle A = ToLittle B"
  shows "prefix (app_frames B bs) (map (frame_of A) (filter app_msg all))"
proof -
  have "fst (wire_frames B (bs @ r)) = map (frame_of A) all"
    using wire_frames_msgs [OF assms(3,2), of "[]"] assms(1) by (simp add: wire_frames_short)
  then have "prefix (fst (wire_frames B bs)) (map (frame_of A) all)"
    by (subst (asm) wire_frames_append) (simp add: prefix_def, metis)
  then have "prefix (filter (\<lambda>f. \<not> is_hb f) (fst (wire_frames B bs))) (filter (\<lambda>f. \<not> is_hb f) (map (frame_of A) all))"
    by (auto simp: prefix_def)
  then show ?thesis by (simp add: app_frames_def filter_map o_def)
qed

definition fits :: "conf \<Rightarrow> pmsg \<Rightarrow> bool" where
  "fits cf m \<longleftrightarrow> 8 * nblk (fst m) \<le> unat (TcpRecvBufMaxSize cf)"

definition plain_hb :: "pmsg \<Rightarrow> bool" where
  "plain_hb m \<longleftrightarrow> (\<not> app_msg m \<longrightarrow> snd m = [])"

lemma msgs_good_stream:
  assumes "msgs_bytes A all = bs @ r" "list_all wf_msg all" "list_all plain_hb all" "list_all (fits cf) all"
    and "ToLittle A = ToLittle (c_order cf)"
  shows "good_stream cf bs"
proof (rule good_stream_prefix)
  have W: "wire_frames (c_order cf) (bs @ r) = (map (frame_of A) all, [])"
    using wire_frames_msgs [OF assms(5,2), of "[]"] assms(1) by (simp add: wire_frames_short)
  have "list_all (wf_frame cf) (map (frame_of A) all)" "list_all hb_plain (map (frame_of A) all)"
    using assms(2-4) by (auto simp: list_all_iff wf_frame_def frame_of_def fits_def frame_len_nblk hb_plain_def
        plain_hb_def is_hb_def app_msg_def)
  then show "good_stream cf (bs @ r)" by (simp add: good_stream_def W incomplete_def)
qed

section \<open>The sending side\<close>

text \<open>
  The runs of a connection as a sender.  It is opened with the number the peer gave at the login, the
  application posts messages (\<open>Alloc\<close>, the writes, \<open>PushMore\<close>), pending blocks are sent,
  heartbeats are sent, acknowledgements arrive while it is open, and anything may happen to
  the rest of the connection.  An acknowledgement is a number the peer has had since the login, or before: it counts at most
  the messages whose bytes have all been written, and is within \<open>2 ^ 31\<close> of the last one.  \<open>items\<close> are the messages
  pending at the login and those posted since, \<open>acks\<close> counts those acknowledged.
\<close>

definition hb_shape :: "conf \<Rightarrow> pconn \<Rightarrow> bool" where
  "hb_shape cf c \<longleftrightarrow> (\<exists>a. hbmsg c = ConvertByteOrder (c_order cf)
     \<lparr>hdr_size = 8, msg_type = HeartbeatMsg_type, ack_seq = a\<rparr>)"

inductive tx_run ::
  "'e os \<Rightarrow> conf \<Rightarrow> fd \<Rightarrow> ('e \<Rightarrow> u8 list) \<Rightarrow> ptcpq \<Rightarrow> nat \<Rightarrow> pmsg list \<Rightarrow> nat \<Rightarrow> pconn \<Rightarrow> 'e \<Rightarrow> bool"
  for N cf s log q0 k
where
  tx_open: "q_ptr c0 = Some q0 \<Longrightarrow> hb_shape cf c0 \<Longrightarrow>
    pconn_Open N cf s (read_seq_num q0 + of_nat k) now c0 e0 = Some (ok c, e) \<Longrightarrow> log e0 = [] \<Longrightarrow>
    tx_run N cf s log q0 k (drop k (pending (c_order cf) q0)) 0 c e"
| tx_post: "tx_run N cf s log q0 k items acks c e \<Longrightarrow> q_ptr c = Some q \<Longrightarrow>
    unat us \<le> 65527 \<Longrightarrow> t \<noteq> HeartbeatMsg_type \<Longrightarrow> msg_blocks us = Suc (length body) \<Longrightarrow>
    ptcpq_post (TcpQueueSize cf) (c_order cf) us t body q = ok (True, q1) \<Longrightarrow>
    tx_run N cf s log q0 k (items @ [(\<lparr>hdr_size = us + 8, msg_type = t, ack_seq = ack_seq_num q\<rparr>, body)])
      acks (c\<lparr>q_ptr := Some q1\<rparr>) e"
| tx_send: "tx_run N cf s log q0 k items acks c e \<Longrightarrow> SendPending N cf c e = Some (ok (b, c1), e1) \<Longrightarrow>
    tx_run N cf s log q0 k items acks c1 e1"
| tx_hb: "tx_run N cf s log q0 k items acks c e \<Longrightarrow> SendHB N cf now c e = Some (ok c1, e1) \<Longrightarrow>
    tx_run N cf s log q0 k items acks c1 e1"
| tx_ack: "tx_run N cf s log q0 k items acks c e \<Longrightarrow> \<not> IsClosed c \<Longrightarrow>
    j \<le> int (length (app_frames (c_order cf) (log e))) \<Longrightarrow> \<bar>j - int acks\<bar> < 2147483648 \<Longrightarrow>
    ack_queue (c_order cf) (read_seq_num q0 + of_nat k + word_of_int j) c = ok c1 \<Longrightarrow>
    tx_run N cf s log q0 k items (max acks (nat j)) c1 e"
| tx_other: "tx_run N cf s log q0 k items acks c e \<Longrightarrow> q_ptr c = Some q \<Longrightarrow>
    q_ptr c1 = Some (q\<lparr>ack_seq_num := n\<rparr>) \<Longrightarrow> hbmsg c1 = hbmsg c \<Longrightarrow>
    sockfd c1 = sockfd c \<or> sockfd c1 < 0 \<Longrightarrow> log e1 = log e \<Longrightarrow>
    tx_run N cf s log q0 k items acks c1 e1"

text \<open>The blocks of the queue that have not been sent.\<close>

definition unsent :: "ptcpq \<Rightarrow> msg_header list" where
  "unsent q = seg (unat (send_idx q)) (unat (write_idx q)) (blk q)"

lemma unsent_live:
  assumes "ptcpq_inv Bytes E q"
  shows "unsent q = drop (unat (send_idx q) - unat (read_idx q)) (live q)"
  using ptcpq_invD(2) [OF assms] by (simp add: unsent_def live_def drop_seg)

lemma length_unsent:
  assumes "ptcpq_inv Bytes E q"
  shows "length (unsent q) = unat (write_idx q) - unat (send_idx q)"
  using ptcpq_invD(4) [OF assms] by (simp add: unsent_def)

lemma unsent_nil:
  assumes "ptcpq_inv Bytes E q"
  shows "unsent q = [] \<longleftrightarrow> send_idx q = write_idx q"
  using length_unsent [OF assms] ptcpq_invD(3) [OF assms]
  by (metis diff_is_0_eq length_0_conv le_antisym order_refl word_unat_eq_iff)

lemma post_unsent:
  assumes inv: "ptcpq_inv Bytes E q" and us: "unat us \<le> 65527" and body: "msg_blocks us = Suc (length body)"
    and post: "ptcpq_post Bytes E us t body q = ok (True, q1)"
  defines "m \<equiv> (\<lparr>hdr_size = us + 8, msg_type = t, ack_seq = ack_seq_num q\<rparr>, body)"
  shows "ptcpq_inv Bytes E q1" and "pending E q1 = pending E q @ [m]" and "unsent q1 = unsent q @ enc_msg E m"
    and "read_seq_num q1 = read_seq_num q"
proof -
  have room: "msg_blocks us \<le> ptcpq_free q"
    using post_null [OF inv, of us t body] post by (cases "ptcpq_free q < msg_blocks us") auto
  obtain q2 where q2: "ptcpq_post Bytes E us t body q = ok (True, q2)" "ptcpq_inv Bytes E q2"
      "pending E q2 = pending E q @ [m]" "same_session q q2"
    unfolding m_def by (rule post_ok [OF inv us room body])
  then have [simp]: "q1 = q2" using post by simp
  show "ptcpq_inv Bytes E q1" "pending E q1 = pending E q @ [m]" "read_seq_num q1 = read_seq_num q"
    using q2 by (simp_all add: same_session_def)
  have "live q2 = live q @ enc_msg E m"
    using ptcpq_invD(5) [OF q2(2)] ptcpq_invD(5) [OF inv] q2(3) by simp
  moreover have "unat (send_idx q) - unat (read_idx q) \<le> length (live q)"
    using ptcpq_invD(3,4) [OF inv] by (simp add: live_def)
  moreover have "unat (send_idx q2) - unat (read_idx q2) = unat (send_idx q) - unat (read_idx q)"
    using q2(4) by (simp add: same_session_def)
  ultimately show "unsent q1 = unsent q @ enc_msg E m"
    by (simp add: unsent_live [OF q2(2)] unsent_live [OF inv] del: diff_diff_left)
qed

lemma ack_loop_frame:
  "ptcpq_ack_loop E a q = ok q1 \<Longrightarrow> send_idx q1 = send_idx q \<and> write_idx q1 = write_idx q \<and> blk q1 = blk q"
proof (induction E a q rule: ptcpq_ack_loop.induct)
  case (1 E a q)
  then show ?case
    by (subst (asm) (2) ptcpq_ack_loop.simps) (auto simp: Let_def split: if_splits)
qed

text \<open>An acknowledgement of messages that have been sent leaves what is unsent alone.\<close>

lemma Ack_unsent:
  assumes inv: "ptcpq_inv Bytes E q" and k: "seq_dist (read_seq_num q) ack = k"
    and len: "k \<le> length (pending E q)" and half: "k < 2147483648"
    and sent: "length (unsent q) \<le> nblks (drop k (pending E q))"
  obtains q1 where "ptcpq_Ack E ack q = ok q1" "ptcpq_inv Bytes E q1"
    "pending E q1 = drop k (pending E q)" "read_seq_num q1 = ack" "unsent q1 = unsent q"
proof -
  have n: "nblks (take k (pending E q)) + nblks (drop k (pending E q)) = nblks (pending E q)"
    by (metis append_take_drop_id nblks_simps(3))
  note D = ptcpq_invD [OF inv] pending_nblks [OF inv] length_unsent [OF inv]
  have "unat (read_idx q) + nblks (take k (pending E q)) \<le> unat (send_idx q)"
    using n D sent by linarith
  then obtain q1 where q1: "ptcpq_Ack E ack q = ok q1" "ptcpq_inv Bytes E q1"
    "pending E q1 = drop k (pending E q)" "read_seq_num q1 = ack" "same_blocks q q1"
    by (rule Ack_inv [OF inv k len half])
  have "unsent q1 = unsent q"
  proof (cases "sint (ack - read_seq_num q) \<le> 0")
    case True
    then show ?thesis using q1(1) by (simp add: ptcpq_Ack_def)
  next
    case False
    then obtain q2 where q2: "ptcpq_ack_loop E ack q = ok q2" and
      e: "q1 = (if read_idx q2 = write_idx q2 then q2\<lparr>read_idx := 0, write_idx := 0, send_idx := 0\<rparr> else q2)"
      using q1(1) by (auto simp: ptcpq_Ack_def split: sum.splits if_splits)
    note F = ack_loop_frame [OF q2]
    show ?thesis
    proof (cases "read_idx q2 = write_idx q2")
      case True
      then have "write_idx q1 = 0" "read_idx q1 = 0" "unsent q1 = []" using e by (simp_all add: unsent_def)
      then have "nblks (drop k (pending E q)) = 0" using pending_nblks [OF q1(2)] q1(3) by simp
      then show ?thesis using sent \<open>unsent q1 = []\<close> by simp
    next
      case False
      then show ?thesis using e F by (simp add: unsent_def)
    qed
  qed
  then show thesis using that q1 by blast
qed

subsection \<open>What has been written\<close>

text \<open>
  The stream consists of the messages and the heartbeats in between.  While the connection is open
  it has been written up to the blocks that are unsent; once it is closed, up to anywhere.
\<close>

definition written :: "conf \<Rightarrow> fd \<Rightarrow> pmsg list \<Rightarrow> ptcpq \<Rightarrow> pconn \<Rightarrow> u8 list \<Rightarrow> bool" where
  "written cf s items q c l \<longleftrightarrow> (\<exists>all.
     list_all wf_msg all \<and> list_all plain_hb all \<and> filter app_msg all = items \<and>
     (if IsClosed c then \<exists>r. msgs_bytes (c_order cf) all = l @ r
      else sockfd c = s \<and> (\<exists>gone todo sent. all = gone @ todo \<and> list_all app_msg todo \<and>
        cut_at (c_order cf) gone todo sent (unsent q) \<and> l = blocks_bytes (c_order cf) sent)))"

lemma take_continues [simp]: "\<exists>r. xs = take n xs @ r"
  by (metis append_take_drop_id)

lemma cut_bytes:
  assumes "cut_at E gone todo sent left"
  shows "msgs_bytes E (gone @ todo) = blocks_bytes E sent @ blocks_bytes E left"
  unfolding msgs_bytes_def cut_enc [OF assms] by (rule blocks_bytes_append)

lemma msgs_bytes_append: "msgs_bytes E (xs @ ys) = msgs_bytes E xs @ msgs_bytes E ys"
  by (simp add: msgs_bytes_def blocks_bytes_append)

lemma written_prefix:
  assumes "written cf s items q c l"
  shows "\<exists>all r. list_all wf_msg all \<and> list_all plain_hb all \<and> filter app_msg all = items \<and>
    msgs_bytes (c_order cf) all = l @ r \<and> (IsClosed c \<or> r = blocks_bytes (c_order cf) (unsent q))"
  using assms cut_bytes by (auto simp: written_def split: if_splits)

lemma written_openE:
  assumes "written cf s items q c l" "\<not> IsClosed c"
  obtains gone todo sent where "list_all wf_msg (gone @ todo)" "list_all plain_hb (gone @ todo)"
    "filter app_msg (gone @ todo) = items" "list_all app_msg todo" "sockfd c = s"
    "cut_at (c_order cf) gone todo sent (unsent q)" "l = blocks_bytes (c_order cf) sent"
  using assms by (auto simp: written_def)

lemma written_openI:
  assumes "list_all wf_msg (gone @ todo)" "list_all plain_hb (gone @ todo)" "filter app_msg (gone @ todo) = items"
    "list_all app_msg todo" "sockfd c = s" "cut_at (c_order cf) gone todo sent (unsent q)"
    "l = blocks_bytes (c_order cf) sent" "\<not> IsClosed c"
  shows "written cf s items q c l"
  using assms unfolding written_def by (intro exI [of _ "gone @ todo"]) auto

lemma written_closed:
  assumes "written cf s items q c l" "IsClosed c1"
  shows "written cf s items q1 c1 l"
proof -
  obtain all r where "list_all wf_msg all" "list_all plain_hb all" "filter app_msg all = items"
      "msgs_bytes (c_order cf) all = l @ r"
    using written_prefix [OF assms(1)] by blast
  then show ?thesis using assms(2) unfolding written_def by (intro exI [of _ all]) auto
qed

lemma written_same:
  assumes "written cf s items q c l" "unsent q1 = unsent q" "sockfd c1 = sockfd c \<or> sockfd c1 < 0"
  shows "written cf s items q1 c1 l"
proof (cases "IsClosed c1")
  case True
  then show ?thesis using assms(1) by (rule written_closed [rotated])
next
  case False
  then have "sockfd c1 = sockfd c" "\<not> IsClosed c" using assms(3) by (auto simp: IsClosed_def)
  then show ?thesis using assms(1,2) False by (simp add: written_def)
qed

lemma written_post:
  assumes w: "written cf s items q c l" and u: "unsent q1 = unsent q @ enc_msg (c_order cf) m"
    and m: "wf_msg m" "app_msg m" and c1: "sockfd c1 = sockfd c"
  shows "written cf s (items @ [m]) q1 c1 l"
proof (cases "IsClosed c")
  case True
  obtain all r where all: "list_all wf_msg all" "list_all plain_hb all" "filter app_msg all = items"
      "msgs_bytes (c_order cf) all = l @ r"
    using written_prefix [OF w] by blast
  have "plain_hb m" using m by (simp add: plain_hb_def)
  then show ?thesis
    using all m True c1 unfolding written_def
    by (intro exI [of _ "all @ [m]"]) (simp add: msgs_bytes_append IsClosed_def)
next
  case False
  from w this obtain gone todo sent where o: "list_all wf_msg (gone @ todo)" "list_all plain_hb (gone @ todo)"
      "filter app_msg (gone @ todo) = items" "list_all app_msg todo" "sockfd c = s"
      "cut_at (c_order cf) gone todo sent (unsent q)" "l = blocks_bytes (c_order cf) sent"
    by (rule written_openE)
  show ?thesis
  proof (rule written_openI [where gone = gone and todo = "todo @ [m]" and sent = sent])
    show "cut_at (c_order cf) gone (todo @ [m]) sent (unsent q1)" unfolding u by (rule cut_append [OF o(6) m(1)])
    show "\<not> IsClosed c1" using False c1 by (simp add: IsClosed_def)
  qed (use o m c1 in \<open>simp_all add: plain_hb_def\<close>)
qed

lemma written_send:
  assumes w: "written cf s items q c l" and opn: "\<not> IsClosed c" and u: "unsent q = u @ unsent q1"
    and c1: "sockfd c1 = sockfd c"
  shows "written cf s items q1 c1 (l @ blocks_bytes (c_order cf) u)"
proof -
  from w opn obtain gone todo sent where o: "list_all wf_msg (gone @ todo)" "list_all plain_hb (gone @ todo)"
      "filter app_msg (gone @ todo) = items" "list_all app_msg todo" "sockfd c = s"
      "cut_at (c_order cf) gone todo sent (unsent q)" "l = blocks_bytes (c_order cf) sent"
    by (rule written_openE)
  obtain d t where dt: "todo = d @ t" "cut_at (c_order cf) (gone @ d) t (sent @ u) (unsent q1)"
    by (rule cut_advance [OF o(6) [unfolded u]]) (use o(1) in simp)
  show ?thesis
  proof (rule written_openI [OF _ _ _ _ _ dt(2)])
    show "\<not> IsClosed c1" using opn c1 by (simp add: IsClosed_def)
  qed (use o dt(1) c1 in \<open>simp_all add: blocks_bytes_append\<close>)
qed

lemma written_fail:
  assumes w: "written cf s items q c l" and opn: "\<not> IsClosed c" and c1: "IsClosed c1"
  shows "written cf s items q1 c1 (l @ take n (blocks_bytes (c_order cf) (unsent q)))"
proof -
  obtain all r where all: "list_all wf_msg all" "list_all plain_hb all" "filter app_msg all = items"
      "msgs_bytes (c_order cf) all = l @ blocks_bytes (c_order cf) (unsent q)"
    using written_prefix [OF w] opn by blast
  then have "msgs_bytes (c_order cf) all = (l @ take n (blocks_bytes (c_order cf) (unsent q))) @
      drop n (blocks_bytes (c_order cf) (unsent q))" by simp
  with all c1 show ?thesis unfolding written_def by (intro exI [of _ all]) auto
qed

text \<open>A heartbeat, sent when nothing is pending.\<close>

definition hb :: "u32 \<Rightarrow> pmsg" where
  "hb a = (\<lparr>hdr_size = 8, msg_type = HeartbeatMsg_type, ack_seq = a\<rparr>, [])"

lemma hb_facts [simp]: "wf_msg (hb a)" "plain_hb (hb a)" "\<not> app_msg (hb a)"
  by (simp_all add: hb_def plain_hb_def app_msg_def nblk_def)

lemma written_hb:
  assumes w: "written cf s items q c l" and opn: "\<not> IsClosed c" and u: "unsent q = []"
    and c1: "n = 8 \<and> sockfd c1 = sockfd c \<or> IsClosed c1"
  shows "written cf s items q c1 (l @ take n (msgs_bytes (c_order cf) [hb a]))"
proof -
  let ?E = "c_order cf"
  from w opn obtain gone todo sent where o: "list_all wf_msg (gone @ todo)" "list_all plain_hb (gone @ todo)"
      "filter app_msg (gone @ todo) = items" "list_all app_msg todo" "sockfd c = s"
      "cut_at ?E gone todo sent (unsent q)" "l = blocks_bytes ?E sent"
    by (rule written_openE)
  then have todo: "todo = []" "sent = enc_msgs ?E gone" using cut_all [of ?E gone todo sent] u by auto
  have len: "length (msgs_bytes ?E [hb a]) = 8" by (simp add: msgs_bytes_def hb_def)
  have l: "l = msgs_bytes ?E gone" using o(7) todo by (simp add: msgs_bytes_def)
  show ?thesis
  proof (cases "IsClosed c1")
    case True
    have "msgs_bytes ?E (gone @ [hb a]) = (l @ take n (msgs_bytes ?E [hb a])) @ drop n (msgs_bytes ?E [hb a])"
      by (simp add: msgs_bytes_append l)
    then show ?thesis
      using True o(1-3) todo unfolding written_def by (intro exI [of _ "gone @ [hb a]"]) auto
  next
    case False
    then have "n = 8" "sockfd c1 = sockfd c" using c1 by auto
    then show ?thesis
      using o todo False len u
      by (intro written_openI [where gone = "gone @ [hb a]" and todo = "[]" and sent = "enc_msgs ?E (gone @ [hb a])"])
         (simp_all add: cut_at_def l msgs_bytes_def blocks_bytes_append)
  qed
qed

subsection \<open>The invariant of a sender\<close>

definition tx_ok :: "conf \<Rightarrow> fd \<Rightarrow> u32 \<Rightarrow> pmsg list \<Rightarrow> nat \<Rightarrow> pconn \<Rightarrow> u8 list \<Rightarrow> bool" where
  "tx_ok cf s base items acks c l \<longleftrightarrow> hb_shape cf c \<and> acks \<le> length items \<and>
     (\<exists>q. q_ptr c = Some q \<and> ptcpq_inv (TcpQueueSize cf) (c_order cf) q \<and>
       pending (c_order cf) q = drop acks items \<and> read_seq_num q = base + of_nat acks \<and>
       written cf s items q c l)"

lemma tx_okI:
  assumes "hb_shape cf c" "acks \<le> length items" "q_ptr c = Some q" "ptcpq_inv (TcpQueueSize cf) (c_order cf) q"
    "pending (c_order cf) q = drop acks items" "read_seq_num q = base + of_nat acks" "written cf s items q c l"
  shows "tx_ok cf s base items acks c l"
  using assms unfolding tx_ok_def by blast

lemma tx_okE:
  assumes "tx_ok cf s base items acks c l"
  obtains q where "hb_shape cf c" "acks \<le> length items" "q_ptr c = Some q" "ptcpq_inv (TcpQueueSize cf) (c_order cf) q"
    "pending (c_order cf) q = drop acks items" "read_seq_num q = base + of_nat acks" "written cf s items q c l"
  using assms unfolding tx_ok_def by blast

lemma tx_ok_sock: "tx_ok cf s base items acks c l \<Longrightarrow> \<not> IsClosed c \<Longrightarrow> sockfd c = s"
  by (auto simp: tx_ok_def written_def)

lemma tx_ok_same:
  assumes "tx_ok cf s base items acks c l" "q_ptr c1 = q_ptr c" "hb_shape cf c \<Longrightarrow> hb_shape cf c1" "sockfd c1 = sockfd c \<or> sockfd c1 < 0"
  shows "tx_ok cf s base items acks c1 l"
proof -
  from assms(1) obtain q where q: "hb_shape cf c" "acks \<le> length items" "q_ptr c = Some q"
      "ptcpq_inv (TcpQueueSize cf) (c_order cf) q" "pending (c_order cf) q = drop acks items"
      "read_seq_num q = base + of_nat acks" "written cf s items q c l"
    by (rule tx_okE)
  show ?thesis
  proof (rule tx_okI [of _ _ _ _ q])
    show "written cf s items q c1 l" by (rule written_same [OF q(7) refl assms(4)])
  qed (use q assms in simp_all)
qed

lemma SendPending_hbmsg: "SendPending N cf c e = Some (ok (b, c1), e1) \<Longrightarrow> hbmsg c1 = hbmsg c"
  by (auto simp: SendPending_def Let_def split: if_splits option.splits sum.splits prod.splits)

lemma tx_send_ok:
  assumes ok: "tx_ok cf s base items acks c (log e)" and N: "send_log N s log"
    and S: "SendPending N cf c e = Some (ok (b, c1), e1)"
  shows "tx_ok cf s base items acks c1 (log e1)" and "\<not> b \<Longrightarrow> \<not> IsClosed c1 \<Longrightarrow> q_ptr c1 = q_ptr c \<and> unsent (the (q_ptr c)) = []"
proof -
  let ?E = "c_order cf"
  from ok obtain q where q: "hb_shape cf c" "acks \<le> length items" "q_ptr c = Some q" "ptcpq_inv (TcpQueueSize cf) ?E q"
      "pending ?E q = drop acks items" "read_seq_num q = base + of_nat acks" "written cf s items q c (log e)"
    by (rule tx_okE)
  have hb: "hb_shape cf c1" using q(1) SendPending_hbmsg [OF S] by (simp add: hb_shape_def)
  have "tx_ok cf s base items acks c1 (log e1) \<and>
    (\<not> b \<longrightarrow> \<not> IsClosed c1 \<longrightarrow> q_ptr c1 = q_ptr c \<and> unsent (the (q_ptr c)) = [])"
  proof (cases "IsClosed c")
    case True
    then have "c1 = c" "e1 = e" using S by (simp_all add: SendPending_def)
    then show ?thesis using ok True by simp
  next
    case False
    then have sl: "send_log N (sockfd c) log" using N tx_ok_sock [OF ok] by simp
    show ?thesis
    proof (cases rule: SendPending_ok [OF q(3,4) False sl refl, of e])
      case (1 b' c' e' n)
      define q1 where "q1 = q\<lparr>send_idx := send_idx q + of_nat n\<rparr>"
      have so: "ptcpq_Sendout (int n) q = q1" by (simp add: q1_def ptcpq_Sendout_def)
      have n: "n \<le> unat (write_idx q) - unat (send_idx q)" using 1(2) by linarith
      note I = Sendout_inv [OF q(4) n, unfolded so]
      have eq: "b' = b" "c' = c1" "e' = e1" using 1(1) S by simp_all
      have u: "unsent q = seg (unat (send_idx q)) (unat (send_idx q) + n) (blk q) @ unsent q1"
        using I(3) 1(2) by (simp add: unsent_def q1_def seg_append)
      have "written cf s items q1 c1 (log e1)"
        using written_send [OF q(7) False u] 1 eq by simp
      then have "tx_ok cf s base items acks c1 (log e1)"
        using hb q I 1(4) eq by (intro tx_okI [where q = q1]) (simp_all add: q1_def)
      moreover have "q1 = q \<and> unsent q = []" if "\<not> b"
      proof -
        have "send_idx q = write_idx q" using 1(6) eq that by simp
        then show ?thesis using 1(2) by (simp add: q1_def unsent_def)
      qed
      ultimately show ?thesis using 1(4) eq q(3) by (simp add: q1_def)
    next
      case (2 c' e' k err)
      then have eq: "c' = c1" "e' = e1" using S by simp_all
      have "written cf s items q c1 (log e1)"
        using written_fail [OF q(7) False, of c1 q k] 2(2,5) eq by (simp add: unsent_def)
      then show ?thesis
        using hb q 2(2,3) eq by (intro conjI tx_okI [where q = q]) simp_all
    qed
  qed
  then show "tx_ok cf s base items acks c1 (log e1)"
    and "\<not> b \<Longrightarrow> \<not> IsClosed c1 \<Longrightarrow> q_ptr c1 = q_ptr c \<and> unsent (the (q_ptr c)) = []" by auto
qed

lemma hb_shape_ack: "hb_shape cf c \<Longrightarrow> hbmsg c1 = (hbmsg c)\<lparr>ack_seq := Convert32 (c_order cf) a\<rparr> \<Longrightarrow>
    hb_shape cf c1 \<and> header_bytes (c_order cf) (hbmsg c1) = msgs_bytes (c_order cf) [hb a]"
  by (auto simp: hb_shape_def hb_def ConvertByteOrder_def msgs_bytes_def blocks_bytes_Cons)

lemma hb_shape_sel: "hbmsg c1 = hbmsg c \<Longrightarrow> hb_shape cf c \<Longrightarrow> hb_shape cf c1"
  by (simp add: hb_shape_def)

text \<open>The second half of \<open>SendHB\<close>.\<close>

lemma tx_send_hb:
  assumes ok: "tx_ok cf s base items acks c (log e)" and N: "send_log N s log" and u: "IsClosed c \<or> unsent (the (q_ptr c)) = []"
    and bs: "bs = msgs_bytes (c_order cf) [hb a]"
    and S: "(case os_send N (sockfd c) bs e of
        (Inl err, e1) \<Rightarrow> if err = EAGAIN then (ok c, e1) else (ok (pconn_Close ''Send error'' err c), e1)
      | (Inr sent, e1) \<Rightarrow> if sent \<noteq> 8 then (ok (pconn_Close ''Send error'' 0 c), e1)
          else (ok (c\<lparr>send_time := now_time c\<rparr>), e1)) = (ok c1, e1)"
  shows "tx_ok cf s base items acks c1 (log e1)"
proof -
  have same: "q_ptr c1 = q_ptr c" "hbmsg c1 = hbmsg c" "sockfd c1 = sockfd c \<or> sockfd c1 < 0"
    using S by (auto split: prod.splits sum.splits if_splits)
  obtain r e2 where r: "os_send N (sockfd c) bs e = (r, e2)" by fastforce
  have [simp]: "e2 = e1" using S r by (auto split: sum.splits if_splits)
  show ?thesis
  proof (cases r)
    case (Inl err)
    have "log e1 = log e"
    proof (cases "IsClosed c")
      case True
      then show ?thesis using send_logD(3) [OF N _ r] by (simp add: IsClosed_def)
    next
      case False
      then show ?thesis using send_logD(2) [OF N] r Inl tx_ok_sock [OF ok] by simp
    qed
    then show ?thesis using tx_ok_same [OF ok same(1) hb_shape_sel [OF same(2)] same(3)] by simp
  next
    case (Inr n)
    have opn: "\<not> IsClosed c"
      using send_logD(3) [OF N, of "sockfd c" bs e r e2] r Inr by (auto simp: IsClosed_def)
    then have l: "log e1 = log e @ take n bs" and n: "n = 8 \<and> sockfd c1 = sockfd c \<or> IsClosed c1"
      using send_logD(1) [OF N] r Inr tx_ok_sock [OF ok] S by (auto split: if_splits)
    from ok obtain q where q: "hb_shape cf c" "acks \<le> length items" "q_ptr c = Some q" "ptcpq_inv (TcpQueueSize cf) (c_order cf) q"
        "pending (c_order cf) q = drop acks items" "read_seq_num q = base + of_nat acks" "written cf s items q c (log e)"
      by (rule tx_okE)
    have "written cf s items q c1 (log e1)"
      unfolding l bs by (rule written_hb [OF q(7) opn _ n]) (use u opn q(3) in simp)
    then show ?thesis
      using q same hb_shape_sel [OF same(2)] by (intro tx_okI [where q = q]) simp_all
  qed
qed

lemma tx_hb_ok:
  assumes ok: "tx_ok cf s base items acks c (log e)" and N: "send_log N s log"
    and S: "SendHB N cf now c e = Some (ok c1, e1)"
  shows "tx_ok cf s base items acks c1 (log e1)"
proof -
  have ok': "tx_ok cf s base items acks (c\<lparr>now_time := now\<rparr>) (log e)"
    by (rule tx_ok_same [OF ok]) (simp_all add: hb_shape_def)
  obtain q where q: "q_ptr c = Some q" using ok by (rule tx_okE)
  show ?thesis
  proof (cases "now - send_time c < HeartBeatInverval cf")
    case True
    then have "c1 = c\<lparr>now_time := now\<rparr>" "e1 = e" using S by (simp_all add: SendHB_def)
    then show ?thesis using ok' by simp
  next
    case late: False
    obtain b c2 e2 where sp: "SendPending N cf (c\<lparr>now_time := now\<rparr>) e = Some (ok (b, c2), e2)"
      using S late q by (auto simp: SendHB_def split: option.splits sum.splits)
    note K = tx_send_ok [OF ok' N sp]
    show ?thesis
    proof (cases b)
      case True
      then show ?thesis using S late q sp K(1) by (simp add: SendHB_def)
    next
      case False
      obtain q2 where q2: "q_ptr c2 = Some q2" using K(1) by (rule tx_okE)
      let ?c3 = "c2\<lparr>hbmsg := (hbmsg c2)\<lparr>ack_seq := Convert32 (c_order cf) (ptcpq_MyAck q2)\<rparr>\<rparr>"
      have hs: "hb_shape cf c2" using K(1) by (rule tx_okE)
      have h: "hb_shape cf ?c3" "header_bytes (c_order cf) (hbmsg ?c3) = msgs_bytes (c_order cf) [hb (ptcpq_MyAck q2)]"
        using hb_shape_ack [OF hs, of ?c3 "ptcpq_MyAck q2"] by simp_all
      have k3: "tx_ok cf s base items acks ?c3 (log e2)"
        by (rule tx_ok_same [OF K(1)]) (use h in simp_all)
      have u: "IsClosed ?c3 \<or> unsent (the (q_ptr ?c3)) = []"
      proof (cases "IsClosed c2")
        case False
        then have "q_ptr c2 = q_ptr c \<and> unsent (the (q_ptr c)) = []" using K(2) \<open>\<not> b\<close> by simp
        then show ?thesis by simp
      qed (simp add: IsClosed_def)
      show ?thesis
        by (rule tx_send_hb [OF k3 N u h(2)]) (use S late q sp False q2 in \<open>simp add: SendHB_def deref_def\<close>)
    qed
  qed
qed

lemma nblks_drop_mono: "i \<le> j \<Longrightarrow> nblks (drop j ms) \<le> nblks (drop i ms)"
proof -
  assume "i \<le> j"
  then have "drop i ms = take (j - i) (drop i ms) @ drop j ms"
    by (metis append_take_drop_id drop_drop le_add_diff_inverse2)
  then show ?thesis by (metis le_add2 nblks_simps(3))
qed

lemma seq_dist_back: "0 < n \<Longrightarrow> n < 2147483648 \<Longrightarrow> 2147483648 \<le> seq_dist a (a - of_nat n)"
proof -
  assume n: "0 < n" "n < 2147483648"
  define m where "m = 4294967296 - n"
  have "m + n = 4294967296" using n by (simp add: m_def)
  then have "(of_nat (m + n) :: u32) = of_nat 4294967296" by (rule arg_cong)
  then have "of_nat m + of_nat n = (0 :: u32)" by simp
  then have "(of_nat m :: u32) = - of_nat n" by (simp add: eq_neg_iff_add_eq_0)
  then have e: "a - of_nat n = a + of_nat m" by simp
  have "seq_dist a (a + of_nat m) = m" by (rule seq_dist_add) (use n m_def in simp)
  then show ?thesis unfolding e using n m_def by simp
qed

lemma tx_ack_ok:
  assumes ok: "tx_ok cf s base items acks c l" and opn: "\<not> IsClosed c"
    and j: "j \<le> int (length (app_frames (c_order cf) l))" "\<bar>j - int acks\<bar> < 2147483648"
    and A: "ack_queue (c_order cf) (base + word_of_int j) c = ok c1"
  shows "tx_ok cf s base items (max acks (nat j)) c1 l"
proof -
  let ?E = "c_order cf"
  from ok obtain q where q: "hb_shape cf c" "acks \<le> length items" "q_ptr c = Some q" "ptcpq_inv (TcpQueueSize cf) ?E q"
      "pending ?E q = drop acks items" "read_seq_num q = base + of_nat acks" "written cf s items q c l"
    by (rule tx_okE)
  obtain q1 where a: "ptcpq_Ack ?E (base + word_of_int j) q = ok q1" and c1: "c1 = c\<lparr>q_ptr := Some q1\<rparr>"
    using A q(3) by (auto simp: ack_queue_def deref_def chk_bind_ok_iff)
  show ?thesis
  proof (cases "int acks \<le> j")
    case False
    define n where "n = nat (int acks - j)"
    have n: "0 < n" "n < 2147483648" "int n = int acks - j" using False j(2) by (auto simp: n_def)
    have "base + word_of_int j = read_seq_num q - of_nat n"
    proof -
      have "(word_of_int j :: u32) = word_of_int (int acks - int n)" using n(3) by simp
      then show ?thesis unfolding q(6) by simp
    qed
    then have "2147483648 \<le> seq_dist (read_seq_num q) (base + word_of_int j)" using seq_dist_back n by simp
    then have "q1 = q" using a Ack_ignored [of "base + word_of_int j" q ?E] by simp
    have mx: "max acks (nat j) = acks" using False by simp
    show ?thesis
      unfolding mx by (rule tx_ok_same [OF ok]) (use c1 q(3) \<open>q1 = q\<close> in \<open>simp_all add: hb_shape_def\<close>)
  next
    case True
    define n where "n = nat (j - int acks)"
    have n: "n < 2147483648" "nat j = acks + n" using True j(2) by (auto simp: n_def)
    have "(word_of_int j :: u32) = of_nat (nat j)" using True by simp
    then have wj: "(word_of_int j :: u32) = of_nat (acks + n)" unfolding n(2) .
    then have num: "base + word_of_int j = read_seq_num q + of_nat n" unfolding q(6) by simp
    from q(7) opn obtain gone todo sent where o: "list_all wf_msg (gone @ todo)" "filter app_msg (gone @ todo) = items"
        "list_all app_msg todo" "cut_at ?E gone todo sent (unsent q)" "l = blocks_bytes ?E sent"
      by (rule written_openE)
    have "app_frames ?E l = map (frame_of ?E) (filter app_msg gone)"
      using cut_frames [OF o(4,1) refl] by (simp add: app_frames_def o(5) filter_map o_def)
    then have "nat j \<le> length (filter app_msg gone)" using j(1) by simp
    moreover have items: "items = filter app_msg gone @ todo"
      using o(2,3) by (simp add: list_all_iff)
    ultimately have jl: "nat j \<le> length items" and "nblks todo \<le> nblks (drop (nat j) items)"
      using nblks_drop_mono [of "nat j" "length (filter app_msg gone)" items] by auto
    then have un: "length (unsent q) \<le> nblks (drop n (pending ?E q))"
      using cut_left [OF o(4)] o(1) by (simp add: q(5) n(2) add.commute)
    obtain q2 where q2: "ptcpq_Ack ?E (base + word_of_int j) q = ok q2" "ptcpq_inv (TcpQueueSize cf) ?E q2"
        "pending ?E q2 = drop n (pending ?E q)" "read_seq_num q2 = base + word_of_int j" "unsent q2 = unsent q"
    proof (rule Ack_unsent [OF q(4) _ _ n(1) un])
      show "seq_dist (read_seq_num q) (base + word_of_int j) = n" unfolding num using n(1) by simp
      show "n \<le> length (pending ?E q)" using jl n(2) by (simp add: q(5))
    qed
    then have [simp]: "q1 = q2" using a by simp
    have "written cf s items q2 c1 l" using written_same [OF q(7) q2(5)] c1 by simp
    then show ?thesis
      using q q2 c1 jl n(2) True
      by (intro tx_okI [where q = q2]) (simp_all add: hb_shape_def max_def add.commute wj)
  qed
qed

lemma tx_post_ok:
  assumes ok: "tx_ok cf s base items acks c l" and q: "q_ptr c = Some q"
    and us: "unat us \<le> 65527" "t \<noteq> HeartbeatMsg_type" "msg_blocks us = Suc (length body)"
    and P: "ptcpq_post (TcpQueueSize cf) (c_order cf) us t body q = ok (True, q1)"
  shows "tx_ok cf s base (items @ [(\<lparr>hdr_size = us + 8, msg_type = t, ack_seq = ack_seq_num q\<rparr>, body)]) acks
    (c\<lparr>q_ptr := Some q1\<rparr>) l"
proof -
  let ?m = "(\<lparr>hdr_size = us + 8, msg_type = t, ack_seq = ack_seq_num q\<rparr>, body)"
  from ok obtain q' where "q_ptr c = Some q'" and i: "hb_shape cf c" "acks \<le> length items" "ptcpq_inv (TcpQueueSize cf) (c_order cf) q'"
      "pending (c_order cf) q' = drop acks items" "read_seq_num q' = base + of_nat acks" "written cf s items q' c l"
    by (rule tx_okE)
  then have [simp]: "q' = q" using q by simp
  note R = post_unsent [OF i(3) us(1,3), of t q1, simplified, OF P]
  have "wf_msg ?m" using ptcpq_invD(6) [OF R(1)] R(2) by simp
  moreover have "app_msg ?m" using us(2) by (simp add: app_msg_def)
  ultimately have "written cf s (items @ [?m]) q1 (c\<lparr>q_ptr := Some q1\<rparr>) l"
    using written_post [OF i(6), of q1 ?m] R(3) by simp
  then show ?thesis
    using i R by (intro tx_okI [where q = q1]) (simp_all add: hb_shape_def)
qed

lemma tx_open_ok:
  assumes N: "send_log N s log" and s: "0 \<le> s" and q: "q_ptr c0 = Some q0" "hb_shape cf c0"
    and inv: "ptcpq_inv (TcpQueueSize cf) (c_order cf) q0" "list_all app_msg (pending (c_order cf) q0)"
    and k: "k \<le> length (pending (c_order cf) q0)" "k < 2147483648"
    and O: "pconn_Open N cf s (read_seq_num q0 + of_nat k) now c0 e0 = Some (ok c, e)" and l: "log e0 = []"
  shows "tx_ok cf s (read_seq_num q0 + of_nat k) (drop k (pending (c_order cf) q0)) 0 c (log e)"
proof -
  let ?E = "c_order cf" and ?ms = "drop k (pending (c_order cf) q0)"
  obtain q1 where q1: "ptcpq_LoginAck ?E (read_seq_num q0 + of_nat k) q0 = ok q1" "ptcpq_inv (TcpQueueSize cf) ?E q1"
      "pending ?E q1 = ?ms" "read_seq_num q1 = read_seq_num q0 + of_nat k" "send_idx q1 = read_idx q1"
    by (rule LoginAck_ok [OF inv(1), of "read_seq_num q0 + of_nat k" k]) (use k in simp_all)
  define c1 where "c1 = c0\<lparr>sockfd := s, fd_to_close := s, writeidx := 0, readidx := 0,
      nextmsg_idx := 0, recv_time := now, send_time := now, now_time := now, q_ptr := Some q1\<rparr>"
  obtain b c2 where sp: "SendPending N cf c1 e0 = Some (ok (b, c2), e)"
    and c: "q_ptr c = q_ptr c2" "hbmsg c = hbmsg c2" "sockfd c = sockfd c2"
    using O q(1) q1(1) by (auto simp: pconn_Open_def Let_def chk_bind_ok_iff c1_def split: if_splits)
  have wf: "list_all wf_msg ?ms" using ptcpq_invD(6) [OF q1(2)] q1(3) by simp
  have app: "list_all app_msg ?ms" using inv(2) by (auto simp: list_all_iff dest: in_set_dropD)
  have "unsent q1 = enc_msgs ?E ?ms"
    using unsent_live [OF q1(2)] ptcpq_invD(5) [OF q1(2)] q1(3,5) by simp
  then have "cut_at ?E [] ?ms [] (unsent q1)" using cut_at_start [OF wf] by simp
  then have "written cf s ?ms q1 c1 []"
    using wf app s by (intro written_openI [where gone = "[]" and todo = ?ms and sent = "[]"])
      (simp_all add: c1_def IsClosed_def list_all_iff plain_hb_def)
  then have "tx_ok cf s (read_seq_num q0 + of_nat k) ?ms 0 c1 (log e0)"
    using q q1 l by (intro tx_okI [where q = q1]) (simp_all add: c1_def hb_shape_def)
  from tx_ok_same [OF tx_send_ok(1) [OF this N sp]] c
  show ?thesis by (simp add: hb_shape_def)
qed

lemma tx_run_ok:
  assumes "tx_run N cf s log q0 k items acks c e" and "send_log N s log" and "0 \<le> s"
    and "ptcpq_inv (TcpQueueSize cf) (c_order cf) q0" "list_all app_msg (pending (c_order cf) q0)"
    and "k \<le> length (pending (c_order cf) q0)" "k < 2147483648"
  shows "tx_ok cf s (read_seq_num q0 + of_nat k) items acks c (log e)"
  using assms
proof (induction rule: tx_run.induct)
  case (tx_open c0 now e0 c e)
  show ?case
    by (rule tx_open_ok [OF tx_open.prems(1,2) tx_open.hyps(1,2) tx_open.prems(3-6) tx_open.hyps(3,4)])
next
  case (tx_post items acks c e q us t body q1)
  show ?case by (rule tx_post_ok [OF tx_post.IH [OF tx_post.prems] tx_post.hyps(2-6)])
next
  case (tx_send items acks c e b c1 e1)
  show ?case by (rule tx_send_ok(1) [OF tx_send.IH [OF tx_send.prems] tx_send.prems(1) tx_send.hyps(2)])
next
  case (tx_hb items acks c e now c1 e1)
  show ?case by (rule tx_hb_ok [OF tx_hb.IH [OF tx_hb.prems] tx_hb.prems(1) tx_hb.hyps(2)])
next
  case (tx_ack items acks c e j c1)
  show ?case by (rule tx_ack_ok [OF tx_ack.IH [OF tx_ack.prems] tx_ack.hyps(2-5)])
next
  case (tx_other items acks c e q c1 n e1)
  from tx_other.IH [OF tx_other.prems] obtain q' where "q_ptr c = Some q'" and
      i: "hb_shape cf c" "acks \<le> length items" "ptcpq_inv (TcpQueueSize cf) (c_order cf) q'"
      "pending (c_order cf) q' = drop acks items" "read_seq_num q' = read_seq_num q0 + of_nat k + of_nat acks"
      "written cf s items q' c (log e)"
    by (rule tx_okE)
  then have [simp]: "q' = q" using tx_other.hyps(2) by simp
  let ?q = "q\<lparr>ack_seq_num := n\<rparr>"
  have p: "live ?q = live q" "unsent ?q = unsent q" by (simp_all add: live_def unsent_def)
  show ?case
  proof (rule tx_okI [where q = ?q])
    show "written cf s items ?q c1 (log e1)"
      using written_same [OF i(6), of ?q c1] p(2) tx_other.hyps(5,6) by simp
    show "ptcpq_inv (TcpQueueSize cf) (c_order cf) ?q" "pending (c_order cf) ?q = drop acks items"
      using i(3,4) p(1) by (simp_all add: ptcpq_inv_def pending_def)
  qed (use i tx_other.hyps in \<open>simp_all add: hb_shape_def\<close>)
qed

lemma written_app_frames:
  assumes "written cf s items q c l" "ToLittle (c_order cf) = ToLittle B"
  shows "prefix (app_frames B l) (map (frame_of (c_order cf)) items)"
  using written_prefix [OF assms(1)] app_frames_prefix [OF _ _ assms(2)] by blast

lemma written_good:
  assumes "written cf s items q c l" "ToLittle (c_order cf) = ToLittle (c_order cg)"
    and "list_all (fits cg) items" "8 \<le> unat (TcpRecvBufMaxSize cg)"
  shows "good_stream cg l"
proof -
  obtain all r where all: "list_all wf_msg all" "list_all plain_hb all" "filter app_msg all = items"
      "msgs_bytes (c_order cf) all = l @ r"
    using written_prefix [OF assms(1)] by blast
  have "fits cg m" if "m \<in> set all" for m
  proof (cases "app_msg m")
    case True
    then show ?thesis using that assms(3) all(3) by (auto simp: list_all_iff)
  next
    case False
    then have "snd m = []" "wf_msg m" using all(1,2) that by (auto simp: list_all_iff plain_hb_def)
    then show ?thesis using assms(4) by (cases m) (simp add: fits_def)
  qed
  then have "list_all (fits cg) all" by (simp add: list_all_iff)
  with all(4,1,2) show ?thesis by (rule msgs_good_stream [OF _ _ _ _ assms(2)])
qed

lemma tx_run_extends:
  "tx_run N cf s log q0 k items acks c e \<Longrightarrow> prefix (drop k (pending (c_order cf) q0)) items"
  by (induction rule: tx_run.induct) (auto intro: prefix_order.trans)

section \<open>The receiving side\<close>

text \<open>The runs of a connection as a receiver; \<open>a\<close> is its acknowledgement number at the login.\<close>

inductive pop_run ::
  "'e os \<Rightarrow> conf \<Rightarrow> fd \<Rightarrow> ('e \<Rightarrow> u8 list) \<Rightarrow> u32 \<Rightarrow> frame list \<Rightarrow> pconn \<Rightarrow> 'e \<Rightarrow> bool"
  for N cf s log a
where
  pop_open: "buf_shape cf c0 \<Longrightarrow> my_ack c0 = Some a \<Longrightarrow>
    pconn_Open N cf s ack now c0 e0 = Some (ok c, e) \<Longrightarrow> log e = [] \<Longrightarrow>
    pop_run N cf s log a [] c e"
| pop_front: "pop_run N cf s log a got c e \<Longrightarrow> pconn_Front N cf c e = Some (ok (r, c1), e1) \<Longrightarrow>
    pop_run N cf s log a got c1 e1"
| pop_pop: "pop_run N cf s log a got c e \<Longrightarrow> front_result c = Some i \<Longrightarrow>
    load_at (c_order cf) i c = ok h \<Longrightarrow> msg_type h \<noteq> HeartbeatMsg_type \<Longrightarrow>
    body = seg (unat i + 8) (unat i + frame_len h) (recvbuf c) \<Longrightarrow> pconn_Pop cf c = ok c1 \<Longrightarrow>
    pop_run N cf s log a (got @ [(h, body)]) c1 e"
| pop_other: "pop_run N cf s log a got c e \<Longrightarrow> same_rx c c1 \<Longrightarrow> ack_kept c c1 \<Longrightarrow> log e1 = log e \<Longrightarrow>
    pop_run N cf s log a got c1 e1"

lemma LoginAck_MyAck: "ptcpq_LoginAck E a q = ok q1 \<Longrightarrow> ack_seq_num q1 = ack_seq_num q"
  by (auto simp: ptcpq_LoginAck_def dest: Ack_MyAck split: sum.splits)

lemma Open_my_ack:
  assumes "pconn_Open N cf s ack now c e = Some (ok c1, e1)"
  shows "my_ack c1 = my_ack c"
proof (cases "q_ptr c")
  case None
  then show ?thesis using assms by (auto simp: pconn_Open_def Let_def my_ack_def split: if_splits)
next
  case (Some q)
  obtain q1 b c2 where la: "ptcpq_LoginAck (c_order cf) ack q = ok q1"
    and sp: "SendPending N cf (c\<lparr>sockfd := s, fd_to_close := s, writeidx := 0, readidx := 0,
      nextmsg_idx := 0, recv_time := now, send_time := now, now_time := now, q_ptr := Some q1\<rparr>) e = Some (ok (b, c2), e1)"
    and c1: "q_ptr c1 = q_ptr c2"
    using assms Some
    by (auto simp: pconn_Open_def Let_def chk_bind_ok_iff split: sum.splits prod.splits if_splits)
  have "my_ack c2 = Some (ack_seq_num q1)"
    using acks.SendPending_kept [OF sp] by (simp add: ack_kept_def my_ack_def ptcpq_MyAck_def)
  then show ?thesis using LoginAck_MyAck [OF la] c1 Some by (simp add: my_ack_def ptcpq_MyAck_def)
qed

lemma Pop_my_ack: "pconn_Pop cf c = ok c1 \<Longrightarrow> my_ack c = Some a \<Longrightarrow> my_ack c1 = Some (a + 1)"
  by (auto simp: pconn_Pop_def chk_bind_ok_iff deref_def my_ack_def ptcpq_MyAck_def ptcpq_inc_MyAck_def split: option.splits)

lemma pop_run_rx:
  assumes "pop_run N cf s log a got c e"
  shows "rx_run N cf s log got c e" and "my_ack c = Some (a + of_nat (length got))"
proof -
  have "rx_run N cf s log got c e \<and> my_ack c = Some (a + of_nat (length got))"
    using assms
  proof (induction rule: pop_run.induct)
    case (pop_open c0 ack now e0 c e)
    then have "q_ptr c0 \<noteq> None" by (auto simp: my_ack_def)
    then show ?case using pop_open Open_my_ack [OF pop_open(3)] run_open by fastforce
  next
    case (pop_front got c e r c1 e1)
    then show ?case using acks.pconn_Front_kept [OF pop_front(2)] run_front [of N cf s log got c e r c1 e1]
      by (simp add: ack_kept_def)
  next
    case (pop_pop got c e i h body c1)
    have "my_ack c1 = Some (a + of_nat (length got) + 1)"
      by (rule Pop_my_ack [OF pop_pop.hyps(6)]) (use pop_pop.IH in simp)
    then show ?case
      using run_pop [OF conjunct1 [OF pop_pop.IH] pop_pop.hyps(2-6)] by simp
  next
    case (pop_other got c e c1 e1)
    then show ?case using run_other [of N cf s log got c e c1 e1] by (simp add: ack_kept_def)
  qed
  then show "rx_run N cf s log got c e" and "my_ack c = Some (a + of_nat (length got))" by simp_all
qed

section \<open>Many connections\<close>

text \<open>
  The sender with the queue \<open>q\<close> and the receiver with the acknowledgement number \<open>a\<close>, both in
  memory mapped files, connect again and again: the receiver tells its number at the login,
  both run, the socket delivers a prefix of what was written, the sender gets only numbers
  the receiver has had, and the connection ends at any point.  \<open>sent\<close> are all the messages ever posted and \<open>got\<close> all that were popped.
\<close>

inductive sessions ::
  "'e os \<Rightarrow> conf \<Rightarrow> 'f os \<Rightarrow> conf \<Rightarrow> u32 \<Rightarrow> ptcpq \<Rightarrow> u32 \<Rightarrow> pmsg list \<Rightarrow> frame list \<Rightarrow> bool"
  for N cf M cg base
where
  first_session: "ptcpq_inv (TcpQueueSize cf) (c_order cf) q \<Longrightarrow> pending (c_order cf) q = [] \<Longrightarrow>
    read_seq_num q = base \<Longrightarrow> sessions N cf M cg base q base [] []"
| next_session: "sessions N cf M cg base q a sent got \<Longrightarrow>
    a = read_seq_num q + of_nat k \<Longrightarrow> k < 2147483648 \<Longrightarrow>
    send_log N s log \<Longrightarrow> 0 \<le> s \<Longrightarrow> tx_run N cf s log q k (drop k (pending (c_order cf) q) @ new) acks c e \<Longrightarrow>
    q_ptr c = Some q1 \<Longrightarrow> list_all (fits cg) new \<Longrightarrow>
    read_bounded M \<Longrightarrow> socket_log M s1 log1 \<Longrightarrow> pop_run M cg s1 log1 a got1 c1 e1 \<Longrightarrow>
    delivers log1 (log e) \<Longrightarrow> acks \<le> length got1 \<Longrightarrow>
    my_ack c1 = Some a1 \<Longrightarrow>
    sessions N cf M cg base q1 a1 (sent @ new) (got @ got1)"

definition sessions_ok :: "conf \<Rightarrow> conf \<Rightarrow> u32 \<Rightarrow> ptcpq \<Rightarrow> u32 \<Rightarrow> pmsg list \<Rightarrow> frame list \<Rightarrow> bool" where
  "sessions_ok cf cg base q a sent got \<longleftrightarrow>
     ptcpq_inv (TcpQueueSize cf) (c_order cf) q \<and> list_all app_msg sent \<and> list_all (fits cg) sent \<and>
     (\<exists>r. r \<le> length got \<and> length got \<le> length sent \<and> pending (c_order cf) q = drop r sent \<and>
       read_seq_num q = base + of_nat r \<and> a = base + of_nat (length got) \<and>
       got = map (frame_of (c_order cf)) (take (length got) sent))"

lemma pending_short: "ptcpq_inv Bytes E q \<Longrightarrow> length (pending E q) < 536870912"
proof -
  assume inv: "ptcpq_inv Bytes E q"
  have "length ms \<le> nblks ms" if "list_all wf_msg ms" for ms
    using that
  proof (induction ms)
    case (Cons m ms)
    then have "0 < nblk (fst m)" by (cases m) simp
    then show ?case using Cons by simp
  qed simp
  then show ?thesis
    using ptcpq_invD(6) [OF inv] pending_nblks [OF inv] ptcpq_bounds(2) [OF inv] by fastforce
qed

lemma of_nat_u32_inj: "m < 4294967296 \<Longrightarrow> n < 4294967296 \<Longrightarrow> (of_nat m :: u32) = of_nat n \<Longrightarrow> m = n"
  by (metis unat_of_nat_u32)

lemma sessions_inv:
  assumes "sessions N cf M cg base q a sent got"
    and "ToLittle (c_order cf) = ToLittle (c_order cg)" and "8 \<le> unat (TcpRecvBufMaxSize cg)"
  shows "sessions_ok cf cg base q a sent got"
  using assms(1)
proof (induction rule: sessions.induct)
  case (first_session q)
  then show ?case by (simp add: sessions_ok_def)
next
  case (next_session q a sent got k s log new acks c e q1 s1 log1 got1 c1 e1 a1)
  let ?E = "c_order cf"
  obtain r where IH: "ptcpq_inv (TcpQueueSize cf) ?E q" "list_all app_msg sent" "list_all (fits cg) sent"
      "r \<le> length got" "length got \<le> length sent" "pending ?E q = drop r sent" "read_seq_num q = base + of_nat r"
      "a = base + of_nat (length got)" "got = map (frame_of ?E) (take (length got) sent)"
    using next_session.IH by (auto simp: sessions_ok_def)
  define n where "n = length got"
  have k: "k = n - r"
  proof (rule of_nat_u32_inj)
    show "k < 4294967296" using next_session.hyps(3) by simp
    have "n - r \<le> length (pending ?E q)" using IH(5) by (simp add: IH(6) n_def)
    then show "n - r < 4294967296" using pending_short [OF IH(1)] by simp
    have "(of_nat n :: u32) = of_nat (n - r) + of_nat r" using IH(4) by (simp add: n_def flip: of_nat_add)
    then show "(of_nat k :: u32) = of_nat (n - r)"
      using next_session.hyps(2) IH(7,8) by (simp add: n_def)
  qed
  have items: "drop k (pending ?E q) = drop n sent" using IH(4) by (simp add: IH(6) k n_def)
  have kl: "k \<le> length (pending ?E q)" using IH(5) by (simp add: IH(6) k n_def)
  have app: "list_all app_msg (pending ?E q)" using IH(2) by (auto simp: IH(6) list_all_iff dest: in_set_dropD)
  note run = next_session.hyps(6) [unfolded items]
  from tx_run_ok [OF run next_session.hyps(4,5) IH(1) app kl next_session.hyps(3)]
  obtain q' where "q_ptr c = Some q'" and t: "acks \<le> length (drop n sent @ new)" "ptcpq_inv (TcpQueueSize cf) ?E q'"
      "pending ?E q' = drop acks (drop n sent @ new)" "read_seq_num q' = read_seq_num q + of_nat k + of_nat acks"
      "written cf s (drop n sent @ new) q' c (log e)"
    by (rule tx_okE)
  then have qq [simp]: "q' = q1" using next_session.hyps(7) by simp
  have newapp: "list_all app_msg new"
    using t(5) unfolding written_def by (metis list_all_append list_all_iff mem_Collect_eq set_filter)
  have fit: "list_all (fits cg) (drop n sent @ new)"
    using IH(3) next_session.hyps(8) by (auto simp: list_all_iff dest: in_set_dropD)
  have good: "good_stream cg (log e)" by (rule written_good [OF t(5) assms(2) fit assms(3)])
  note rx = pop_run_rx [OF next_session.hyps(11)]
  obtain waiting where "app_frames (c_order cg) (log1 e1) = got1 @ waiting"
  proof -
    have "rx_ok cg s1 (log1 e1) got1 c1"
      by (rule rx_run_ok [OF rx(1) next_session.hyps(9,10,12) good])
    then show thesis using that by (auto simp: rx_ok_def)
  qed
  moreover have "prefix (app_frames (c_order cg) (log1 e1)) (map (frame_of ?E) (drop n sent @ new))"
  proof -
    obtain rest where "log e = log1 e1 @ rest" using next_session.hyps(12) unfolding delivers_def by blast
    moreover obtain all rest' where "list_all wf_msg all" "filter app_msg all = drop n sent @ new"
        "msgs_bytes ?E all = log e @ rest'"
      using written_prefix [OF t(5)] by blast
    ultimately show ?thesis using app_frames_prefix [of ?E all "log1 e1" "rest @ rest'" "c_order cg"] assms(2) by simp
  qed
  ultimately have "prefix got1 (map (frame_of ?E) (drop n sent @ new))"
    by (metis prefixI prefix_order.trans)
  then obtain more where more: "map (frame_of ?E) (drop n sent @ new) = got1 @ more" by (auto simp: prefix_def)
  let ?sent = "sent @ new" and ?got = "got @ got1"
  have "map (frame_of ?E) ?sent = map (frame_of ?E) (take n sent) @ map (frame_of ?E) (drop n sent @ new)"
    by (metis append_assoc append_take_drop_id map_append)
  then have all: "map (frame_of ?E) ?sent = ?got @ more" using IH(9) more by (simp add: n_def)
  then have len: "length ?got \<le> length ?sent" by (metis le_add1 length_append length_map)
  have "?got = map (frame_of ?E) (take (length ?got) ?sent)" unfolding take_map [symmetric] all by simp
  moreover have "pending ?E q1 = drop (n + acks) ?sent"
    using t(3) IH(5) by (simp add: n_def add.commute)
  moreover have "read_seq_num q1 = base + of_nat (n + acks)"
    using t(4) next_session.hyps(2) IH(8) by (simp add: n_def)
  moreover have "a1 = base + of_nat (length ?got)"
    using rx(2) next_session.hyps(14) IH(8) by simp
  moreover have "n + acks \<le> length ?got" using next_session.hyps(13) by (simp add: n_def)
  moreover have "list_all (fits cg) ?sent" "list_all app_msg ?sent" using IH(2,3) next_session.hyps(8) newapp by simp_all
  ultimately show ?case
    using t(2) [unfolded qq] len unfolding sessions_ok_def by blast
qed

section \<open>Properties\<close>

text \<open>
  C1. Exactly once, in order, over any number of connections: however the network cuts the
  streams, wherever the connections break and whatever order posting, sending, receiving,
  popping, acknowledging and heartbeats happen in, the messages the receiver has popped are
  the first ones the sender has posted, each once, unchanged and in order; the receiver's
  number counts them; and every message not yet popped is still in the sender's queue.
\<close>

theorem exactly_once_across_connections:
  assumes "sessions N cf M cg base q a sent got"
    and "ToLittle (c_order cf) = ToLittle (c_order cg)" and "8 \<le> unat (TcpRecvBufMaxSize cg)"
  shows "got = map (frame_of (c_order cf)) (take (length got) sent) \<and> length got \<le> length sent \<and>
    a = base + of_nat (length got) \<and>
    (\<exists>r. r \<le> length got \<and> pending (c_order cf) q = drop r sent \<and> read_seq_num q = base + of_nat r)"
  using sessions_inv [OF assms] unfolding sessions_ok_def by blast

text \<open>
  C8. One connection as a sender: what it has put into the socket, read with any byte order, is a
  sequence of whole frames, which apart from heartbeats are the first of the messages
  pending at the login and posted since, in order; and its queue holds exactly those not
  acknowledged.  A heartbeat or a failed send never damages a message.
\<close>

theorem stream_carries_messages:
  assumes "tx_run N cf s log q0 k items acks c e" and "send_log N s log" and "0 \<le> s"
    and "ptcpq_inv (TcpQueueSize cf) (c_order cf) q0" and "list_all app_msg (pending (c_order cf) q0)"
    and "k \<le> length (pending (c_order cf) q0)" and "k < 2147483648"
    and "ToLittle (c_order cf) = ToLittle B"
  shows "prefix (app_frames B (log e)) (map (frame_of (c_order cf)) items) \<and>
    prefix (drop k (pending (c_order cf) q0)) items \<and>
    (\<exists>q. q_ptr c = Some q \<and> ptcpq_inv (TcpQueueSize cf) (c_order cf) q \<and> pending (c_order cf) q = drop acks items)"
proof -
  from tx_run_ok [OF assms(1-7)] obtain q where "q_ptr c = Some q" "ptcpq_inv (TcpQueueSize cf) (c_order cf) q"
      "pending (c_order cf) q = drop acks items" "written cf s items q c (log e)"
    by (rule tx_okE)
  then show ?thesis using written_app_frames [OF _ assms(8)] tx_run_extends [OF assms(1)] by blast
qed

text \<open>One message from one small connection to another, with its bytes cut in the middle.\<close>

definition one_msg :: pmsg where
  "one_msg = (\<lparr>hdr_size = 12, msg_type = 5, ack_seq = 0\<rparr>, [\<lparr>hdr_size = 513, msg_type = 1027, ack_seq = 0\<rparr>])"

abbreviation new_queue :: ptcpq where
  "new_queue \<equiv> ptcpq_new (replicate 8 zero_header)"

lemma new_queue_pending: "pending le_host new_queue = []"
  by (simp add: pending_def live_def ptcpq_new_def)

text \<open>Reading off what an evaluated step returned.\<close>

lemma ranE:
  assumes "case x of Some (Inr (r, c), e) \<Rightarrow> P r c e | _ \<Rightarrow> False"
  obtains r c e where "x = Some (ok (r, c), e)" "P r c e"
  using assms by (auto split: option.splits sum.splits prod.splits) (metis sum.exhaust surj_pair)

lemma okE:
  assumes "case x of Inr y \<Rightarrow> P y | Inl _ \<Rightarrow> False"
  obtains y where "x = ok y" "P y"
  using assms by (cases x) auto

lemma one_msg_sent:
  "\<exists>c q1 n. tx_run (stream_os []) small_conf 5 snd new_queue 0 [one_msg] 0 c (n, take 16 small_stream) \<and> q_ptr c = Some q1"
proof -
  let ?N = "stream_os [] :: (nat \<times> u8 list) os"
  have hb: "hb_shape small_conf small_conn"
    by (auto simp: hb_shape_def small_conn_def pconn_new_def)
  have q0: "q_ptr small_conn = Some new_queue" by (simp add: small_conn_def)
  have open_eq: "pconn_Open ?N small_conf 5 (read_seq_num new_queue + of_nat 0) 0 small_conn (0, []) = Some (ok open_conn, (0, []))"
    using small_open by (simp add: ptcpq_new_def)
  have 1: "tx_run ?N small_conf 5 snd new_queue 0 [] 0 open_conn (0, [])"
    using tx_open [of small_conn new_queue small_conf ?N 5 0 0 "(0, [])" open_conn "(0, [])" snd, OF q0 hb open_eq]
      new_queue_pending by simp
  have "case ptcpq_post 64 le_host 4 5 (snd one_msg) new_queue of
      Inr y \<Rightarrow> fst y \<and> (case SendPending ?N small_conf (open_conn\<lparr>q_ptr := Some (snd y)\<rparr>) (0, []) of
        Some (Inr (b, c1), e1) \<Rightarrow> snd e1 = take 16 small_stream \<and> q_ptr c1 \<noteq> None | _ \<Rightarrow> False) | Inl _ \<Rightarrow> False"
    by code_simp
  then obtain y where y: "ptcpq_post 64 le_host 4 5 (snd one_msg) new_queue = ok y" "fst y"
    and s: "case SendPending ?N small_conf (open_conn\<lparr>q_ptr := Some (snd y)\<rparr>) (0, []) of
        Some (Inr (b, c1), e1) \<Rightarrow> snd e1 = take 16 small_stream \<and> q_ptr c1 \<noteq> None | _ \<Rightarrow> False"
    by (rule okE) simp
  define q1 where "q1 = snd y"
  have post: "ptcpq_post 64 le_host 4 5 (snd one_msg) new_queue = ok (True, q1)"
    using y by (cases y) (simp add: q1_def)
  from s obtain b c1 e1 where sp: "SendPending ?N small_conf (open_conn\<lparr>q_ptr := Some q1\<rparr>) (0, []) = Some (ok (b, c1), e1)"
      "snd e1 = take 16 small_stream \<and> q_ptr c1 \<noteq> None"
    unfolding q1_def by (rule ranE)
  then obtain n where send: "SendPending ?N small_conf (open_conn\<lparr>q_ptr := Some q1\<rparr>) (0, []) = Some (ok (b, c1), (n, take 16 small_stream))"
    and q: "q_ptr c1 \<noteq> None" by (cases e1) auto
  have "tx_run ?N small_conf 5 snd new_queue 0 ([] @ [(\<lparr>hdr_size = 4 + 8, msg_type = 5, ack_seq = ack_seq_num new_queue\<rparr>, snd one_msg)])
      0 (open_conn\<lparr>q_ptr := Some q1\<rparr>) (0, [])"
    by (rule tx_post [OF 1 open_sel(4)]) (use post in \<open>simp_all add: HeartbeatMsg_type_def msg_blocks_def one_msg_def small_conf_def unat_blk_size\<close>)
  then have "tx_run ?N small_conf 5 snd new_queue 0 [one_msg] 0 (open_conn\<lparr>q_ptr := Some q1\<rparr>) (0, [])"
    by (simp add: one_msg_def ptcpq_new_def)
  from tx_send [OF this send] q show ?thesis by blast
qed

lemma one_msg_popped:
  "\<exists>got c e. pop_run (stream_os (take 16 small_stream)) small_conf 5 (delivered (take 16 small_stream)) 0 got c e \<and>
     length got = 1 \<and> my_ack c = Some 1"
proof -
  let ?M = "stream_os (take 16 small_stream)" and ?log = "delivered (take 16 small_stream)"
  have a: "my_ack small_conn = Some 0" by (simp add: my_ack_def small_conn_def ptcpq_new_def ptcpq_MyAck_def)
  have 0: "pop_run ?M small_conf 5 ?log 0 [] open_conn (0, [])"
    by (rule pop_open [OF small_shape(1) a small_open]) (simp add: delivered_def)
  have "case pconn_Front ?M small_conf open_conn (0, []) of
      Some (Inr (r1, c1), e1) \<Rightarrow> (case pconn_Front ?M small_conf c1 e1 of
        Some (Inr (r2, c2), e2) \<Rightarrow> front_result c2 = Some 0 \<and>
          (case load_at le_host 0 c2 of Inr h \<Rightarrow> msg_type h = 5 | Inl _ \<Rightarrow> False) \<and>
          (case pconn_Pop small_conf c2 of Inr c3 \<Rightarrow> True | Inl _ \<Rightarrow> False)
      | _ \<Rightarrow> False) | _ \<Rightarrow> False"
    by code_simp
  then obtain r1 c1 e1 where f1: "pconn_Front ?M small_conf open_conn (0, []) = Some (ok (r1, c1), e1)"
    and s: "case pconn_Front ?M small_conf c1 e1 of
        Some (Inr (r2, c2), e2) \<Rightarrow> front_result c2 = Some 0 \<and>
          (case load_at le_host 0 c2 of Inr h \<Rightarrow> msg_type h = 5 | Inl _ \<Rightarrow> False) \<and>
          (case pconn_Pop small_conf c2 of Inr c3 \<Rightarrow> True | Inl _ \<Rightarrow> False)
      | _ \<Rightarrow> False" by (rule ranE)
  from s obtain r2 c2 e2 where f2: "pconn_Front ?M small_conf c1 e1 = Some (ok (r2, c2), e2)"
    and fr: "front_result c2 = Some 0 \<and>
          (case load_at le_host 0 c2 of Inr h \<Rightarrow> msg_type h = 5 | Inl _ \<Rightarrow> False) \<and>
          (case pconn_Pop small_conf c2 of Inr c3 \<Rightarrow> True | Inl _ \<Rightarrow> False)" by (rule ranE)
  note f = f1 f2
  obtain h where h: "load_at le_host 0 c2 = ok h" "msg_type h = 5" using fr by (blast elim: okE)
  obtain c3 where c3: "pconn_Pop small_conf c2 = ok c3" using fr by (blast elim: okE)
  have p: "front_result c2 = Some 0" "load_at (c_order small_conf) 0 c2 = ok h" "msg_type h = 5" "pconn_Pop small_conf c2 = ok c3"
    using fr h c3 by simp_all
  have t: "msg_type h \<noteq> HeartbeatMsg_type" using p(3) by (simp add: HeartbeatMsg_type_def)
  note r = pop_pop [OF pop_front [OF pop_front [OF 0 f(1)] f(2)] p(1,2) t refl p(4)]
  from r pop_run_rx(2) [OF r] show ?thesis by (intro exI conjI) (assumption, simp_all)
qed

theorem exactly_once_across_connections_witness:
  "\<exists>q got. sessions (stream_os [] :: (nat \<times> u8 list) os) small_conf (stream_os (take 16 small_stream)) small_conf 0 q 1 [one_msg] got \<and>
     got = [frame_of le_host one_msg]"
proof -
  let ?N = "stream_os [] :: (nat \<times> u8 list) os" and ?M = "stream_os (take 16 small_stream)"
  obtain c q1 n where tx: "tx_run ?N small_conf 5 snd new_queue 0 [one_msg] 0 c (n, take 16 small_stream)" "q_ptr c = Some q1"
    using one_msg_sent by blast
  obtain got c1 e1 where rx: "pop_run ?M small_conf 5 (delivered (take 16 small_stream)) 0 got c1 e1" "length got = 1" "my_ack c1 = Some 1"
    using one_msg_popped by blast
  have inv: "ptcpq_inv (TcpQueueSize small_conf) (c_order small_conf) new_queue"
    using new_queue_inv by (simp add: small_conf_def)
  have s0: "sessions ?N small_conf ?M small_conf 0 new_queue 0 [] []"
    by (rule first_session [OF inv]) (simp_all add: new_queue_pending, simp add: ptcpq_new_def)
  have "sessions ?N small_conf ?M small_conf 0 q1 1 ([] @ [one_msg]) ([] @ got)"
  proof (rule next_session [OF s0 _ _ stream_os_send _ _ tx(2) _ stream_os_bounded stream_os_log rx(1) _ _ rx(3)])
    show "tx_run ?N small_conf 5 snd new_queue 0 (drop 0 (pending (c_order small_conf) new_queue) @ [one_msg]) 0 c (n, take 16 small_stream)"
      using tx(1) new_queue_pending by simp
    show "delivers (delivered (take 16 small_stream)) (snd (n, take 16 small_stream))"
      using stream_os_delivers by simp
  qed (simp_all add: ptcpq_new_def fits_def one_msg_def nblk_def)
  then have S: "sessions ?N small_conf ?M small_conf 0 q1 1 [one_msg] got" by simp
  have "got = map (frame_of (c_order small_conf)) (take (length got) [one_msg])"
    using exactly_once_across_connections [OF S] by simp
  then have "got = [frame_of le_host one_msg]" using rx(2) by simp
  with S show ?thesis by blast
qed

theorem stream_carries_messages_witness:
  "prefix (app_frames le_host (take 16 small_stream)) [frame_of le_host one_msg]"
proof -
  obtain c q1 n where tx: "tx_run (stream_os [] :: (nat \<times> u8 list) os) small_conf 5 snd new_queue 0 [one_msg] 0 c (n, take 16 small_stream)"
      "q_ptr c = Some q1"
    using one_msg_sent by blast
  have inv: "ptcpq_inv (TcpQueueSize small_conf) (c_order small_conf) new_queue"
    using new_queue_inv by (simp add: small_conf_def)
  from stream_carries_messages [OF tx(1) stream_os_send _ inv _ _ _ refl] new_queue_pending
  show ?thesis by simp
qed

end
