(* ===== verification/MarketFeed.thy ===== *)
theory MarketFeed
  imports MarketServer MarketClient EnvKept Delivery
begin

text \<open>
  The market data example as a whole: what the server posts, how the client takes it, and both
  together over TCP.
\<close>

section \<open>Blocks and bytes\<close>

lemma blit_shift: "blit v (length xs + k) (xs @ ys) = xs @ blit v k ys"
  by (simp add: blit_def)

lemma blit_inside: "k + length v \<le> length ys \<Longrightarrow> blit v k (ys @ zs) = blit v k ys @ zs"
  by (simp add: blit_def)

lemma header_set_type: "blit (mem16 E t) 2 (header_bytes E h) = header_bytes E (h\<lparr>msg_type := t\<rparr>)"
  by (simp add: blit_def header_bytes_def)

lemma blocks_set_type:
  assumes "i < length bl"
  shows "blit (mem16 E t) (8 * i + 2) (blocks_bytes E bl) = blocks_bytes E (bl[i := (bl ! i)\<lparr>msg_type := t\<rparr>])"
proof -
  have "blocks_bytes E bl = blocks_bytes E (take i bl) @ header_bytes E (bl ! i) @ blocks_bytes E (drop (Suc i) bl)"
    using id_take_nth_drop [OF assms] by (metis blocks_bytes_Cons blocks_bytes_append)
  moreover have "8 * i = length (blocks_bytes E (take i bl))" using assms by simp
  ultimately have "blit (mem16 E t) (8 * i + 2) (blocks_bytes E bl) =
      blocks_bytes E (take i bl) @ blit (mem16 E t) 2 (header_bytes E (bl ! i)) @ blocks_bytes E (drop (Suc i) bl)"
    by (simp only: blit_shift) (simp add: blit_inside)
  also have "\<dots> = blocks_bytes E (bl[i := (bl ! i)\<lparr>msg_type := t\<rparr>])"
    using assms by (simp add: header_set_type upd_conv_take_nth_drop blocks_bytes_append blocks_bytes_Cons)
  finally show ?thesis .
qed

lemma bytes_blocks_nil [simp]: "bytes_blocks E [] = []"
  by (simp add: bytes_blocks_def)

lemma bytes_blocks_step:
  assumes "length x = 8"
  shows "bytes_blocks E (x @ bs) = load_header E x # bytes_blocks E bs"
proof -
  have n: "length (x @ bs) div 8 = Suc (length bs div 8)" using assms by simp
  have u: "[0 ..< Suc (length bs div 8)] = 0 # map Suc [0 ..< length bs div 8]" by (simp only: upt_conv_Cons map_Suc_upt)
  have d: "drop (8 * Suc i) (x @ bs) = drop (8 * i) bs" for i using assms by simp
  have "load_header E (x @ bs) = load_header E x" using assms by (simp add: load_header_append)
  then show ?thesis unfolding bytes_blocks_def n u by (simp only: list.map map_map o_def d mult_0_right drop_0)
qed

lemma bytes_blocks_bytes [simp]: "bytes_blocks E (blocks_bytes E bl) = bl"
proof (induction bl)
  case (Cons b bl)
  have "load_header E (header_bytes E b) = b" using load_header_bytes [of E b "[]"] by simp
  then show ?case using Cons by (simp add: blocks_bytes_Cons bytes_blocks_step)
qed simp

lemma length_bytes_blocks [simp]: "length (bytes_blocks E bs) = length bs div 8"
  by (simp add: bytes_blocks_def)

lemma blocks_bytes_blocks: "length bs = 8 * n \<Longrightarrow> blocks_bytes E (bytes_blocks E bs) = bs"
proof (induction n arbitrary: bs)
  case (Suc n)
  define x where "x = take 8 bs"
  have "bs = x @ drop 8 bs" "length x = 8" using Suc.prems by (simp_all add: x_def)
  moreover have "blocks_bytes E (bytes_blocks E (drop 8 bs)) = drop 8 bs"
    using Suc.prems by (intro Suc.IH) simp
  ultimately show ?case
    by (metis blocks_bytes_Cons bytes_blocks_step header_bytes_load)
qed simp

lemma blocks_set_body:
  assumes "length bs = 8 * n" "j + n \<le> length bl"
  shows "blit bs (8 * j) (blocks_bytes E bl) = blocks_bytes E (blit (bytes_blocks E bs) j bl)"
proof -
  have s: "bl = take j bl @ seg j (j + n) bl @ drop (j + n) bl"
    using assms(2) by (metis append_take_drop_id le_add1 seg_append seg_def add_diff_cancel_left' drop_drop take_add append_assoc add.commute)
  have "blit bs (8 * j) (blocks_bytes E bl) =
      blocks_bytes E (take j bl) @ bs @ blocks_bytes E (drop (j + n) bl)"
  proof -
    have "blocks_bytes E bl = blocks_bytes E (take j bl) @ blocks_bytes E (seg j (j + n) bl) @ blocks_bytes E (drop (j + n) bl)"
      by (subst s) (simp only: blocks_bytes_append)
    moreover have "8 * j = length (blocks_bytes E (take j bl)) + 0" using assms(2) by simp
    ultimately have "blit bs (8 * j) (blocks_bytes E bl) = blocks_bytes E (take j bl) @
        blit bs 0 (blocks_bytes E (seg j (j + n) bl) @ blocks_bytes E (drop (j + n) bl))"
      by (simp only: blit_shift)
    then show ?thesis using assms by (simp add: blit_def)
  qed
  also have "\<dots> = blocks_bytes E (blit (bytes_blocks E bs) j bl)"
    using assms by (simp add: blit_def blocks_bytes_append blocks_bytes_blocks [OF assms(1)])
  finally show ?thesis .
qed

section \<open>Filling in a message of the TCP queue\<close>

text \<open>A connection that sends over TCP, with the queue \<open>q\<close>.\<close>

definition tcp_conn :: "tconn \<Rightarrow> ptcpq \<Rightarrow> tconn" where
  "tcp_conn c q = c\<lparr>ptcp_conn := (ptcp_conn c)\<lparr>q_ptr := Some q\<rparr>\<rparr>"

lemma tx_fill_queue:
  assumes q: "q_ptr (ptcp_conn c) = Some q" and fs: "laid_out 0 fs (8 * k)"
    and room: "unat (write_idx q) + Suc k \<le> length (blk q)"
  obtains old body q1 where "length old = 8 * k" "length body = k" "ptcpq_fill t body q = ok q1"
    "tx_fill E t (8 * k) fs (InQueue (write_idx q)) c = ok (tcp_conn c q1)"
    "blocks_bytes E body = set_fields fs old"
proof -
  let ?w = "unat (write_idx q)"
  define bl where "bl = (blk q)[?w := (blk q ! ?w)\<lparr>msg_type := t\<rparr>]"
  define old where "old = blocks_bytes E (seg (Suc ?w) (Suc ?w + k) bl)"
  define bs where "bs = set_fields fs old"
  define body where "body = bytes_blocks E bs"
  have lbl: "length bl = length (blk q)" by (simp add: bl_def)
  have lold: "length old = 8 * k" using room by (simp add: old_def lbl)
  have lbs: "length bs = 8 * k" using fs lold by (simp add: bs_def)
  then have lbody: "length body = k" by (simp add: body_def)
  define q1 where "q1 = q\<lparr>blk := blit body (Suc ?w) bl\<rparr>"
  have fill: "ptcpq_fill t body q = ok q1"
    using room by (simp add: ptcpq_fill_def Let_def lbody q1_def bl_def)
  have w1: "write_at (mem16 E t) (8 * ?w + 2) (blocks_bytes E (blk q)) = ok (blocks_bytes E bl)"
    using room blocks_set_type [of ?w "blk q" E t] by (simp add: write_at_def bl_def)
  have r: "read_at (8 * ?w + 8) (8 * k) (blocks_bytes E bl) = ok old"
    using room seg_blocks_bytes [of "Suc ?w" "Suc ?w + k" bl E]
    by (simp add: read_at_def lbl old_def algebra_simps)
  have w2: "write_at bs (8 * ?w + 8) (blocks_bytes E bl) = ok (blocks_bytes E (blit body (Suc ?w) bl))"
    using room blocks_set_body [OF lbs, of "Suc ?w" bl E]
    by (simp add: write_at_def lbs lbl body_def algebra_simps)
  have "tx_fill E t (8 * k) fs (InQueue (write_idx q)) c = ok (tcp_conn c q1)"
    using q by (simp add: tx_fill_def tx_mem_def deref_def w1 r w2 bs_def [symmetric] tx_put_def tcp_conn_def q1_def
      del: add_2_eq_Suc add_2_eq_Suc')
  then show thesis
    using that [OF lold lbody fill] by (simp add: body_def bs_def [symmetric] blocks_bytes_blocks [OF lbs])
qed

text \<open>
  One call over TCP: with space it is a post of the message in the queue and a \<open>SendPending\<close>,
  without it nothing happens.
\<close>

lemma tx_type_ok:
  assumes "q_ptr (ptcp_conn c) = Some q" "unat i < length (blk q)"
  shows "tx_type E (InQueue i) c = ok (msg_type (blk q ! unat i))"
proof -
  let ?i = "unat i"
  have "seg (8 * ?i) (8 * Suc ?i) (blocks_bytes E (blk q)) = header_bytes E (blk q ! ?i)"
    using seg_blocks_bytes [of ?i "Suc ?i" "blk q" E] assms(2) seg_Cons [of ?i "Suc ?i" "blk q"]
    by (simp add: blocks_bytes_Cons)
  then have "seg (8 * ?i + 2) (8 * ?i + 4) (blocks_bytes E (blk q)) = seg 2 4 (header_bytes E (blk q ! ?i))"
    using seg_of_seg [of "8 * ?i" 4 "8 * Suc ?i" 2 "blocks_bytes E (blk q)"] by simp
  also have "\<dots> = mem16 E (msg_type (blk q ! ?i))"
    by (simp add: header_bytes_def seg_def)
  finally show ?thesis
    using assms by (simp add: tx_type_def tx_mem_def deref_def read_at_def add.assoc del: add_2_eq_Suc add_2_eq_Suc')
qed

lemma tcp_conn_sel [simp]:
  "shm_sendq (tcp_conn c q) = shm_sendq c" "shm_recvq (tcp_conn c q) = shm_recvq c"
  "ptcp_conn (tcp_conn c q) = (ptcp_conn c)\<lparr>q_ptr := Some q\<rparr>"
  "tcp_conn (tcp_conn c q) q' = tcp_conn c q'"
  by (simp_all add: tcp_conn_def)

lemma tcp_conn_same: "q_ptr (ptcp_conn c) = Some q \<Longrightarrow> tcp_conn c q = c"
  by (intro tconn.equality pconn.equality) (simp_all add: tcp_conn_def)

text \<open>\<open>SendPending\<close> always returns, and changes no block of the queue.\<close>

lemma SendPending_blocks:
  assumes "q_ptr c = Some q" "ptcpq_inv Bytes (c_order cf) q" "IsClosed c \<or> send_log N (sockfd c) log"
  obtains b c1 e1 n where "SendPending N cf c e = Some (ok (b, c1), e1)" "q_ptr c1 = Some (q\<lparr>send_idx := n\<rparr>)"
proof (cases "IsClosed c")
  case True
  then show thesis using assms(1) that [of False c e "send_idx q"] by (simp add: SendPending_def)
next
  case False
  then have log: "send_log N (sockfd c) log" using assms(3) by simp
  show thesis
  proof (cases rule: SendPending_ok [OF assms(1,2) False log refl, of e])
    case (1 b c1 e1 n)
    then show thesis using that by blast
  next
    case (2 c1 e1 k err)
    then show thesis using that [of False c1 e1 "send_idx q"] by simp
  qed
qed

lemma msg_blocks_of:
  assumes "8 * k \<le> 65527"
  shows "msg_blocks (of_nat (8 * k)) = Suc k" and "unat (of_nat (8 * k) :: u16) = 8 * k"
proof -
  show us: "unat (of_nat (8 * k) :: u16) = 8 * k"
    using assms unfolding unat_of_nat by simp
  have "unat (of_nat (8 * k) + 8 :: u16) = 8 * k + 8"
    using unat_user_size [of "of_nat (8 * k)"] assms us by simp
  then show "msg_blocks (of_nat (8 * k)) = Suc k" by (simp add: msg_blocks_def unat_blk_size)
qed

lemma send_msg_tcp:
  assumes tcp: "shm_sendq c = None" "q_ptr (ptcp_conn c) = Some q"
    and inv: "ptcpq_inv (TcpQueueSize cf) (c_order cf) q"
    and log: "IsClosed (ptcp_conn c) \<or> send_log N (sockfd (ptcp_conn c)) log"
    and len: "8 * k \<le> 65527"
    and mk: "mk a e = (fs, shows, a1, e1)" and fs: "laid_out 0 fs (8 * k)"
  obtains (full) "ptcpq_free q < Suc k" "send_msg N cf (8 * k) t mk c a e = Some (ok (c, a), e)"
  | (posted) old body q1 b pc2 e2 where "Suc k \<le> ptcpq_free q"
      "length old = 8 * k" "length body = k" "blocks_bytes (c_order cf) body = set_fields fs old"
      "ptcpq_post (TcpQueueSize cf) (c_order cf) (of_nat (8 * k)) t body q = ok (True, q1)"
      "SendPending N cf ((ptcp_conn c)\<lparr>q_ptr := Some q1\<rparr>) e1 = Some (ok (b, pc2), e2)"
      "send_msg N cf (8 * k) t mk c a e = Some (ok (c\<lparr>ptcp_conn := pc2\<rparr>,
         count_sent (Convert16 (c_order cf) t) (a1\<lparr>ms_log := ms_log a1 @ [LogSent t shows]\<rparr>)), e2)"
proof -
  let ?E = "c_order cf" and ?us = "of_nat (8 * k) :: u16"
  note us = msg_blocks_of [OF len]
  have alloc: "tconn_Alloc cf ?us c = chk_bind (ptcpq_Alloc (TcpQueueSize cf) ?us q)
      (\<lambda>(p, q1). ok (map_option InQueue p, tcp_conn c q1))"
    using tcp by (simp add: tconn_Alloc_def pconn_Alloc_def deref_def tcp_conn_def chk_bind_def split: sum.splits prod.splits)
  show thesis
  proof (cases "ptcpq_free q < Suc k")
    case True
    then have "ptcpq_Alloc (TcpQueueSize cf) ?us q = ok (None, q)"
      using Alloc_null_iff(2) [OF inv, of ?us] us by simp
    then have "send_msg N cf (8 * k) t mk c a e = Some (ok (c, a), e)"
      using alloc tcp_conn_same [OF tcp(2)] by (simp add: send_msg_def Let_def)
    then show thesis using full [OF True] by simp
  next
    case False
    then have room: "msg_blocks ?us \<le> ptcpq_free q" using us by simp
    obtain q0 where q0: "ptcpq_Alloc (TcpQueueSize cf) ?us q = ok (Some (write_idx q0), q0)"
        "ptcpq_inv (TcpQueueSize cf) ?E q0" "unat (write_idx q0) + msg_blocks ?us \<le> length (blk q0)"
      by (rule Alloc_ok [OF inv _ room]) (use us len in simp)
    obtain old body q2 where f: "length old = 8 * k" "length body = k" "ptcpq_fill t body q0 = ok q2"
        "tx_fill ?E t (8 * k) fs (InQueue (write_idx q0)) (tcp_conn c q0) = ok (tcp_conn c q2)"
        "blocks_bytes ?E body = set_fields fs old"
      by (rule tx_fill_queue [of "tcp_conn c q0" q0 fs k t ?E, OF _ fs]) (use q0(3) us in simp_all)
    have mb: "msg_blocks ?us = Suc (length body)" and us1: "unat ?us \<le> 65527" using us f(2) len by simp_all
    obtain q1 where post: "ptcpq_post (TcpQueueSize cf) ?E ?us t body q = ok (True, q1)" "ptcpq_inv (TcpQueueSize cf) ?E q1"
      by (rule post_ok [OF inv us1 room mb]) blast
    then have push: "ptcpq_Push ?E q2 = ok q1"
      using q0(1) f(3) by (auto simp: ptcpq_post_def split: sum.splits)
    have w: "write_idx q2 = write_idx q0" "msg_type (blk q2 ! unat (write_idx q0)) = t" "unat (write_idx q0) < length (blk q2)"
      using f(3) by (auto simp: ptcpq_fill_def Let_def nth_blit split: if_splits)
    then have ty: "msg_type (blk q1 ! unat (write_idx q0)) = Convert16 ?E t" "unat (write_idx q0) < length (blk q1)"
      using push by (auto simp: ptcpq_Push_def Let_def)
    obtain b pc2 e2 n where sp: "SendPending N cf ((ptcp_conn c)\<lparr>q_ptr := Some q1\<rparr>) e1 = Some (ok (b, pc2), e2)"
        "q_ptr pc2 = Some (q1\<lparr>send_idx := n\<rparr>)"
      by (rule SendPending_blocks [of "(ptcp_conn c)\<lparr>q_ptr := Some q1\<rparr>" q1, OF _ post(2)])
        (use log in \<open>simp_all add: IsClosed_def\<close>)
    have pushed: "tconn_Push N cf (tcp_conn c q2) e1 = Some (ok (c\<lparr>ptcp_conn := pc2\<rparr>), e2)"
      using tcp(1) push sp(1)
      by (simp add: tconn_Push_def pconn_Push_def pconn_PushMore_def deref_def with_pconn_def tcp_conn_def)
    have type: "tx_type ?E (InQueue (write_idx q0)) (c\<lparr>ptcp_conn := pc2\<rparr>) = ok (Convert16 ?E t)"
      using tx_type_ok [of "c\<lparr>ptcp_conn := pc2\<rparr>" "q1\<lparr>send_idx := n\<rparr>" "write_idx q0" ?E] sp(2) ty by simp
    have "send_msg N cf (8 * k) t mk c a e = Some (ok (c\<lparr>ptcp_conn := pc2\<rparr>,
        count_sent (Convert16 ?E t) (a1\<lparr>ms_log := ms_log a1 @ [LogSent t shows]\<rparr>)), e2)"
      using alloc q0(1) mk f(4) pushed type by (simp add: send_msg_def Let_def and_then_def)
    then show thesis using posted [OF _ f(1,2,5) post(1) sp(1)] False by simp
  qed
qed

section \<open>What the makers make\<close>

lemma smod_int_nat: "0 < m \<Longrightarrow> int n smod int m = int (n mod m)"
  by (cases "n = 0") (simp_all add: signed_modulo_int_def zmod_int)

lemma smod_120 [simp]: "int n smod 120 = int (n mod 120)"
  using smod_int_nat [of 120 n] by simp

text \<open>The source of random numbers and of the time leaves the socket alone.\<close>

definition quiet :: "'e source \<Rightarrow> ('e \<Rightarrow> 'l) \<Rightarrow> bool" where
  "quiet G log \<longleftrightarrow>
     (\<forall>lo hi e. log (snd (uniform_real G lo hi e)) = log e) \<and>
     (\<forall>lo hi e. log (snd (uniform_int G lo hi e)) = log e) \<and>
     (\<forall>e. log (snd (clock_gettime G e)) = log e)"

lemma quietD:
  assumes "quiet G log"
  shows "RandomOffset F G e = (x, e1) \<Longrightarrow> log e1 = log e"
    and "RandomSize G e = (r, e1) \<Longrightarrow> log e1 = log e"
    and "now G e = (t, e1) \<Longrightarrow> log e1 = log e"
  using assms by (auto simp: quiet_def RandomOffset_def RandomSize_def now_def split: prod.splits) (metis snd_conv)+

definition maker_ok :: "byte_order \<Rightarrow> ('e \<Rightarrow> 'l) \<Rightarrow> nat \<Rightarrow> nat \<Rightarrow> 'e maker \<Rightarrow> bool" where
  "maker_ok E log i n mk \<longleftrightarrow>
     (\<forall>a e fs shows a1 e1. mk a e = (fs, shows, a1, e1) \<longrightarrow>
        laid_out 0 fs n \<and> (0, mem32 E (word_of_int (int (i mod 120)))) \<in> set fs \<and> log e1 = log e)"

lemma make_levels_ok:
  "quiet G log \<Longrightarrow> make_levels F G base is e = (bids, asks, e1) \<Longrightarrow>
     length bids = length is \<and> length asks = length is \<and> log e1 = log e"
proof (induction F G base "is" e arbitrary: bids asks e1 rule: make_levels.induct)
  case (2 F G base i "is" e)
  obtain off1 ea r1 eb off2 ec r2 ed where r: "RandomOffset F G e = (off1, ea)" "RandomSize G ea = (r1, eb)"
      "RandomOffset F G eb = (off2, ec)" "RandomSize G ec = (r2, ed)"
    by (metis surj_pair)
  obtain bs as e5 where m: "make_levels F G base is ed = (bs, as, e5)" by (metis surj_pair)
  have q: "log ed = log e" using quietD(1,2) [OF 2(2)] r by metis
  have IH: "length bs = length is \<and> length as = length is \<and> log e5 = log ed"
    by (rule 2(1) [OF refl r(1) [symmetric] refl refl r(2) [symmetric] refl refl r(3) [symmetric] refl refl
          r(4) [symmetric] refl refl 2(2) m])
  then show ?case using 2(3) r m q by (auto simp: Let_def)
qed simp

lemma depth_first: "word_of_int (md_instrument_id m) = w \<Longrightarrow> (0, mem32 E w) \<in> set (depth_fields E m)"
  by (simp add: depth_fields_def at_defs)

lemma trade_first: "word_of_int (tr_instrument_id m) = w \<Longrightarrow> (0, mem32 E w) \<in> set (trade_fields E m)"
  by (simp add: trade_fields_def at_defs)

lemma volatility_first:
  "word_of_int (vo_instrument_id m) = w \<Longrightarrow> (0, mem32 E w) \<in> set (volatility_fields E m)"
  by (simp add: volatility_fields_def at_defs)

lemma kline_first: "word_of_int (kl_instrument_id m) = w \<Longrightarrow> (0, mem32 E w) \<in> set (kline_fields E m)"
  by (simp add: kline_fields_def at_defs)

lemma ticker_first: "word_of_int (ti_instrument_id m) = w \<Longrightarrow> (0, mem32 E w) \<in> set (ticker_fields E m)"
  by (simp add: ticker_fields_def at_defs)

lemma make_depth_ok:
  assumes "quiet G log"
  shows "maker_ok E log i 168 (make_depth E F G (int (i mod 120)))"
proof -
  have "five bids \<and> five asks \<and> log e1 = log e" if "make_levels F G b [0 .. 4] e = (bids, asks, e1)" for b e bids asks e1
    using make_levels_ok [OF assms that] by (simp add: five_def)
  then show ?thesis
    by (auto simp: maker_ok_def make_depth_def Let_def split: prod.splits intro!: depth_first depth_laid_out)
qed

lemma make_trade_ok:
  assumes "quiet G log"
  shows "maker_ok E log i 40 (make_trade E F G (int (i mod 120)))"
  using quietD [OF assms]
  by (auto simp: maker_ok_def make_trade_def Let_def split: prod.splits intro!: trade_first trade_laid_out)

lemma make_volatility_ok:
  assumes "quiet G log"
  shows "maker_ok E log i 40 (make_volatility E F G (int (i mod 120)))"
  using quietD [OF assms]
  by (auto simp: maker_ok_def make_volatility_def random_volatility_def Let_def split: prod.splits
      intro!: volatility_first volatility_laid_out)

lemma make_kline_ok:
  assumes "quiet G log"
  shows "maker_ok E log i 56 (make_kline E F G (int (i mod 120)))"
  using quietD [OF assms]
  by (auto simp: maker_ok_def make_kline_def Let_def split: prod.splits intro!: kline_first kline_laid_out)

lemma make_ticker_ok:
  assumes "quiet G log"
  shows "maker_ok E log i 64 (make_ticker E F G (int (i mod 120)))"
  using quietD [OF assms]
  by (auto simp: maker_ok_def make_ticker_def Let_def split: prod.splits intro!: ticker_first ticker_laid_out)

section \<open>The feed\<close>

text \<open>
  The \<open>i\<close>-th message of the feed: the types go round from 5 to 9 and the instruments from 0 to 119.
\<close>

definition feed_type :: "nat \<Rightarrow> u16" where
  "feed_type i = of_nat (5 + i mod 5)"

definition feed_msg :: "byte_order \<Rightarrow> nat \<Rightarrow> pmsg \<Rightarrow> bool" where
  "feed_msg E i m \<longleftrightarrow>
     msg_type (fst m) = feed_type i \<and> hdr_size (fst m) = of_nat (body_size (feed_type i) + 8) \<and>
     8 * length (snd m) = body_size (feed_type i) \<and>
     get_int E 0 (blocks_bytes E (snd m)) = int (i mod 120)"

lemma feed_types:
  obtains "i mod 5 = 0" "feed_type i = 5" "body_size (feed_type i) = 168"
  | "i mod 5 = 1" "feed_type i = 6" "body_size (feed_type i) = 40"
  | "i mod 5 = 2" "feed_type i = 7" "body_size (feed_type i) = 40"
  | "i mod 5 = 3" "feed_type i = 8" "body_size (feed_type i) = 56"
  | "i mod 5 = 4" "feed_type i = 9" "body_size (feed_type i) = 64"
proof -
  have "i mod 5 < 5" by simp
  then consider "i mod 5 = 0" | "i mod 5 = 1" | "i mod 5 = 2" | "i mod 5 = 3" | "i mod 5 = 4" by linarith
  then show thesis
    by cases (simp_all add: that feed_type_def body_size_def MarketDepthMsg_type_def TradeMsg_type_def
        VolatilityMsg_type_def KLineMsg_type_def TickerMsg_type_def sizeof_defs)
qed

lemma feed_type_facts: "feed_type i \<noteq> HeartbeatMsg_type" "body_size (feed_type i) \<le> 168" "\<not> feed_type i \<le> 4"
  by (cases rule: feed_types [of i]; simp add: HeartbeatMsg_type_def)+

lemma send_next_maker:
  assumes "quiet G log"
  obtains k mk where "send_next N cf F G i = send_msg N cf (8 * k) (feed_type i) mk"
    "maker_ok (c_order cf) log i (8 * k) mk" "body_size (feed_type i) = 8 * k"
proof -
  let ?i = "int (i mod 120)"
  note ok = make_depth_ok [OF assms] make_trade_ok [OF assms] make_volatility_ok [OF assms]
    make_kline_ok [OF assms] make_ticker_ok [OF assms]
  note types = MarketDepthMsg_type_def TradeMsg_type_def VolatilityMsg_type_def KLineMsg_type_def TickerMsg_type_def
  show thesis
  proof (cases rule: feed_types [of i])
    case 1
    then show thesis
      using that [of 21 "make_depth (c_order cf) F G ?i"] ok(1)
      by (simp add: send_next_def SendMarketDepthMsg_def types sizeof_defs)
  next
    case 2
    then show thesis
      using that [of 5 "make_trade (c_order cf) F G ?i"] ok(2)
      by (simp add: send_next_def SendTradeMsg_def types sizeof_defs)
  next
    case 3
    then show thesis
      using that [of 5 "make_volatility (c_order cf) F G ?i"] ok(3)
      by (simp add: send_next_def SendVolatilityMsg_def types sizeof_defs)
  next
    case 4
    then show thesis
      using that [of 7 "make_kline (c_order cf) F G ?i"] ok(4)
      by (simp add: send_next_def SendKLineMsg_def types sizeof_defs)
  next
    case 5
    then show thesis
      using that [of 8 "make_ticker (c_order cf) F G ?i"] ok(5)
      by (simp add: send_next_def SendTickerMsg_def types sizeof_defs)
  qed
qed

text \<open>What is posted for the place \<open>i\<close> of the feed, and what happens when there is no space.\<close>

lemma send_next_tcp:
  assumes tcp: "shm_sendq c = None" "q_ptr (ptcp_conn c) = Some q"
    and inv: "ptcpq_inv (TcpQueueSize cf) (c_order cf) q"
    and log: "IsClosed (ptcp_conn c) \<or> send_log N (sockfd (ptcp_conn c)) log" and G: "quiet G log"
  obtains (full) "8 * ptcpq_free q < body_size (feed_type i) + 8"
      "send_next N cf F G i c a e = Some (ok (c, a), e)"
  | (posted) us body q1 b pc2 e1 e2 a2 where
      "body_size (feed_type i) + 8 \<le> 8 * ptcpq_free q"
      "unat us = body_size (feed_type i)" "msg_blocks us = Suc (length body)"
      "ptcpq_post (TcpQueueSize cf) (c_order cf) us (feed_type i) body q = ok (True, q1)"
      "feed_msg (c_order cf) i (\<lparr>hdr_size = us + 8, msg_type = feed_type i, ack_seq = n\<rparr>, body)"
      "log e1 = log e"
      "SendPending N cf ((ptcp_conn c)\<lparr>q_ptr := Some q1\<rparr>) e1 = Some (ok (b, pc2), e2)"
      "send_next N cf F G i c a e = Some (ok (c\<lparr>ptcp_conn := pc2\<rparr>, a2), e2)"
proof -
  obtain k mk where mk: "send_next N cf F G i = send_msg N cf (8 * k) (feed_type i) mk"
      "maker_ok (c_order cf) log i (8 * k) mk" "body_size (feed_type i) = 8 * k"
    by (rule send_next_maker [OF G])
  obtain fs sh a1 e1 where m: "mk a e = (fs, sh, a1, e1)" by (metis surj_pair)
  with mk(2) have fs: "laid_out 0 fs (8 * k)" "(0, mem32 (c_order cf) (word_of_int (int (i mod 120)))) \<in> set fs"
      "log e1 = log e"
    by (auto simp: maker_ok_def)
  have k: "8 * k \<le> 65527" using feed_type_facts(2) [of i] mk(3) by simp
  note us = msg_blocks_of [OF k]
  show thesis
  proof (cases rule: send_msg_tcp [where mk = mk and t = "feed_type i" and a = a and e = e, OF tcp inv log k m fs(1)])
    case 1
    then show thesis using full mk by simp
  next
    case (2 old body q1 b pc2 e2)
    have "int_ok (int (i mod 120))" by (simp add: int_ok_def)
    then have "get_int (c_order cf) 0 (set_fields fs old) = int (i mod 120)"
      using get_int_set [of 0 fs old "int (i mod 120)"] fs 2(2) by simp
    then have "feed_msg (c_order cf) i (\<lparr>hdr_size = of_nat (8 * k) + 8, msg_type = feed_type i, ack_seq = n\<rparr>, body)"
      using 2(3,4) mk(3) by (simp add: feed_msg_def)
    then show thesis
      using posted [OF _ _ _ 2(5) _ fs(3) 2(6) 2(7) [folded mk(1)]] 2(1,3) us mk(3) by simp
  qed
qed

section \<open>The client's side\<close>

text \<open>
  The handlers accept a message exactly when its instrument is the number of messages received so
  far modulo 120.  As long as no time of sending is recorded, only the count and the log change.
\<close>

definition body_id :: "byte_order \<Rightarrow> u8 list \<Rightarrow> int" where
  "body_id E body = get_int E 0 body"

lemma accept_msg_cases:
  "accept_msg G t v sh mc w =
     (if v \<noteq> recv_num mc smod 120 then None
      else if msg_sent_time mc (word_of_int (recv_num mc)) = None then
        Some ((mlog (LogReceived t (sh @ [ShowInt (recv_num mc + 1), ShowInt MaxNum])) mc)\<lparr>recv_num := recv_num mc + 1\<rparr>,
          snd (now G w))
      else accept_msg G t v sh mc w)"
  by (auto simp: accept_msg_def Let_def mlog_def split: prod.splits option.splits)

lemma accept_msg_none: "accept_msg G t v sh mc w = None \<longleftrightarrow> v \<noteq> recv_num mc smod 120"
  by (auto simp: accept_msg_def Let_def split: prod.splits)

lemma handle_feed_body:
  obtains sh where "handle_body E G (feed_type i) body = accept_msg G (feed_type i) (body_id E body) sh"
  by (cases rule: feed_types [of i])
     (auto simp: handle_body_def fun_eq_iff handleMarketDepthMsg_def handleTradeMsg_def handleVolatilityMsg_def
       handleKLineMsg_def handleTickerMsg_def load_depth_def load_trade_def load_volatility_def load_kline_def
       load_ticker_def Let_def body_id_def MarketDepthMsg_type_def TradeMsg_type_def VolatilityMsg_type_def
       KLineMsg_type_def TickerMsg_type_def)

text \<open>The client takes frames one after the other.\<close>

fun take_frames ::
  "byte_order \<Rightarrow> 'w source \<Rightarrow> frame list \<Rightarrow> market_client \<Rightarrow> 'w \<Rightarrow> (market_client \<times> 'w) option"
where
  "take_frames E G [] mc w = Some (mc, w)"
| "take_frames E G ((h, body) # fs) mc w =
     (case handle_body E G (msg_type h) (take (body_size (msg_type h)) body) mc w of
        None \<Rightarrow> None
      | Some (mc1, w1) \<Rightarrow> take_frames E G fs mc1 w1)"

lemma take_frames_append:
  "take_frames E G (fs @ gs) mc w =
     (case take_frames E G fs mc w of None \<Rightarrow> None | Some (mc1, w1) \<Rightarrow> take_frames E G gs mc1 w1)"
  by (induction fs arbitrary: mc w) (auto split: option.splits)

lemma feed_frame_body:
  assumes "feed_msg E i m" "frame_of E m = (h, body)"
  shows "msg_type h = feed_type i" "take (body_size (feed_type i)) body = body" "body_id E body = int (i mod 120)"
  using assms by (auto simp: feed_msg_def frame_of_def body_id_def)

lemma take_feed:
  assumes "\<forall>j < length ms. feed_msg E (n + j) (ms ! j)" "recv_num mc = int n" "msg_sent_time mc = Map.empty"
  shows "\<exists>mc1 w1. take_frames E G (map (frame_of E) ms) mc w = Some (mc1, w1) \<and>
    recv_num mc1 = int (n + length ms) \<and> msg_sent_time mc1 = Map.empty \<and> stats_of mc1 = stats_of mc"
  using assms
proof (induction ms arbitrary: n mc w)
  case (Cons m ms)
  obtain h body where f: "frame_of E m = (h, body)" by (cases "frame_of E m")
  have "feed_msg E n m" using Cons.prems(1) by (auto dest: spec [of _ 0])
  note F = feed_frame_body [OF this f]
  obtain sh where s: "handle_body E G (feed_type n) body = accept_msg G (feed_type n) (body_id E body) sh"
    by (rule handle_feed_body)
  define mc0 where "mc0 = (mlog (LogReceived (feed_type n) (sh @ [ShowInt (recv_num mc + 1), ShowInt MaxNum])) mc)
    \<lparr>recv_num := recv_num mc + 1\<rparr>"
  have "handle_body E G (feed_type n) body mc w = Some (mc0, snd (now G w))"
    using Cons.prems(2,3) F(3) accept_msg_cases [of G "feed_type n" "body_id E body" sh mc w]
    by (simp add: s mc0_def)
  moreover have "\<exists>mc1 w1. take_frames E G (map (frame_of E) ms) mc0 (snd (now G w)) = Some (mc1, w1) \<and>
      recv_num mc1 = int (Suc n + length ms) \<and> msg_sent_time mc1 = Map.empty \<and> stats_of mc1 = stats_of mc0"
  proof (rule Cons.IH)
    show "\<forall>j < length ms. feed_msg E (Suc n + j) (ms ! j)"
      using Cons.prems(1) by (metis Suc_less_eq add_Suc_shift length_Cons nth_Cons_Suc)
  qed (use Cons.prems(2,3) in \<open>simp_all add: mc0_def mlog_def\<close>)
  moreover have "stats_of mc0 = stats_of mc" by (simp add: mc0_def mlog_def)
  ultimately show ?case by (simp add: f F)
qed simp

text \<open>\<open>OnServerMsg\<close> gives the handler the frame that \<open>Front\<close> found, and pops it.\<close>

lemma OnServerMsg_frame:
  assumes h: "load_at (c_order cf) i (ptcp_conn c) = ok h" and len: "frame_len h = 8 + length body"
    and body: "body = seg (unat i + 8) (unat i + frame_len h) (recvbuf (ptcp_conn c))"
    and n: "body_size (msg_type h) \<le> length body"
  shows "market_OnServerMsg cf G (InRecvBuf i) c (w, mc) =
    map_option (\<lambda>(mc1, w1). (tconn_Pop cf c, (w1, mc1)))
      (take_frames (c_order cf) G [(h, body)] mc w)"
proof -
  let ?b = "recvbuf (ptcp_conn c)" and ?n = "body_size (msg_type h)"
  have l: "unat i + 8 \<le> length ?b" and h': "h = load_header (c_order cf) (drop (unat i) ?b)"
    using h by (auto simp: load_at_def split: if_splits)
  have "length body \<le> length ?b - (unat i + 8)" unfolding body by simp
  then have in_range: "unat i + 8 + ?n \<le> length ?b" using l n by linarith
  have "rx_header (c_order cf) (InRecvBuf i) c = ok h"
    using l h' by (simp add: rx_header_def rx_mem_def tx_mem_def read_at_def seg_def load_header_take)
  moreover have "seg (unat i + 8) (unat i + 8 + ?n) ?b = take ?n body"
    unfolding body take_seg using n len by (simp add: min_def add.assoc)
  then have "rx_body (c_order cf) ?n (InRecvBuf i) c = ok (take ?n body)"
    using in_range by (simp add: rx_body_def rx_mem_def tx_mem_def read_at_def)
  ultimately show ?thesis
    by (simp add: market_OnServerMsg_def split: option.splits)
qed

section \<open>What a run of the client measures\<close>

text \<open>The client's variables are a part of the environment that no system call touches.\<close>

interpretation own: env_kept "lift_os N" snd for N
  by unfold_locales (simp_all add: lift_os_def lift_call_def lift_env_def split: prod.splits)

text \<open>Nothing has been sent, so nothing is measured.\<close>

definition unmeasured :: "market_client \<Rightarrow> bool" where
  "unmeasured mc \<longleftrightarrow> msg_sent mc = 0 \<and> send_num mc = 0 \<and> msg_sent_time mc = Map.empty \<and>
     (\<forall>t s. Mapping.lookup (stats_of mc) t = Some s \<longrightarrow> ls_count s = 0)"

lemma unmeasured_cong:
  "msg_sent a = msg_sent b \<Longrightarrow> send_num a = send_num b \<Longrightarrow> msg_sent_time a = msg_sent_time b \<Longrightarrow>
     stats_of a = stats_of b \<Longrightarrow> unmeasured b \<Longrightarrow> unmeasured a"
  by (simp add: unmeasured_def)

lemma accept_msg_unmeasured:
  assumes "accept_msg G t v sh mc w = Some (mc1, w1)" "unmeasured mc"
  shows "unmeasured mc1"
proof -
  have "mc1 = (mlog (LogReceived t (sh @ [ShowInt (recv_num mc + 1), ShowInt MaxNum])) mc)\<lparr>recv_num := recv_num mc + 1\<rparr>"
    using assms accept_msg_cases [of G t v sh mc w] by (auto simp: unmeasured_def split: if_splits)
  then show ?thesis using assms(2) by (simp add: unmeasured_def mlog_def)
qed

lemma handleMsg_unmeasured: "handleMsg E vs mc = Some mc1 \<Longrightarrow> unmeasured mc \<Longrightarrow> unmeasured mc1"
proof (induction E vs mc rule: handleMsg.induct)
  case (2 E v vs mc)
  have "unmeasured (mc\<lparr>recv_num := recv_num mc + 1\<rparr>)" using 2(3) by (simp add: unmeasured_def)
  then show ?case using 2 by (simp split: if_splits)
qed simp

lemma handle_body_unmeasured:
  "handle_body E G t body mc w = Some (mc1, w1) \<Longrightarrow> unmeasured mc \<Longrightarrow> unmeasured mc1"
  by (auto simp: handle_body_def handleMarketDepthMsg_def handleTradeMsg_def handleVolatilityMsg_def
      handleKLineMsg_def handleTickerMsg_def Let_def
      dest: handleMsg_unmeasured accept_msg_unmeasured split: if_splits)

lemma OnServerMsg_unmeasured:
  "OnServerMsg (market_client_app cf G) p c e = Some (r, e1) \<Longrightarrow> unmeasured (snd e) \<Longrightarrow> unmeasured (snd e1)"
  by (auto simp: market_client_app_def market_OnServerMsg_def Let_def dest: handle_body_unmeasured split: prod.splits sum.splits)

lemma run_tcp_unmeasured:
  assumes "run_tcp N S G cl e = Some (r, e1)" "unmeasured (snd e)"
  shows "unmeasured (snd e1)"
proof -
  let ?P = "\<lambda>(N :: 'a os) S (G :: 'a source) cl (e :: 'a \<times> market_client) y. unmeasured (snd e) \<longrightarrow> unmeasured (snd (snd y))"
  have "?P N S G cl e (r, e1)"
  proof (rule run_tcp.raw_induct [where P = ?P, OF _ assms(1)])
    fix rec and N :: "'a os" and S and G :: "'a source" and cl and e :: "'a \<times> market_client" and y
    assume IH: "\<And>N S G cl e y. rec N S G cl e = Some y \<Longrightarrow> ?P N S G cl e y"
      and eq: "(if tconn_IsClosed (cli_conn cl) then Some (ok cl, e)
        else if PollNum (snd e) then
          (case now G (fst e) of
             (t, w1) \<Rightarrow> Some (ok (cl\<lparr>cli_conn := tconn_Close (cli_conn cl)\<rparr>), (w1, (snd e)\<lparr>stop_time := t\<rparr>)))
        else
          (case now G (fst e) of
             (t, w1) \<Rightarrow>
               (case client_PollTcp (lift_os N) S (market_client_app (s_conf S) G) (sint t) cl (w1, snd e) of
                  None \<Rightarrow> None
                | Some (Inl f, e1) \<Rightarrow> Some (Inl f, e1)
                | Some (Inr cl1, e1) \<Rightarrow> rec N S G cl1 e1))) = Some y"
    have poll: "unmeasured (snd e2)" if "client_PollTcp (lift_os N) S (market_client_app (s_conf S) G) t cl (w1, snd e) = Some (r2, e2)"
        "unmeasured (snd e)" for t w1 r2 e2
      using own.client_PollTcp_env [where P = unmeasured, OF _ that(1)] OnServerMsg_unmeasured that(2) by fastforce
    have stop: "unmeasured (mc\<lparr>stop_time := t\<rparr>)" if "unmeasured mc" for mc t
      using that by (simp add: unmeasured_def)
    have next1: "unmeasured (snd (snd y))" if "rec N S G cl1 (w1, mc1) = Some y" "unmeasured mc1" for cl1 w1 mc1
      using IH [OF that(1)] that(2) by simp
    show "?P N S G cl e y"
      using eq by (auto dest!: poll intro: stop next1 split: if_splits prod.splits option.splits sum.splits)
  qed
  then show ?thesis using assms(2) by simp
qed

lemma PrintLatencyStats_unmeasured:
  assumes "unmeasured mc"
  shows "PrintLatencyStats F total_latency mc =
    [LogStats [ShowInt 0, ShowInt (recv_num mc), ShowNat total_latency],
     LogStats [ShowDouble (fp_lit F 0 0), ShowDouble (fp_div F (fp_lit F 0 0) (fp_lit F 1000000 0))]]"
proof -
  have "type_line F mc t = []" for t
    using assms by (auto simp: type_line_def unmeasured_def split: option.splits)
  then show ?thesis using assms by (simp add: PrintLatencyStats_def avg_rtt_def unmeasured_def Let_def)
qed

end
