(* ===== verification/MarketActive.thy ===== *)
theory MarketActive
  imports MarketServer ServerProps "HOL-Library.Multiset"
begin

text \<open>
  The connections the sending thread of the market data server writes to.  The callbacks for a
  login and a disconnection keep them in \<open>active_connections\<close>; they are exactly the connections
  the library holds live, as long as the server is not stopped.
\<close>

section \<open>The live connections of a server\<close>

definition grp_live :: "grp \<Rightarrow> nat multiset" where
  "grp_live G = mset (take (live_cnt G) (conns G))"

definition live_conns :: "server \<Rightarrow> nat list" where
  "live_conns srv = concat (map (\<lambda>G. take (live_cnt G) (conns G)) (shm_grps srv @ tcp_grps srv))"

definition all_live :: "server \<Rightarrow> nat multiset" where
  "all_live srv = sum_list (map grp_live (shm_grps srv)) + sum_list (map grp_live (tcp_grps srv))"

lemma mset_live_conns: "mset (live_conns srv) = all_live srv"
  by (simp add: live_conns_def all_live_def grp_live_def [abs_def] mset_concat o_def)

lemma sum_list_update_add:
  "g < length xs \<Longrightarrow> sum_list (map f (xs[g := y])) + f (xs ! g) = sum_list (map f xs) + (f y :: 'a multiset)"
proof (induction xs arbitrary: g)
  case (Cons x xs)
  then show ?case
    using Cons.IH [of "g - 1"] by (cases g) (auto simp: ac_simps)
qed simp

lemma all_live_set_grp:
  "g < length (grps_of shm srv) \<Longrightarrow>
     all_live (set_grp shm g G srv) + grp_live (grps_of shm srv ! g) = all_live srv + grp_live G"
  using sum_list_update_add [of g "grps_of shm srv" grp_live G]
  by (cases shm) (simp_all add: all_live_def set_grp_def grps_of_def ac_simps)

text \<open>The invariant: the callbacks have kept count of the live connections.\<close>

definition counted :: "server \<Rightarrow> bool" where
  "counted srv \<longleftrightarrow> mset (active_connections srv) = all_live srv \<and>
     (\<forall>G \<in> set (shm_grps srv @ tcp_grps srv). live_cnt G \<le> length (conns G))"

lemma counted_grp: "counted srv \<Longrightarrow> g < length (grps_of shm srv) \<Longrightarrow>
    live_cnt (grps_of shm srv ! g) \<le> length (conns (grps_of shm srv ! g))"
  by (auto simp: counted_def grps_of_def split: if_splits)

lemma active_emit: "active_connections (emit ev srv) = active_after ev (active_connections srv)"
  by (simp add: active_connections_def emit_def)

lemma active_other: "active_connections (srv\<lparr>conn_pool := p\<rparr>) = active_connections srv"
    "active_connections (set_conn k c srv) = active_connections srv"
    "active_connections (set_grp shm g G srv) = active_connections srv"
  by (simp_all add: active_connections_def set_conn_def set_grp_def)

lemma counted_same:
  assumes "active_connections srv1 = active_connections srv" "shm_grps srv1 = shm_grps srv" "tcp_grps srv1 = tcp_grps srv"
  shows "counted srv1 = counted srv"
  using assms by (simp add: counted_def all_live_def)

lemma counted_conn [simp]: "counted (set_conn k c srv) = counted srv" "counted (srv\<lparr>conn_pool := p\<rparr>) = counted srv"
  by (simp_all add: counted_def all_live_def active_other(1) set_conn_def)

lemma counted_emit [simp]:
  "counted (emit (OnSystemError m err) srv) = counted srv" "counted (emit (OnClientFileError k m err) srv) = counted srv"
  "counted (emit (OnSeqNumberMismatch k a b) srv) = counted srv"
  by (simp_all add: counted_def all_live_def active_emit, simp_all add: emit_def)

lemma counted_set_grp:
  assumes "g < length (grps_of shm srv)" "\<forall>H \<in> set (shm_grps srv @ tcp_grps srv). live_cnt H \<le> length (conns H)"
    and "all_live srv = R + grp_live (grps_of shm srv ! g)" "mset (active_connections srv) = R + grp_live G"
    and "live_cnt G \<le> length (conns G)"
  shows "counted (set_grp shm g G srv)"
proof -
  have "all_live (set_grp shm g G srv) + grp_live (grps_of shm srv ! g) = R + grp_live G + grp_live (grps_of shm srv ! g)"
    using all_live_set_grp [OF assms(1), of G] assms(3) by (simp add: ac_simps)
  then have "all_live (set_grp shm g G srv) = R + grp_live G" by (simp only: add_right_cancel)
  moreover have "live_cnt H \<le> length (conns H)"
    if "H \<in> set (shm_grps (set_grp shm g G srv) @ tcp_grps (set_grp shm g G srv))" for H
    using that assms(2,5) set_update_subset_insert [of "shm_grps srv" g G] set_update_subset_insert [of "tcp_grps srv" g G]
    by (auto simp: set_grp_def split: if_splits)
  ultimately show ?thesis using assms(4) by (simp add: counted_def active_other)
qed

section \<open>Logins and disconnections\<close>

lemma sum_list_part: "g < length xs \<Longrightarrow> \<exists>R. sum_list (map f xs) = R + (f (xs ! g) :: 'a multiset)"
proof (induction xs arbitrary: g)
  case (Cons x xs)
  show ?case
  proof (cases g)
    case 0
    then show ?thesis by (intro exI [of _ "sum_list (map f xs)"]) (simp add: ac_simps)
  next
    case (Suc h)
    then obtain R where "sum_list (map f xs) = R + f (xs ! h)" using Cons.IH [of h] Cons.prems by auto
    then show ?thesis using Suc by (intro exI [of _ "f x + R"]) (simp add: ac_simps)
  qed
qed simp

lemma all_live_grp:
  assumes "g < length (grps_of shm srv)"
  obtains R where "all_live srv = R + grp_live (grps_of shm srv ! g)"
proof -
  obtain R where R: "sum_list (map grp_live (grps_of shm srv)) = R + grp_live (grps_of shm srv ! g)"
    using sum_list_part [OF assms, of grp_live] by blast
  have "all_live srv = (R + sum_list (map grp_live (grps_of (\<not> shm) srv))) + grp_live (grps_of shm srv ! g)"
    using R by (cases shm) (simp_all add: all_live_def grps_of_def ac_simps)
  then show thesis by (rule that)
qed

lemma grp_live_on:
  assumes "live_cnt G \<le> i" "i < length (conns G)"
  shows "grp_live (gone_live G i) = add_mset (conns G ! i) (grp_live G)"
proof -
  have "take (live_cnt G) (swap (conns G) i (live_cnt G)) = take (live_cnt G) (conns G)"
    using assms by (simp add: swap_def)
  moreover have "swap (conns G) i (live_cnt G) ! live_cnt G = conns G ! i"
    using assms by (simp add: nth_swap)
  ultimately show ?thesis
    using assms by (simp add: grp_live_def gone_live_def take_Suc_conv_app_nth)
qed

lemma grp_live_off:
  assumes "i < live_cnt G" "live_cnt G \<le> length (conns G)"
  shows "grp_live G = add_mset (conns G ! i) (grp_live (gone_off G i))"
proof -
  let ?n = "live_cnt G - 1"
  let ?sw = "swap (conns G) i ?n"
  have n: "live_cnt G = Suc ?n" using assms(1) by simp
  have "take (live_cnt G) ?sw = swap (take (live_cnt G) (conns G)) i ?n"
    using assms by (simp add: swap_def take_update_swap)
  then have "mset (take (live_cnt G) ?sw) = grp_live G"
    using assms mset_swap [of i "take (live_cnt G) (conns G)" ?n] mset_swap [of ?n "take (live_cnt G) (conns G)" i]
    by (simp add: swap_def grp_live_def)
  moreover have "take (live_cnt G) ?sw = take ?n ?sw @ [?sw ! ?n]"
    using assms n by (metis Suc_le_lessD length_swap_idx take_Suc_conv_app_nth)
  moreover have "?sw ! ?n = conns G ! i" using assms by (simp add: nth_swap)
  ultimately show ?thesis by (simp add: grp_live_def gone_off_def)
qed

lemma grps_of_conn [simp]: "grps_of shm (set_conn k c srv) = grps_of shm srv" "grps_of shm (srv\<lparr>conn_pool := p\<rparr>) = grps_of shm srv"
  by (simp_all add: grps_of_def set_conn_def)

lemma logon_counted:
  assumes "counted srv" "g < length (grps_of shm srv)" "G = grps_of shm srv ! g" "live_cnt G \<le> i" "i < length (conns G)"
  shows "counted (emit (OnClientLogon addr (conns G ! i)) (set_grp shm g (gone_live G i) srv))"
proof -
  let ?srv = "emit (OnClientLogon addr (conns G ! i)) srv"
  obtain R where R: "all_live srv = R + grp_live (grps_of shm srv ! g)" by (rule all_live_grp [OF assms(2)])
  have "counted (set_grp shm g (gone_live G i) ?srv)"
  proof (rule counted_set_grp)
    show "g < length (grps_of shm ?srv)" using assms(2) by simp
    show "all_live ?srv = R + grp_live (grps_of shm ?srv ! g)" using R by (simp add: all_live_def emit_def grps_of_def)
    show "mset (active_connections ?srv) = R + grp_live (gone_live G i)"
      using assms R by (simp add: active_emit counted_def grp_live_on)
    show "live_cnt (gone_live G i) \<le> length (conns (gone_live G i))" using assms(4,5) by (simp add: gone_live_def)
  qed (use assms(1) in \<open>auto simp: counted_def emit_def\<close>)
  then show ?thesis by simp
qed

lemma login_check_result:
  assumes "login_check N S J tm fd addr shm g i k h rsp lseq rseq srv e = Some (ok (fd1, srv1), e1)"
  obtains "srv1 = srv" | "srv1 = emit (OnSeqNumberMismatch k lseq rseq) srv"
  | c where "srv1 = emit (OnClientLogon addr k) (set_grp shm g (gone_live (grps_of shm srv ! g) i) (set_conn k c srv))"
proof -
  obtain la ls le where l: "lseq = (la, ls, le)" by (cases lseq)
  obtain ra rs re where r: "rseq = (ra, rs, re)" by (cases rseq)
  obtain res e2 where sr: "send_rsp N S J fd (h\<lparr>ack_seq := Convert32 (c_order (s_conf S)) la\<rparr>)
      (LoginRspMsg_ConvertByteOrder (c_order (s_conf S))
         (rsp\<lparr>server_seq_start := ls, server_seq_end := le\<rparr>)\<lparr>status := 0\<rparr>) e = (res, e2)"
    by fastforce
  show thesis
  proof (cases "CheckAckInQueue ra ls le \<and> CheckAckInQueue la rs re")
    case False
    then have "srv1 = emit (OnSeqNumberMismatch k lseq rseq) srv"
      using assms by (auto simp: l r login_check_def refuse_def Let_def)
    then show thesis by (rule that(2))
  next
    case ack: True
    show thesis
    proof (cases "res = Inr (rsp_len S)")
      case False
      then have "srv1 = srv" using assms ack sr by (auto simp: l r login_check_def Let_def)
      then show thesis by (rule that(1))
    next
      case True
      then obtain c where "srv1 = emit (OnClientLogon addr k) (set_grp shm g (gone_live (grps_of shm srv ! g) i) (set_conn k c srv))"
        using assms ack sr
        by (auto simp: l r login_check_def gone_live_def grps_of_def set_conn_def Let_def split: option.splits sum.splits)
      then show thesis by (rule that(3))
    qed
  qed
qed

lemma login_check_counted:
  assumes "login_check N S J tm fd addr shm g i k h rsp lseq rseq srv e = Some (ok (fd1, srv1), e1)"
    and "counted srv" "g < length (grps_of shm srv)" "k = conns (grps_of shm srv ! g) ! i"
    and "live_cnt (grps_of shm srv ! g) \<le> i" "i < length (conns (grps_of shm srv ! g))"
  shows "counted srv1"
proof (cases rule: login_check_result [OF assms(1)])
  case (3 c)
  have "counted (set_conn k c srv)" using assms(2) by simp
  then show ?thesis
    unfolding 3 assms(4) using assms(3,5,6)
    by (intro logon_counted) simp_all
qed (use assms(2) in simp_all)

lemma login_slot_counted:
  assumes "login_slot N S J tm fd addr shm g i req login h rsp srv e = Some (ok (fd1, srv1), e1)"
    and "counted srv" "g < length (grps_of shm srv)"
    and "live_cnt (grps_of shm srv ! g) \<le> i" "i < length (conns (grps_of shm srv ! g))"
  shows "counted srv1"
proof -
  let ?k = "conns (grps_of shm srv ! g) ! i"
  have "counted srv2" if "login_check N S J tm fd addr shm g i ?k h rsp lseq rseq (set_conn ?k c srv) e2 = Some (ok (fd2, srv2), e3)"
    for lseq rseq c e2 fd2 srv2 e3
    by (rule login_check_counted [OF that]) (use assms(2-5) in simp_all)
  then show ?thesis
    using assms(1,2) by (auto simp: login_slot_def Let_def refuse_def
        split: prod.splits if_splits option.splits sum.splits)
qed

lemma find_slot_idx: "find_slot n name ks i pool = (Some j, pool1) \<Longrightarrow> i \<le> j \<and> j < i + length ks"
proof (induction n name ks i pool rule: find_slot.induct)
  case (2 n name k ks i pool)
  show ?case using 2(2) 2(1) [OF refl refl refl] by (auto simp: Let_def split: if_splits)
qed simp

lemma HandleLogin_counted:
  assumes "HandleLogin N S app J tm fd addr shm req login srv e = Some (ok (fd1, srv1), e1)" "counted srv"
  shows "counted srv1"
proof -
  have "counted srv2" if "find_slot n name (conns (grps_of shm srv ! g)) 0 (conn_pool srv) = (Some i, p)"
      "\<not> i < live_cnt (grps_of shm srv ! g)" "g < length (grps_of shm srv)"
      "login_slot N S J tm fd addr shm g i req login1 h rsp (srv\<lparr>conn_pool := p\<rparr>) e2 = Some (ok (fd2, srv2), e3)"
    for n name g i p login1 h rsp e2 fd2 srv2 e3
    by (rule login_slot_counted [OF that(4)]) (use that(2,3) find_slot_idx [OF that(1)] assms(2) in simp_all)
  then show ?thesis
    using assms by (auto simp: HandleLogin_def Let_def refuse_def not_le [symmetric]
        split: prod.splits if_splits option.splits)
qed

lemma close_entry_counted: "close_entry N i fd srv e = (srv1, e1) \<Longrightarrow> counted srv1 = counted srv"
  by (auto simp: close_entry_def counted_def all_live_def active_connections_def)

lemma visit_entry_counted:
  assumes "visit_entry N S app J tm i srv e = Some (ok srv1, e1)" "counted srv"
  shows "counted srv1"
proof -
  have avail: "counted (srv\<lparr>avail_idx := i\<rparr>)" using assms(2) by (simp add: counted_def all_live_def active_connections_def)
  show ?thesis
  proof (cases "nc_fd (new_conns srv ! i) < 0")
    case True
    then show ?thesis using assms(1) avail by (auto simp: visit_entry_def Let_def)
  next
    case opn: False
    obtain r e2 where rd: "os_read N (nc_fd (new_conns srv ! i)) (msg_len S) e = (r, e2)" by fastforce
    show ?thesis
    proof (cases "\<exists>bs h login. r = Inr bs \<and> decode_login S bs = Some (h, login)")
      case False
      then have "srv1 = srv \<or> (\<exists>e e1. close_entry N i (nc_fd (new_conns srv ! i)) srv e = (srv1, e1))"
        using assms(1) opn rd
        by (cases r) (auto simp: visit_entry_def Let_def split: if_splits option.splits prod.splits)
      then show ?thesis using assms(2) by (auto simp: close_entry_counted)
    next
      case True
      then obtain bs h login where r: "r = Inr bs" "decode_login S bs = Some (h, login)" by blast
      obtain res e3 where res: "HandleLogin N S app J tm (nc_fd (new_conns srv ! i)) (nc_addr (new_conns srv ! i))
            (use_shm login \<noteq> 0) h login srv e2 = Some (res, e3)"
        and out: "(case res of Inl f \<Rightarrow> (Inl f, e3)
          | Inr (fd1, srv1) \<Rightarrow> (case close_entry N i fd1 srv1 e3 of (srv2, e3) \<Rightarrow> (ok srv2, e3))) = (ok srv1, e1)"
        using assms(1) opn rd r unfolding visit_entry_def Let_def by auto
      obtain fd1 srv2 where ok: "res = ok (fd1, srv2)" using out by (cases res) auto
      have "counted srv2" using HandleLogin_counted [OF res [unfolded ok] assms(2)] .
      then show ?thesis using out ok by (auto dest!: close_entry_counted split: prod.splits)
    qed
  qed
qed

text \<open>A connection found closed leaves the group and the list.\<close>

lemma poll_live_counted:
  assumes "poll_live N S shm tm g i G srv e = Some (ok srv1, e1)"
    and "g < length (grps_of shm srv)" "\<forall>H \<in> set (shm_grps srv @ tcp_grps srv). live_cnt H \<le> length (conns H)"
    and "all_live srv = R + grp_live (grps_of shm srv ! g)" "mset (active_connections srv) = R + grp_live G"
    and "live_cnt G \<le> length (conns G)"
  shows "counted srv1"
  using assms
proof (induction N S shm tm g i G srv e rule: poll_live.induct)
  case (1 N S shm tm g i G srv e)
  show ?case
  proof (cases "live_cnt G \<le> i")
    case True
    then have "srv1 = set_grp shm g G srv" using 1(3) by (subst (asm) poll_live.simps) simp
    then show ?thesis using counted_set_grp [OF 1(4-8)] by simp
  next
    case False
    let ?k = "conns G ! i"
    obtain b c e2 where ka: "keep_alive N S shm tm (conn_pool srv ! ?k) e = Some (ok (b, c), e2)"
      using 1(3) False by (subst (asm) poll_live.simps) (auto simp: Let_def split: option.splits sum.splits)
    show ?thesis
    proof (cases b)
      case True
      let ?ev = "case tconn_GetCloseReason c of (reason, err) \<Rightarrow> OnClientDisconnected ?k reason err"
      let ?srv = "emit ?ev (set_conn ?k c srv)"
      have run: "poll_live N S shm tm g i (gone_off G i) ?srv e2 = Some (ok srv1, e1)"
        using 1(3) False ka True by (subst (asm) poll_live.simps) (simp add: Let_def gone_off_def)
      have same: "shm_grps ?srv = shm_grps srv" "tcp_grps ?srv = tcp_grps srv"
        by (simp_all add: emit_def set_conn_def)
      have off: "grp_live G = add_mset ?k (grp_live (gone_off G i))"
        using False 1(8) by (intro grp_live_off) simp_all
      have act: "mset (active_connections ?srv) = R + grp_live (gone_off G i)"
        using 1(7) off by (simp add: active_emit active_other split: prod.split)
      have len: "live_cnt (gone_off G i) \<le> length (conns (gone_off G i))" using 1(8) by (simp add: gone_off_def)
      show ?thesis
        by (rule 1(1) [OF False refl ka refl refl refl, folded gone_off_def])
          (use run True 1(4-6) act same len in \<open>simp_all add: all_live_def del: poll_live.simps\<close>)
    next
      case nb: False
      let ?srv = "set_conn ?k c srv"
      have run: "poll_live N S shm tm g (Suc i) G ?srv e2 = Some (ok srv1, e1)"
        using 1(3) False ka nb by (subst (asm) poll_live.simps) (simp add: Let_def)
      have same: "shm_grps ?srv = shm_grps srv" "tcp_grps ?srv = tcp_grps srv"
        by (simp_all add: set_conn_def)
      show ?thesis
        by (rule 1(2) [OF False refl ka refl refl refl])
          (use run nb 1(4-8) same in \<open>simp_all add: all_live_def active_other del: poll_live.simps\<close>)
    qed
  qed
qed

section \<open>A serving server\<close>

lemma poll_group_counted:
  assumes "poll_live N S shm tm g 0 (grps_of shm srv ! g) srv e = Some (ok srv1, e1)" "counted srv" "g < length (grps_of shm srv)"
  shows "counted srv1"
proof -
  obtain R where R: "all_live srv = R + grp_live (grps_of shm srv ! g)" by (rule all_live_grp [OF assms(3)])
  show ?thesis
    by (rule poll_live_counted [OF assms(1,3) _ R]) (use assms(2) R counted_grp [OF assms(2,3)] in \<open>simp_all add: counted_def\<close>)
qed

lemma serve_counted: "serve app k polled srv = Some (ok srv1, e1) \<Longrightarrow> counted srv \<Longrightarrow> counted srv1"
  by (auto simp: serve_def chk_bind_ok_iff split: option.splits sum.splits prod.splits)

lemma PollTcp_counted: "PollTcp N S app tm g srv e = Some (ok srv1, e1) \<Longrightarrow> counted srv \<Longrightarrow> counted srv1"
  by (auto simp: PollTcp_def Let_def split: if_splits elim!: each_inv [where P = counted] intro: serve_counted)

lemma PollShm_counted: "PollShm S app g srv e = Some (ok srv1, e1) \<Longrightarrow> counted srv \<Longrightarrow> counted srv1"
  by (auto simp: PollShm_def Let_def split: if_splits elim!: each_inv [where P = counted] intro: serve_counted)

lemma accept_new_counted: "accept_new N S tm srv e = (srv1, e1) \<Longrightarrow> counted srv1 = counted srv"
  by (auto simp: accept_new_def Let_def counted_def all_live_def active_connections_def split: if_splits sum.splits prod.splits)

lemma Start_counted: "Start N S ip port srv e = ((b, srv1), e1) \<Longrightarrow> counted srv1 = counted srv"
  by (auto simp: Start_def Let_def counted_def all_live_def active_connections_def emit_def split: if_splits sum.splits prod.splits)

lemma new_counted: "counted (server_new S name dir garbage)"
proof -
  have G: "grp_live G = {#}" "live_cnt G \<le> length (conns G)" if "G \<in> set (make_grps a b c)" for G a b c
    using that by (auto simp: make_grps_def grp_live_def)
  have "sum_list (map grp_live (make_grps a b c)) = {#}" for a b c
    using G(1) by (simp cong: map_cong)
  then show ?thesis using G(2) by (auto simp: counted_def all_live_def server_new_def active_connections_def Let_def)
qed

lemma PollCtl_counted:
  assumes run: "PollCtl N S app J tm srv e = Some (ok srv1, e1)"
    and inv: "srv_inv S srv" "1 < NameSize (s_conf S)" and c: "counted srv"
  shows "counted srv1"
proof -
  let ?P = "\<lambda>t. srv_inv S t \<and> counted t"
  obtain srv0 e0 where a: "accept_new N S tm srv e = (srv0, e0)" by fastforce
  obtain srv2 e2 where v: "each (\<lambda>i. visit_entry N S app J tm i) [0 ..< MaxNewConnections S] srv0 e0 = Some (ok srv2, e2)"
    using run a by (auto simp: PollCtl_def and_then_def split: option.splits sum.splits)
  have shm: "(\<lambda>g srv. poll_live N S True tm g 0 (shm_grps srv ! g) srv) = (\<lambda>g srv. poll_live N S True tm g 0 (grps_of True srv ! g) srv)"
    and tcp: "(\<lambda>g srv. poll_live N S False tm g 0 (tcp_grps srv ! g) srv) = (\<lambda>g srv. poll_live N S False tm g 0 (grps_of False srv ! g) srv)"
    by (simp_all add: grps_of_def)
  obtain srv3 e3 where
      s: "each (\<lambda>g srv. poll_live N S True tm g 0 (grps_of True srv ! g) srv) [0 ..< MaxShmGrps S] srv2 e2 = Some (ok srv3, e3)"
    and t: "each (\<lambda>g srv. poll_live N S False tm g 0 (grps_of False srv ! g) srv) [0 ..< MaxTcpGrps S] srv3 e3 = Some (ok srv1, e1)"
    using run a v unfolding shm [symmetric] tcp [symmetric]
    by (auto simp: PollCtl_def and_then_def split: option.splits sum.splits)
  have grp: "?P t1" if "poll_live N S shm tm g 0 (grps_of shm t ! g) t e = Some (ok t1, e1)" "?P t"
      "g < (if shm then MaxShmGrps S else MaxTcpGrps S)" for shm g t e t1 e1
  proof -
    have ok: "grps_ok S t" "front_ok S t" using that(2) by (simp_all add: srv_inv_def)
    then have g: "g < length (grps_of shm t)" using that(3) caps_sel by simp
    have "srv_inv S t1" using poll_grp_ok [OF that(1) ok(1) g] ok(2) front_ok_cong by (auto simp: srv_inv_def)
    moreover have "counted t1" using poll_group_counted [OF that(1) _ g] that(2) by simp
    ultimately show ?thesis ..
  qed
  have "?P srv2"
  proof (rule each_inv [OF v, where P = ?P])
    show "?P srv0" using moved_inv [OF accept_new_moved [OF inv(1) a]] accept_new_counted [OF a] c by simp
    show "?P t1" if "i \<in> set [0..<MaxNewConnections S]" "?P t" "visit_entry N S app J tm i t e = Some (ok t1, e1)" for i t e t1 e1
      using moved_inv [OF visit_entry_moved [OF _ _ inv(2) that(3)]] visit_entry_counted [OF that(3)] that(1,2) by simp
  qed
  then have "?P srv3" by (rule each_inv [OF s, where P = ?P]) (use grp in simp)
  then have "?P srv1" by (rule each_inv [OF t, where P = ?P]) (use grp in simp)
  then show ?thesis ..
qed

text \<open>The steps of a server that is not stopped.\<close>

inductive work_step :: "'e os \<Rightarrow> sconf \<Rightarrow> 'e server_app \<Rightarrow> server \<Rightarrow> server \<Rightarrow> bool" for N S app where
  work_Start: "Start N S ip port srv e = ((b, srv1), e1) \<Longrightarrow> work_step N S app srv srv1"
| work_PollCtl: "PollCtl N S app J tm srv e = Some (ok srv1, e1) \<Longrightarrow> work_step N S app srv srv1"
| work_PollTcp: "PollTcp N S app tm g srv e = Some (ok srv1, e1) \<Longrightarrow> work_step N S app srv srv1"
| work_PollShm: "PollShm S app g srv e = Some (ok srv1, e1) \<Longrightarrow> work_step N S app srv srv1"
| work_user: "k < length (conn_pool srv) \<Longrightarrow> conn_kept (conn_pool srv ! k) c \<Longrightarrow>
    work_step N S app srv (set_conn k c srv)"

lemma work_srv_step: "work_step N S app srv srv1 \<Longrightarrow> srv_step N S app srv srv1"
  by (induction rule: work_step.induct) (blast intro: srv_step.intros)+

lemma work_counted:
  "work_step N S app srv srv1 \<Longrightarrow> srv_inv S srv \<Longrightarrow> 1 < NameSize (s_conf S) \<Longrightarrow> counted srv \<Longrightarrow> counted srv1"
  by (induction rule: work_step.induct) (auto simp: Start_counted dest: PollCtl_counted PollTcp_counted PollShm_counted)

interpretation work: state_invariant "good_start S app" "work_step N S app"
    "\<lambda>srv. srv_inv S srv \<and> app_ok app \<and> 1 < NameSize (s_conf S) \<and> counted srv" for N :: "'e os" and S app
proof
  show "good_start S app srv \<Longrightarrow> srv_inv S srv \<and> app_ok app \<and> 1 < NameSize (s_conf S) \<and> counted srv" for srv
    using srv.inv_start [of S app srv] new_counted by (auto simp: good_start_def srv_start_def)
  show "srv_inv S srv \<and> app_ok app \<and> 1 < NameSize (s_conf S) \<and> counted srv \<Longrightarrow> work_step N S app srv srv1 \<Longrightarrow>
      srv_inv S srv1 \<and> app_ok app \<and> 1 < NameSize (s_conf S) \<and> counted srv1" for srv srv1
    using srv_step_inv [OF _ _ _ work_srv_step] work_counted by blast
qed

text \<open>
  C14. The sending thread writes to exactly the live connections, each once: in every state of a
  server that has not been stopped, with any behaviour of the system, the clients and the user's
  callbacks, the list kept by the two callbacks is the connections that the groups hold live.
\<close>

theorem active_connections_live:
  assumes "reach (good_start S app) (work_step N S app) srv"
  shows "mset (active_connections srv) = mset (live_conns srv) \<and> distinct (active_connections srv) \<and>
    set (active_connections srv) = (\<Union>G \<in> set (shm_grps srv @ tcp_grps srv). set (take (live_cnt G) (conns G)))"
proof -
  have inv: "srv_inv S srv" "counted srv" using work.inv_reach [OF assms] by simp_all
  have m: "mset (active_connections srv) = mset (live_conns srv)" using inv(2) by (simp add: counted_def mset_live_conns)
  have dt: "distinct (concat (map (\<lambda>G. take (live_cnt G) (conns G)) gs))" if "distinct (concat (map conns gs))" for gs
    using that by (induction gs) (auto dest: in_set_takeD)
  have "distinct (live_conns srv)" unfolding live_conns_def by (rule dt [OF srv_distinct [OF inv(1)]])
  then have "distinct (active_connections srv)" using mset_eq_imp_distinct_iff [OF m] by simp
  moreover have "set (active_connections srv) = set (live_conns srv)" using m by (rule mset_eq_setD)
  ultimately show ?thesis using m by (simp add: live_conns_def)
qed

lemma one_login_work: "reach (good_start small_sconf small_app) (work_step login_os small_sconf small_app) one_login"
  using one_login_run reach.intros new_small_start work_step.work_PollCtl by metis

theorem active_connections_live_witness:
  "mset (active_connections one_login) = mset [1] \<and> distinct (active_connections one_login)"
  using active_connections_live [OF one_login_work] one_login_live(1,2) by (simp add: live_conns_def)

end
