(* ===== verification/MarketRun.thy ===== *)
theory MarketRun
  imports MarketActive
begin

text \<open>
  The server of the market data example as a running program: the turns of its threads, one after
  the other in any order, on the library's state, the count of messages and the server's own
  variables.  What the threads do to the library is a sequence of its operations.
\<close>

section \<open>The running server\<close>

lemma Alloc_kept: "tconn_Alloc cf sz c = ok (p, c1) \<Longrightarrow> conn_kept c c1"
  by (auto simp: tconn_Alloc_def pconn_Alloc_def conn_kept_def sock_kept_def chk_bind_ok_iff
      split: option.splits prod.splits)

lemma tx_put_kept: "conn_kept c (tx_put E p mem c)"
  by (simp add: tx_put_def conn_kept_def sock_kept_def split: msg_ptr.split)

lemma tx_fill_kept: "tx_fill E t n fs p c = ok c1 \<Longrightarrow> conn_kept c c1"
  unfolding tx_fill_def chk_bind_ok_iff by (auto simp: tx_put_kept chk_bind_ok_iff)

lemma Push_kept: "tconn_Push N cf c e = Some (ok c1, e1) \<Longrightarrow> conn_kept c c1"
  by (auto simp: tconn_Push_def pconn_Push_def pconn_PushMore_def with_pconn_def conn_kept_def chk_bind_ok_iff
      dest!: SendPending_sock split: option.splits sum.splits prod.splits) (auto simp: sock_kept_def)

lemma send_msg_kept:
  assumes "send_msg N cf len t mk c a e = Some (ok (c1, a1), e1)"
  shows "conn_kept c c1"
proof -
  obtain p c2 where al: "tconn_Alloc cf (of_nat len) c = ok (p, c2)"
    using assms by (auto simp: send_msg_def Let_def split: sum.splits)
  show ?thesis
  proof (cases p)
    case None
    then show ?thesis using assms al by (auto simp: send_msg_def intro: Alloc_kept)
  next
    case (Some i)
    obtain fs sh a2 e2 where mk: "mk a e = (fs, sh, a2, e2)" by (metis surj_pair)
    obtain c3 where fill: "tx_fill (c_order cf) t len fs i c2 = ok c3"
      using assms al Some mk by (auto simp: send_msg_def Let_def split: sum.splits)
    obtain c4 e4 where push: "tconn_Push N cf c3 e2 = Some (ok c4, e4)"
      using assms al Some mk fill by (auto simp: send_msg_def Let_def and_then_def split: option.splits sum.splits)
    have "c1 = c4" using assms al Some mk fill push by (auto simp: send_msg_def Let_def and_then_def chk_bind_ok_iff)
    then show ?thesis using Alloc_kept [OF al] tx_fill_kept [OF fill] Push_kept [OF push] conn_kept_trans by blast
  qed
qed

lemma send_next_kept: "send_next N cf F G i c a e = Some (ok (c1, a1), e1) \<Longrightarrow> conn_kept c c1"
  by (auto simp: send_next_def SendMarketDepthMsg_def SendTradeMsg_def SendVolatilityMsg_def SendKLineMsg_def
      SendTickerMsg_def Let_def dest: send_msg_kept split: if_splits)

text \<open>A pass of the sending thread is a sequence of uses of connections.\<close>

lemma send_round_works:
  assumes "send_round N cf F G ks (pool, n, a) e = Some (ok (pool1, n1, a1), e1)" "\<forall>k \<in> set ks. k < length pool"
    and "n < max_msgs_to_send"
  shows "(work_step M S app)\<^sup>*\<^sup>* (srv\<lparr>conn_pool := pool\<rparr>) (srv\<lparr>conn_pool := pool1\<rparr>) \<and> n \<le> n1 \<and> n1 \<le> max_msgs_to_send"
  using assms
proof (induction ks arbitrary: pool n a e)
  case (Cons k ks)
  show ?case
  proof (cases "tconn_IsClosed (pool ! k)")
    case True
    then show ?thesis using Cons by simp
  next
    case False
    obtain c a2 e2 where s: "send_next N cf F G n (pool ! k) a e = Some (ok (c, a2), e2)"
      using Cons.prems(1) False by (auto simp: and_then_def split: option.splits sum.splits)
    have st: "work_step M S app (srv\<lparr>conn_pool := pool\<rparr>) (srv\<lparr>conn_pool := pool[k := c]\<rparr>)"
      using work_user [of k "srv\<lparr>conn_pool := pool\<rparr>" c M S app] send_next_kept [OF s] Cons.prems(2)
      by (simp add: set_conn_def)
    show ?thesis
    proof (cases "max_msgs_to_send \<le> Suc n")
      case True
      then have "pool1 = pool[k := c]" "n1 = Suc n" using Cons.prems(1) False s by (simp_all add: and_then_def Let_def)
      then show ?thesis using st Cons.prems(3) by auto
    next
      case more: False
      have "send_round N cf F G ks (pool[k := c], Suc n, a2) e2 = Some (ok (pool1, n1, a1), e1)"
        using Cons.prems(1) False s more by (simp add: and_then_def Let_def)
      from Cons.IH [OF this] show ?thesis
        using Cons.prems(2) more converse_rtranclp_into_rtranclp [where r = "work_step M S app", OF st] by auto
    qed
  qed
qed simp

lemma Pop_kept: "tconn_Pop cf c = ok c1 \<Longrightarrow> conn_kept c c1"
  by (auto simp: tconn_Pop_def with_pconn_def pconn_Pop_def conn_kept_def sock_kept_def chk_bind_ok_iff split: option.splits)

lemma market_app_ok: "app_ok (market_app H S)"
  by (auto simp: app_ok_def market_app_def market_OnClientMsg_def Let_def intro: Pop_kept split: sum.splits prod.splits if_splits)

lemma active_set:
  assumes "counted srv"
  shows "set (active_connections srv) = (\<Union>G \<in> set (shm_grps srv @ tcp_grps srv). set (take (live_cnt G) (conns G)))"
proof -
  have "mset (active_connections srv) = mset (live_conns srv)" using assms by (simp add: counted_def mset_live_conns)
  then have "set (active_connections srv) = set (live_conns srv)" by (rule mset_eq_setD)
  then show ?thesis by (simp add: live_conns_def)
qed

lemma active_valid:
  assumes "srv_inv S srv" "counted srv" "k \<in> set (active_connections srv)"
  shows "k < length (conn_pool srv) \<and> peer (conn_pool srv ! k) \<noteq> [] \<and> 0 \<le> own_fd (conn_pool srv ! k)"
proof -
  obtain G where G: "G \<in> set (shm_grps srv @ tcp_grps srv)" "k \<in> set (take (live_cnt G) (conns G))"
    using assms(3) active_set [OF assms(2)] by blast
  then obtain i where i: "i < live_cnt G" "i < length (conns G)" "conns G ! i = k"
    by (auto simp: in_set_conv_nth)
  obtain m where m: "grp_at (live_cnt G) m (members (conn_pool srv) G)" and wf: "grp_wf G"
      and idx: "\<And>j. j < length (conns G) \<Longrightarrow> conns G ! j < length (conn_pool srv)"
    by (rule srv_grp [OF assms(1) G(1)]) blast
  note M = grp_atD [OF m]
  have "i < length (members (conn_pool srv) G)" using i(2) by (simp add: members_def)
  then show ?thesis using M(1) M(3) [of i] M(5) [OF i(1)] idx [OF i(2)] i by (simp add: members_def)
qed

text \<open>
  The turns of the threads of a running server: the control thread, the pollers and the sender.
\<close>

type_synonym market_state = "server \<times> nat \<times> market_server"

inductive market_step ::
  "'w os \<Rightarrow> sconf \<Rightarrow> fpu \<Rightarrow> 'w source \<Rightarrow> (string \<Rightarrow> u64) \<Rightarrow> market_state \<Rightarrow> market_state \<Rightarrow> bool"
  for N S F G H
where
  turn_Start: "Start (lift_os N) S ip port srv (w, a) = ((b, srv1), (w1, a1)) \<Longrightarrow>
    market_step N S F G H (srv, n, a) (srv1, n, a1)"
| turn_PollCtl: "PollCtl (lift_os N) S (market_app H S) J (sint (t :: u64)) srv (w, a) = Some (ok srv1, (w1, a1)) \<Longrightarrow>
    market_step N S F G H (srv, n, a) (srv1, n, a1)"
| turn_PollTcp: "PollTcp (lift_os N) S (market_app H S) (sint (t :: u64)) g srv (w, a) = Some (ok srv1, (w1, a1)) \<Longrightarrow>
    market_step N S F G H (srv, n, a) (srv1, n, a1)"
| turn_PollShm: "PollShm S (market_app H S) g srv (w :: 'w, a) = Some (ok srv1, (w1, a1)) \<Longrightarrow>
    market_step N S F G H (srv, n, a) (srv1, n, a1)"
| turn_send: "send_turn N (s_conf S) F G (srv, n, a) w = Some (ok s1, w1) \<Longrightarrow>
    market_step N S F G H (srv, n, a) s1"

definition market_start :: "sconf \<Rightarrow> market_state \<Rightarrow> bool" where
  "market_start S s \<longleftrightarrow> (\<exists>srv. srv_start S srv \<and> 1 < NameSize (s_conf S) \<and> s = (srv, 0, market_server_new))"

abbreviation market_works :: "'w os \<Rightarrow> sconf \<Rightarrow> (string \<Rightarrow> u64) \<Rightarrow> server \<Rightarrow> bool" where
  "market_works N S H \<equiv>
     reach (good_start S (market_app H S :: ('w \<times> market_server) server_app)) (work_step (lift_os N) S (market_app H S))"

lemma market_step_works:
  assumes "market_step N S F G H (srv, n, a) (srv1, n1, a1)" "srv_inv S srv" "counted srv" "n \<le> max_msgs_to_send"
  shows "(work_step (lift_os N) S (market_app H S))\<^sup>*\<^sup>* srv srv1 \<and> n \<le> n1 \<and> n1 \<le> max_msgs_to_send"
  using assms(1)
proof cases
  case (turn_send w w1)
  show ?thesis
  proof (cases "max_msgs_to_send \<le> n")
    case True
    then show ?thesis using turn_send assms(4) by (simp add: send_turn_def)
  next
    case False
    obtain pool1 where R: "send_round N (s_conf S) F G (active_connections srv) (conn_pool srv, n, a) w = Some (ok (pool1, n1, a1), w1)"
        "srv1 = srv\<lparr>conn_pool := pool1\<rparr>"
      using turn_send False by (auto simp: send_turn_def chk_bind_ok_iff)
    have "\<forall>k \<in> set (active_connections srv). k < length (conn_pool srv)"
      using active_valid [OF assms(2,3)] by blast
    from send_round_works [OF R(1) this, of "lift_os N" S "market_app H S" srv] False R(2) show ?thesis by simp
  qed
qed (use assms(4) in \<open>auto intro!: r_into_rtranclp intro: work_step.intros\<close>)

interpretation market: state_invariant "market_start S" "market_step N S F G H"
    "\<lambda>(srv, n, a). market_works N S H srv \<and> n \<le> max_msgs_to_send"
    for N :: "'w os" and S F G H
proof
  show "case s of (srv, n, a) \<Rightarrow> market_works N S H srv \<and> n \<le> max_msgs_to_send"
    if "market_start S s" for s
    using that market_app_ok by (auto simp: market_start_def good_start_def intro!: reach_start)
  show "case t of (srv, n, a) \<Rightarrow> market_works N S H srv \<and> n \<le> max_msgs_to_send"
    if inv: "case s of (srv, n, a) \<Rightarrow> market_works N S H srv \<and> n \<le> max_msgs_to_send"
      and st: "market_step N S F G H s t" for s t
  proof -
    obtain srv n a srv1 n1 a1 where s: "s = (srv, n, a)" "t = (srv1, n1, a1)" by (metis surj_pair)
    have r: "market_works N S H srv" "n \<le> max_msgs_to_send"
      using inv s by simp_all
    from market_step_works [OF st [unfolded s] _ _ r(2)] work.inv_reach [OF r(1)] work.reach_steps [OF _ r(1)] s
    show ?thesis by simp
  qed
qed



end
