(* ===== verification/MarketProps.thy ===== *)
theory MarketProps
  imports MarketFeed LoginExchange MarketRun
begin

text \<open>
  The properties of the market data example: the layout of its messages, the feed from the server
  to a single client, what breaks the feed, and what the client measures.
\<close>

section \<open>A client that takes the feed\<close>

text \<open>
  The runs of the client on one TCP connection: it is opened, polled, gives each message found to
  \<open>OnServerMsg\<close>, and anything may happen to the rest of the connection.  \<open>got\<close> are the frames
  given to the handlers.
\<close>

inductive client_run ::
  "'e os \<Rightarrow> conf \<Rightarrow> fd \<Rightarrow> ('e \<Rightarrow> u8 list) \<Rightarrow> u32 \<Rightarrow> 'e source \<Rightarrow> market_client \<Rightarrow> frame list \<Rightarrow> tconn \<Rightarrow>
     market_client \<Rightarrow> 'e \<Rightarrow> bool"
  for M cf s log a G mc0
where
  cr_open: "shm_recvq tc = None \<Longrightarrow> buf_shape cf c0 \<Longrightarrow> my_ack c0 = Some a \<Longrightarrow>
    pconn_Open M cf s ack t0 c0 e0 = Some (ok (ptcp_conn tc), e) \<Longrightarrow> log e = [] \<Longrightarrow>
    client_run M cf s log a G mc0 [] tc mc0 e"
| cr_idle: "client_run M cf s log a G mc0 got tc mc e \<Longrightarrow>
    tconn_Front M cf tc e = Some (ok (None, tc1), e1) \<Longrightarrow> client_run M cf s log a G mc0 got tc1 mc e1"
| cr_msg: "client_run M cf s log a G mc0 got tc mc e \<Longrightarrow>
    tconn_Front M cf tc e = Some (ok (Some (InRecvBuf i), tc1), e1) \<Longrightarrow>
    load_at (c_order cf) i (ptcp_conn tc1) = ok h \<Longrightarrow>
    body = seg (unat i + 8) (unat i + frame_len h) (recvbuf (ptcp_conn tc1)) \<Longrightarrow>
    market_OnServerMsg cf G (InRecvBuf i) tc1 (e1, mc) = Some (ok tc2, (e2, mc2)) \<Longrightarrow>
    client_run M cf s log a G mc0 (got @ [(h, body)]) tc2 mc2 e2"
| cr_other: "client_run M cf s log a G mc0 got tc mc e \<Longrightarrow> shm_recvq tc1 = None \<Longrightarrow>
    same_rx (ptcp_conn tc) (ptcp_conn tc1) \<Longrightarrow> ack_kept (ptcp_conn tc) (ptcp_conn tc1) \<Longrightarrow> log e1 = log e \<Longrightarrow>
    client_run M cf s log a G mc0 got tc1 mc e1"

definition feed :: "byte_order \<Rightarrow> nat \<Rightarrow> pmsg list \<Rightarrow> bool" where
  "feed E n ms \<longleftrightarrow> (\<forall>i < length ms. feed_msg E (n + i) (ms ! i))"

lemma feed_frame_len:
  assumes "feed_msg E i m"
  shows "frame_len (fst m) = 8 + 8 * length (snd m)"
proof -
  have "unat (hdr_size (fst m)) = body_size (feed_type i) + 8"
  proof -
    have h: "hdr_size (fst m) = of_nat (body_size (feed_type i) + 8)" using assms by (simp only: feed_msg_def)
    show ?thesis unfolding h unat_of_nat using feed_type_facts(2) [of i] by simp
  qed
  moreover have "body_size (feed_type i) = 8 * length (snd m)" using assms by (simp add: feed_msg_def)
  ultimately show ?thesis by (simp add: frame_len_def unat_round8)
qed

text \<open>A message found at the head of the receive buffer is the next one of the feed, and is taken.\<close>

lemma feed_message_taken:
  assumes ready: "rx_ready cf s rx got (Some i) (ptcp_conn tc)" and shm: "shm_recvq tc = None"
    and stream: "prefix (app_frames (c_order cf) rx) (map (frame_of (c_order cf)) ms)"
    and fd: "feed (c_order cf) n ms" "recv_num mc = int (n + length got)" "msg_sent_time mc = Map.empty"
  obtains h body mc1 w1 pc where "load_at (c_order cf) i (ptcp_conn tc) = ok h" "msg_type h \<noteq> HeartbeatMsg_type"
    "body = seg (unat i + 8) (unat i + frame_len h) (recvbuf (ptcp_conn tc))" "front_result (ptcp_conn tc) = Some i"
    "pconn_Pop cf (ptcp_conn tc) = ok pc"
    "market_OnServerMsg cf G (InRecvBuf i) tc (w, mc) = Some (ok (tc\<lparr>ptcp_conn := pc\<rparr>), (w1, mc1))"
    "recv_num mc1 = recv_num mc + 1" "msg_sent_time mc1 = Map.empty" "w1 = snd (now G w)"
proof -
  let ?E = "c_order cf" and ?c = "ptcp_conn tc"
  obtain fs q where fs: "rx_inv cf fs (snd (wire_frames ?E rx)) ?c" "q_ptr ?c = Some q"
      "app_frames ?E rx = got @ filter (\<lambda>f. \<not> is_hb f) fs" "dropWhile is_hb fs = fs" and r: "front_result ?c = Some i"
    using ready by (auto simp: rx_ready_def)
  obtain f fs' where f: "fs = f # fs'" and i: "i = readidx ?c"
    using front_result_eq [OF fs(1)] r by (cases fs) auto
  have nhb: "\<not> is_hb f" using fs(4) f by (auto simp: dropWhile_eq_Cons_conv)
  obtain ys where ys: "map (frame_of ?E) ms = got @ f # ys"
    using stream fs(3) f nhb by (auto simp: prefix_def)
  then have "length (map (frame_of ?E) ms) = length got + Suc (length ys)" by simp
  then have len: "length got < length ms" by simp
  have "map (frame_of ?E) ms ! length got = f" unfolding ys by simp
  then have fm: "f = frame_of ?E (ms ! length got)" using len by simp
  have F: "feed_msg ?E (n + length got) (ms ! length got)" using fd(1) len by (simp add: feed_def)
  obtain h body where hb: "f = (h, body)" by (cases f)
  note H = head_frame [OF fs(1) [unfolded f]]
  note B = feed_frame_body [OF F fm [symmetric, unfolded hb]]
  have body: "body = seg (unat i + 8) (unat i + frame_len h) (recvbuf ?c)" and load: "load_at ?E i ?c = ok h"
    using H(1,5) by (simp_all add: hb i)
  have fl: "frame_len h = 8 + length body"
    using feed_frame_len [OF F] fm by (simp add: frame_of_def hb)
  have bl: "body_size (msg_type h) \<le> length body"
    using F B(1) fm by (simp add: feed_msg_def frame_of_def hb)
  obtain pc where pop: "pconn_Pop cf ?c = ok pc" using Pop_ok [OF fs(1) [unfolded f] fs(2)] by blast
  obtain sh where s: "handle_body ?E G (feed_type (n + length got)) body = accept_msg G (feed_type (n + length got)) (body_id ?E body) sh"
    by (rule handle_feed_body)
  define mc1 where "mc1 = (mlog (LogReceived (feed_type (n + length got)) (sh @ [ShowInt (recv_num mc + 1), ShowInt MaxNum])) mc)
    \<lparr>recv_num := recv_num mc + 1\<rparr>"
  have "handle_body ?E G (feed_type (n + length got)) body mc w = Some (mc1, snd (now G w))"
    using fd(2,3) B(3) accept_msg_cases [of G "feed_type (n + length got)" "body_id ?E body" sh mc w]
    by (simp add: s mc1_def del: of_nat_add)
  then have "take_frames ?E G [(h, body)] mc w = Some (mc1, snd (now G w))" using B(1,2) by simp
  moreover have "tconn_Pop cf tc = ok (tc\<lparr>ptcp_conn := pc\<rparr>)" using pop shm by (simp add: tconn_Pop_def with_pconn_def)
  ultimately have "market_OnServerMsg cf G (InRecvBuf i) tc (w, mc) = Some (ok (tc\<lparr>ptcp_conn := pc\<rparr>), (snd (now G w), mc1))"
    using OnServerMsg_frame [OF load fl body bl, of G w mc] by simp
  moreover have "msg_type h \<noteq> HeartbeatMsg_type" using nhb by (simp add: is_hb_def hb)
  ultimately show thesis
    using that [OF load _ body r pop, of "snd (now G w)" mc1] fd(3) by (simp add: mc1_def mlog_def)
qed

lemma app_frames_mono: "prefix (app_frames E bs) (app_frames E (bs @ cs))"
  unfolding app_frames_def wire_frames_append [of E bs cs] by (simp add: prefix_def)

lemma tconn_Front_tcp:
  assumes "shm_recvq tc = None" "tconn_Front M cf tc e = Some (ok (r, tc1), e1)"
  obtains i where "r = map_option InRecvBuf i" "pconn_Front M cf (ptcp_conn tc) e = Some (ok (i, ptcp_conn tc1), e1)"
    "shm_recvq tc1 = None"
  using assms by (auto simp: tconn_Front_def chk_bind_ok_iff)

text \<open>What the socket delivers is the start of a stream that carries the feed.\<close>

definition feed_stream :: "conf \<Rightarrow> ('e \<Rightarrow> u8 list) \<Rightarrow> pmsg list \<Rightarrow> bool" where
  "feed_stream cf log ms \<longleftrightarrow>
     (\<exists>stream. delivers log stream \<and> good_stream cf stream \<and>
       prefix (app_frames (c_order cf) stream) (map (frame_of (c_order cf)) ms))"

lemma poll_ready:
  assumes run: "pop_run M cf s log a got c e" and N: "read_bounded M" "socket_log M s log"
    and st: "feed_stream cf log ms" and F: "pconn_Front M cf c e = Some (ok (r, c1), e1)"
  shows "rx_ready cf s (log e1) got r c1" "prefix (app_frames (c_order cf) (log e1)) (map (frame_of (c_order cf)) ms)"
proof -
  obtain stream where D: "delivers log stream" "good_stream cf stream"
      "prefix (app_frames (c_order cf) stream) (map (frame_of (c_order cf)) ms)"
    using st by (auto simp: feed_stream_def)
  have "rx_ok cf s (log e) got c" by (rule rx_run_ok [OF pop_run_rx(1) [OF run] N D(1,2)])
  then show "rx_ready cf s (log e1) got r c1" by (rule Front_rx_ready [OF _ N D(1,2) F])
  obtain cs where "stream = log e1 @ cs" using D(1) by (auto simp: delivers_def)
  then show "prefix (app_frames (c_order cf) (log e1)) (map (frame_of (c_order cf)) ms)"
    using D(3) app_frames_mono prefix_order.trans by blast
qed

lemma client_run_inv:
  assumes "client_run M cf s log a G mc0 got tc mc e" and N: "read_bounded M" "socket_log M s log" "quiet G log"
    and st: "feed_stream cf log ms" and fd: "feed (c_order cf) n ms" "recv_num mc0 = int n" "msg_sent_time mc0 = Map.empty"
  shows "pop_run M cf s log a got (ptcp_conn tc) e \<and> shm_recvq tc = None \<and>
    recv_num mc = int (n + length got) \<and> msg_sent_time mc = Map.empty"
  using assms(1)
proof (induction rule: client_run.induct)
  case (cr_open tc c0 ack t0 e0 e)
  then show ?case using pop_open [where log = log, OF cr_open(2-5)] fd by simp
next
  case (cr_idle got tc mc e tc1 e1)
  obtain i where F: "pconn_Front M cf (ptcp_conn tc) e = Some (ok (i, ptcp_conn tc1), e1)" "shm_recvq tc1 = None"
    using tconn_Front_tcp [OF _ cr_idle.hyps(2)] cr_idle.IH by blast
  show ?case using pop_front [OF conjunct1 [OF cr_idle.IH] F(1)] F(2) cr_idle.IH by simp
next
  case (cr_msg got tc mc e i tc1 e1 h body tc2 e2 mc2)
  note IH = cr_msg.IH
  obtain j where "Some (InRecvBuf i) = map_option InRecvBuf j"
      "pconn_Front M cf (ptcp_conn tc) e = Some (ok (j, ptcp_conn tc1), e1)" and shm: "shm_recvq tc1 = None"
    using tconn_Front_tcp [OF _ cr_msg.hyps(2)] IH by metis
  then have F: "pconn_Front M cf (ptcp_conn tc) e = Some (ok (Some i, ptcp_conn tc1), e1)" by (cases j) auto
  note R = poll_ready [OF conjunct1 [OF IH] N(1,2) st F]
  have rn: "recv_num mc = int (n + length got)" "msg_sent_time mc = Map.empty" using IH by simp_all
  obtain h' body' mc1 w1 pc where T: "load_at (c_order cf) i (ptcp_conn tc1) = ok h'" "msg_type h' \<noteq> HeartbeatMsg_type"
      "body' = seg (unat i + 8) (unat i + frame_len h') (recvbuf (ptcp_conn tc1))" "front_result (ptcp_conn tc1) = Some i"
      "pconn_Pop cf (ptcp_conn tc1) = ok pc"
      "market_OnServerMsg cf G (InRecvBuf i) tc1 (e1, mc) = Some (ok (tc1\<lparr>ptcp_conn := pc\<rparr>), (w1, mc1))"
      "recv_num mc1 = recv_num mc + 1" "msg_sent_time mc1 = Map.empty" "w1 = snd (now G e1)"
    by (rule feed_message_taken [OF R(1) shm R(2) fd(1) rn, of G e1])
  have eq: "h' = h" "body' = body" using T(1,3) cr_msg.hyps(3,4) by simp_all
  have new: "tc2 = tc1\<lparr>ptcp_conn := pc\<rparr>" "e2 = w1" "mc2 = mc1" using T(6) cr_msg.hyps(5) by simp_all
  have log: "log e2 = log e1" using quietD(3) [OF N(3), of e1] T(9) new by (metis prod.collapse)
  have "pop_run M cf s log a (got @ [(h, body)]) pc e1"
    by (rule pop_pop [OF pop_front [OF conjunct1 [OF IH] F] T(4) cr_msg.hyps(3) _ cr_msg.hyps(4) T(5)])
      (use T(2) eq in simp)
  then have "pop_run M cf s log a (got @ [(h, body)]) pc e2"
    by (rule pop_other) (simp_all add: ack_kept_def log)
  then show ?case using new shm rn T(7,8) by simp
next
  case (cr_other got tc mc e tc1 e1)
  then show ?case using pop_other [where log = log, OF conjunct1 [OF cr_other.IH] cr_other.hyps(3-5)] by simp
qed

section \<open>Properties\<close>

text \<open>
  C5. A single client never exits.  While the stream carries the feed from the place the
  client's counter stands at, the counter counts the messages taken, they are the first of
  the feed, and the next message that \<open>Front\<close> finds is taken: its handler returns, without
  a fault, and the message is popped.
\<close>

theorem client_takes_feed:
  assumes "client_run M cf s log a G mc0 got tc mc e" and "read_bounded M" "socket_log M s log" "quiet G log"
    and "feed_stream cf log ms" and "feed (c_order cf) n ms" "recv_num mc0 = int n" "msg_sent_time mc0 = Map.empty"
  shows "recv_num mc = int (n + length got) \<and> prefix got (map (frame_of (c_order cf)) ms) \<and>
    (\<forall>p tc1 e1. tconn_Front M cf tc e = Some (ok (Some p, tc1), e1) \<longrightarrow>
       (\<exists>tc2 e2 mc2. market_OnServerMsg cf G p tc1 (e1, mc) = Some (ok tc2, (e2, mc2)) \<and>
          recv_num mc2 = recv_num mc + 1))"
proof -
  have I: "pop_run M cf s log a got (ptcp_conn tc) e" "shm_recvq tc = None" "recv_num mc = int (n + length got)"
      "msg_sent_time mc = Map.empty"
    using client_run_inv [OF assms] by simp_all
  have "prefix got (map (frame_of (c_order cf)) ms)"
  proof -
    obtain stream where D: "delivers log stream" "good_stream cf stream"
        "prefix (app_frames (c_order cf) stream) (map (frame_of (c_order cf)) ms)"
      using assms(5) by (auto simp: feed_stream_def)
    have "rx_ok cf s (log e) got (ptcp_conn tc)" by (rule rx_run_ok [OF pop_run_rx(1) [OF I(1)] assms(2,3) D(1,2)])
    then have "prefix got (app_frames (c_order cf) (log e))" by (auto simp: rx_ok_def)
    moreover obtain cs where "stream = log e @ cs" using D(1) by (auto simp: delivers_def)
    ultimately show ?thesis using D(3) app_frames_mono prefix_order.trans by blast
  qed
  moreover have "\<exists>tc2 e2 mc2. market_OnServerMsg cf G p tc1 (e1, mc) = Some (ok tc2, (e2, mc2)) \<and>
      recv_num mc2 = recv_num mc + 1"
    if F: "tconn_Front M cf tc e = Some (ok (Some p, tc1), e1)" for p tc1 e1
  proof -
    obtain i where i: "p = InRecvBuf i" "pconn_Front M cf (ptcp_conn tc) e = Some (ok (Some i, ptcp_conn tc1), e1)"
        and shm: "shm_recvq tc1 = None"
      by (rule tconn_Front_tcp [OF I(2) F]) (auto dest: sym)
    note R = poll_ready [OF I(1) assms(2,3,5) i(2)]
    show ?thesis
      by (rule feed_message_taken [OF R(1) shm R(2) assms(6) I(3,4), of G e1]) (use i(1) in blast)
  qed
  ultimately show ?thesis using I(3) by simp
qed

text \<open>A run of the client: the feed from its second message on, which arrives in one piece.\<close>

definition burst_os :: "u8 list \<Rightarrow> (nat \<times> u8 list) os" where
  "burst_os stream = (stream_os stream)
     \<lparr>os_read := \<lambda>fd n (k, out).
        if fd = 5 then
          (let bs = take n (drop k stream)
           in if bs = [] then (Inl EAGAIN, (k, out)) else (Inr bs, (min (k + length bs) (length stream), out)))
        else (Inl 9, (k, out))\<rparr>"

lemma burst_os_bounded: "read_bounded (burst_os stream)"
  unfolding read_bounded_def burst_os_def by (auto simp: Let_def split: if_splits)

lemma burst_os_log: "socket_log (burst_os stream) 5 (delivered stream)"
proof -
  have "take (min (k + length bs) (length stream)) stream = take k stream @ bs"
    if "bs = take n (drop k stream)" for n k bs
  proof -
    have "take (k + n) stream = take k stream @ bs" using that by (simp add: take_add)
    moreover have "take (min (k + length bs) (length stream)) stream = take (k + n) stream"
      using that by (cases "k + n \<le> length stream") (auto simp: min_def)
    ultimately show ?thesis by simp
  qed
  then show ?thesis
    unfolding socket_log_def burst_os_def delivered_def by (auto simp: Let_def split: if_splits)
qed

lemma burst_open: "pconn_Open (burst_os stream) small_conf 5 0 0 small_conn e = Some (ok open_conn, e)"
  by (simp add: pconn_Open_def small_conn_def pconn_new_def ptcpq_LoginAck_def ptcpq_Ack_def
      ptcpq_new_def SendPending_def IsClosed_def ptcpq_GetSendable_def open_conn_def Let_def)

definition still_source :: "'e source" where
  "still_source = \<lparr>uniform_real = \<lambda>lo hi e. (lo, e), uniform_int = \<lambda>lo hi e. (lo, e), clock_gettime = \<lambda>e. ((1, 0), e)\<rparr>"

lemma still_quiet: "quiet still_source log"
  by (simp add: quiet_def still_source_def)

definition second_trade :: trade_msg where
  "second_trade = \<lparr>tr_instrument_id = 1, tr_price = 0, tr_size = 7, tr_trade_id = 1, tr_is_buy = True, tr_timestamp = 0\<rparr>"

definition second_bytes :: "u8 list" where
  "second_bytes = set_fields (trade_fields le_host second_trade) (replicate 40 0)"

definition second_msg :: pmsg where
  "second_msg = (\<lparr>hdr_size = 48, msg_type = 6, ack_seq = 0\<rparr>, bytes_blocks le_host second_bytes)"

definition second_stream :: "u8 list" where
  "second_stream = header_bytes le_host (fst second_msg) @ second_bytes"

definition second_client :: market_client where
  "second_client = \<lparr>msg_sent = 0, start_time = 0, stop_time = 0, send_num = 0, recv_num = 1, stats_of = Mapping.empty,
     msg_sent_time = Map.empty, mc_log = []\<rparr>"


lemma length_second_bytes [simp]: "length second_bytes = 40"
proof -
  have "laid_out 0 (trade_fields le_host second_trade) (length (replicate 40 (0 :: u8)))"
    using trade_laid_out by simp
  then show ?thesis by (simp add: second_bytes_def)
qed

lemma second_frame: "frame_of le_host second_msg = (fst second_msg, second_bytes)" "frame_len (fst second_msg) = 48"
  using blocks_bytes_blocks [of second_bytes 5 le_host]
  by (simp_all add: frame_of_def second_msg_def frame_len_def unat_round8)

lemma second_frames: "wire_frames le_host second_stream = ([frame_of le_host second_msg], [])"
proof -
  have w: "wire_header le_host second_stream = fst second_msg" "length second_stream = 48"
    by (simp_all add: second_stream_def wire_header_def)
  have s: "seg 8 48 second_stream = second_bytes"
    by (simp add: second_stream_def seg_def)
  have "wire_frames le_host [] = ([], [])" by (subst wire_frames.simps) simp
  then show ?thesis
    using wire_frames_step [of second_stream "fst second_msg" le_host] w s
    by (simp add: second_frame)
qed

lemma second_good: "good_stream small_conf second_stream"
  by (simp add: good_stream_def second_frames wf_frame_def hb_plain_def is_hb_def second_frame incomplete_def)
    (simp add: second_msg_def HeartbeatMsg_type_def)

lemma second_feed: "feed_msg le_host 1 second_msg"
proof -
  have "int_ok 1" by (simp add: int_ok_def)
  then have "get_int le_host 0 second_bytes = 1"
    unfolding second_bytes_def
    by (intro get_int_set [of 0]) (simp_all add: trade_laid_out, simp add: trade_fields_def second_trade_def at_defs)
  moreover have "feed_type 1 = 6" "body_size 6 = 40"
    by (simp_all add: feed_type_def body_size_def MarketDepthMsg_type_def TradeMsg_type_def sizeof_TradeMsg_def)
  ultimately show ?thesis
    using blocks_bytes_blocks [of second_bytes 5 le_host] by (simp add: feed_msg_def second_msg_def)
qed


lemma second_app: "app_frames (c_order small_conf) second_stream = map (frame_of (c_order small_conf)) [second_msg]"
proof -
  have "app_msg second_msg" by (simp add: app_msg_def second_msg_def HeartbeatMsg_type_def)
  then show ?thesis by (simp add: app_frames_def second_frames)
qed

definition second_conn :: tconn where
  "second_conn = (tconn_new small_conf [])\<lparr>ptcp_conn := open_conn\<rparr>"

theorem client_takes_feed_witness:
  "\<exists>tc e tc1 e1 tc2 e2 mc2.
     client_run (burst_os second_stream) small_conf 5 (delivered second_stream) 0 still_source second_client [] tc second_client e \<and>
     tconn_Front (burst_os second_stream) small_conf tc e = Some (ok (Some (InRecvBuf 0), tc1), e1) \<and>
     market_OnServerMsg small_conf still_source (InRecvBuf 0) tc1 (e1, second_client) = Some (ok tc2, (e2, mc2)) \<and>
     recv_num mc2 = 2"
proof -
  let ?N = "burst_os second_stream" and ?log = "delivered second_stream"
  have a: "my_ack small_conn = Some 0" by (simp add: my_ack_def small_conn_def ptcpq_new_def ptcpq_MyAck_def)
  have 0: "client_run ?N small_conf 5 ?log 0 still_source second_client [] second_conn second_client (0, [])"
    by (rule cr_open [OF _ small_shape(1) a, where ack = 0 and ?t0.0 = 0 and ?e0.0 = "(0, [])"])
      (simp_all add: second_conn_def tconn_new_def burst_open delivered_def)
  have "case tconn_Front ?N small_conf second_conn (0, []) of
      Some (Inr (r1, c1), e1) \<Rightarrow> r1 = None \<and> (case tconn_Front ?N small_conf c1 e1 of
        Some (Inr (r2, c2), e2) \<Rightarrow> r2 = Some (InRecvBuf 0) | _ \<Rightarrow> False) | _ \<Rightarrow> False"
    by code_simp
  then obtain r1 c1 e1 where f1: "tconn_Front ?N small_conf second_conn (0, []) = Some (ok (r1, c1), e1)"
    and s: "r1 = None \<and> (case tconn_Front ?N small_conf c1 e1 of
        Some (Inr (r2, c2), e2) \<Rightarrow> r2 = Some (InRecvBuf 0) | _ \<Rightarrow> False)" by (rule ranE)
  from s have "case tconn_Front ?N small_conf c1 e1 of
        Some (Inr (r2, c2), e2) \<Rightarrow> r2 = Some (InRecvBuf 0) | _ \<Rightarrow> False" by simp
  then obtain r2 c2 e2 where f2: "tconn_Front ?N small_conf c1 e1 = Some (ok (r2, c2), e2)" "r2 = Some (InRecvBuf 0)"
    by (rule ranE)
  have 1: "client_run ?N small_conf 5 ?log 0 still_source second_client [] c1 second_client e1"
    by (rule cr_idle [OF 0]) (use f1 s in simp)
  have f: "feed_stream small_conf ?log [second_msg]"
    unfolding feed_stream_def
    by (intro exI [of _ second_stream]) (use stream_os_delivers second_good second_app in simp)
  have n: "recv_num second_client = int 1" "msg_sent_time second_client = Map.empty"
    by (simp_all add: second_client_def)
  have fd: "feed (c_order small_conf) 1 [second_msg]" using second_feed by (simp add: feed_def)
  have "\<exists>tc2 e3 mc2. market_OnServerMsg small_conf still_source (InRecvBuf 0) c2 (e2, second_client) = Some (ok tc2, (e3, mc2)) \<and>
      recv_num mc2 = 2"
    using client_takes_feed [OF 1 burst_os_bounded burst_os_log still_quiet f fd n] f2 n(1) by (cases e2) simp
  then show ?thesis using 1 f2 by blast
qed


definition sample_level :: price_level where
  "sample_level = \<lparr>pl_price = 4616189618054758400, pl_size = - 3\<rparr>"


text \<open>The place of a name in the two lists.\<close>

lemma symbol_idx:
  "GetSymbolName (int n) = base_currencies ! (n mod 20) @ ''-'' @ quote_currencies ! (n div 20 mod 6)" if "n < 120" for n
proof -
  have l: "length base_currencies = 20" "length quote_currencies = 6"
    by (simp_all add: base_currencies_def quote_currencies_def)
  have "unat (word_of_int (int n) :: u64) = n" using that by (simp add: unat_of_nat)
  then have "unat ((word_of_int (int n) :: u64) mod of_nat 20) = n mod 20"
      "unat ((word_of_int (int n) :: u64) div of_nat 20 mod of_nat 6) = n div 20 mod 6"
    by (simp_all add: unat_mod unat_div_distrib unat_mod_distrib)
  then show ?thesis by (simp only: GetSymbolName_def Let_def l)
qed

lemma no_dash: "b \<in> set base_currencies \<Longrightarrow> CHR ''-'' \<notin> set b"
  by (auto simp: base_currencies_def)

lemma symbol_name_inj:
  assumes "m < 120" "n < 120" "GetSymbolName (int m) = GetSymbolName (int n)"
  shows "m = n"
proof -
  let ?b = "\<lambda>n. base_currencies ! (n mod 20)" and ?q = "\<lambda>n. quote_currencies ! (n div 20 mod 6)"
  have l: "length base_currencies = 20" "length quote_currencies = 6" and d: "distinct base_currencies" "distinct quote_currencies"
    by (simp_all add: base_currencies_def quote_currencies_def)
  have "?b k \<in> set base_currencies" for k using l by (intro nth_mem) simp
  then have "?b m = ?b n \<and> ?q m = ?q n"
    using assms by (intro join_inj [where ch = "CHR ''-''"] no_dash) (simp_all add: symbol_idx)
  then have "m mod 20 = n mod 20" "m div 20 mod 6 = n div 20 mod 6"
    using nth_eq_iff_index_eq [OF d(1)] nth_eq_iff_index_eq [OF d(2)] l by simp_all
  moreover have "m div 20 < 6" "n div 20 < 6" using assms by simp_all
  ultimately show ?thesis by (metis mod_less div_mod_decomp)
qed

text \<open>
  The name of an instrument is always one of the base currencies, a dash and one of the quote
  currencies, for every \<open>int\<close>, negative ones included, and the 120 instruments of the feed have
  different names.
\<close>

theorem symbol_names:
  "(\<exists>b q. GetSymbolName v = b @ ''-'' @ q \<and> b \<in> set base_currencies \<and> q \<in> set quote_currencies) \<and>
   inj_on GetSymbolName (int ` {..< 120})"
proof -
  have l: "length base_currencies = 20" "length quote_currencies = 6"
    by (simp_all add: base_currencies_def quote_currencies_def)
  have "unat (x mod 20) < 20" "unat (x mod 6) < 6" for x :: u64
    by (simp_all add: unat_mod)
  then have "base_currencies ! unat (x mod 20) \<in> set base_currencies" "quote_currencies ! unat (y mod 6) \<in> set quote_currencies"
    for x y :: u64
    using l by simp_all
  then show ?thesis
    by (auto simp: GetSymbolName_def [of v] Let_def l intro!: inj_onI dest: symbol_name_inj)
qed

text \<open>
  C22. The sender over TCP, at any point of the life of a connection: the \<open>i\<close>-th call posts the
  \<open>i\<close>-th message of the feed after those posted before and sends what it can, when the queue has
  room for it; otherwise nothing happens.  No call faults or fails to return.
\<close>

theorem send_next_posts:
  assumes "tx_run N cf s log q0 k items acks (ptcp_conn c) e" and "send_log N s log" "0 \<le> s" "quiet G log"
    and "ptcpq_inv (TcpQueueSize cf) (c_order cf) q0" "list_all app_msg (pending (c_order cf) q0)"
    and "k \<le> length (pending (c_order cf) q0)" "k < 2147483648"
    and "shm_sendq c = None" and q: "q_ptr (ptcp_conn c) = Some q"
  shows "if 8 * ptcpq_free q < body_size (feed_type i) + 8 then send_next N cf F G i c a e = Some (ok (c, a), e)
    else \<exists>m c1 a1 e1. send_next N cf F G i c a e = Some (ok (c1, a1), e1) \<and> feed_msg (c_order cf) i m \<and>
      tx_run N cf s log q0 k (items @ [m]) acks (ptcp_conn c1) e1 \<and> shm_sendq c1 = None"
proof -
  from tx_run_ok [OF assms(1-3,5-8)] have tx: "tx_ok cf s (read_seq_num q0 + of_nat k) items acks (ptcp_conn c) (log e)" .
  then have inv: "ptcpq_inv (TcpQueueSize cf) (c_order cf) q" using q by (auto elim: tx_okE)
  have opn: "IsClosed (ptcp_conn c) \<or> send_log N (sockfd (ptcp_conn c)) log" using tx_ok_sock [OF tx] assms(2) by blast
  show ?thesis
  proof (cases rule: send_next_tcp [where F = F and i = i and a = a and e = e and n = "ack_seq_num q", OF assms(9) q inv opn assms(4)])
    case 1
    then show ?thesis by simp
  next
    case (2 us body q1 b pc2 e1 e2 a2)
    let ?m = "(\<lparr>hdr_size = us + 8, msg_type = feed_type i, ack_seq = ack_seq_num q\<rparr>, body)"
    have us: "unat us \<le> 65527" using 2(2) feed_type_facts(2) [of i] by simp
    have 3: "tx_run N cf s log q0 k (items @ [?m]) acks ((ptcp_conn c)\<lparr>q_ptr := Some q1\<rparr>) e"
      by (rule tx_post [OF assms(1) q us feed_type_facts(1) 2(3,4)])
    have "tx_run N cf s log q0 k (items @ [?m]) acks ((ptcp_conn c)\<lparr>q_ptr := Some q1\<rparr>) e1"
      by (rule tx_other [OF 3, of q1 _ "ack_seq_num q1"]) (use 2(6) in simp_all)
    from tx_send [OF this 2(7)] have "tx_run N cf s log q0 k (items @ [?m]) acks pc2 e2" .
    then show ?thesis
      using 2(1) 2(5) 2(8) assms(9)
      by (intro if_not_P [THEN iffD2] if_not_P exI [of _ ?m]) auto
  qed
qed

definition zero_fpu :: fpu where
  "zero_fpu = \<lparr>fp_of_int = \<lambda>i. 0, fp_lit = \<lambda>m k. 0, fp_add = \<lambda>a b. 0, fp_sub = \<lambda>a b. 0, fp_mul = \<lambda>a b. 0,
     fp_div = \<lambda>a b. 0, fp_abs = \<lambda>a. 0, fp_less = \<lambda>a b. False\<rparr>"

lemma second_tx_open:
  "tx_run (stream_os []) small_conf 5 snd new_queue 0 [] 0 (ptcp_conn second_conn) (0, [])"
proof -
  have hb: "hb_shape small_conf small_conn" by (auto simp: hb_shape_def small_conn_def pconn_new_def)
  have q0: "q_ptr small_conn = Some new_queue" by (simp add: small_conn_def)
  have o: "pconn_Open (stream_os []) small_conf 5 (read_seq_num new_queue + of_nat 0) 0 small_conn (0, []) = Some (ok open_conn, (0, []))"
    using small_open by (simp add: ptcpq_new_def)
  show ?thesis
    using tx_open [where k = 0 and log = snd, OF q0 hb o] new_queue_pending by (simp add: second_conn_def)
qed

lemma second_conn_queue:
  "shm_sendq second_conn = None" "q_ptr (ptcp_conn second_conn) = Some new_queue"
  "ptcpq_inv (TcpQueueSize small_conf) (c_order small_conf) new_queue" "ptcpq_free new_queue = 8"
  using new_queue_inv by (simp_all add: second_conn_def tconn_new_def small_conf_def ptcpq_free_def ptcpq_new_def)

theorem send_next_posts_witness:
  "\<exists>m c1 a1 e1. send_next (stream_os []) small_conf zero_fpu still_source 1 second_conn market_server_new (0, []) =
       Some (ok (c1, a1), e1) \<and> feed_msg le_host 1 m \<and>
     tx_run (stream_os []) small_conf 5 snd new_queue 0 [m] 0 (ptcp_conn c1) e1"
proof -
  have "body_size (feed_type 1) = 40"
    by (simp add: feed_type_def body_size_def MarketDepthMsg_type_def TradeMsg_type_def sizeof_TradeMsg_def)
  then have "\<exists>m c1 a1 e1. send_next (stream_os []) small_conf zero_fpu still_source 1 second_conn
       market_server_new (0, []) = Some (ok (c1, a1), e1) \<and> feed_msg le_host 1 m \<and>
     tx_run (stream_os []) small_conf 5 snd new_queue 0 ([] @ [m]) 0 (ptcp_conn c1) e1 \<and> shm_sendq c1 = None"
    using send_next_posts [OF second_tx_open stream_os_send _ still_quiet second_conn_queue(3) _ _ _ second_conn_queue(1,2),
        of 1 zero_fpu market_server_new]
    by (simp add: new_queue_pending second_conn_queue(4))
  then show ?thesis unfolding append_Nil by blast
qed


lemma suc_mod_120: "Suc i mod 120 \<noteq> i mod 120"
proof -
  have "(if Suc k = 120 then 0 else Suc k) \<noteq> k" for k by simp
  then show ?thesis unfolding mod_Suc .
qed

text \<open>One message at a wrong place ends the client.\<close>

lemma feed_frame_refused:
  assumes "feed_msg E i m" "recv_num mc = int j"
  shows "take_frames E G [frame_of E m] mc w = None \<longleftrightarrow> i mod 120 \<noteq> j mod 120"
proof -
  obtain h body where f: "frame_of E m = (h, body)" by (cases "frame_of E m")
  note F = feed_frame_body [OF assms(1) f]
  obtain sh where s: "handle_body E G (feed_type i) body = accept_msg G (feed_type i) (body_id E body) sh"
    by (rule handle_feed_body)
  have "accept_msg G (feed_type i) (body_id E body) sh mc w = None \<longleftrightarrow> i mod 120 \<noteq> j mod 120"
    by (simp only: accept_msg_none F(3) assms(2) smod_120) simp
  then show ?thesis by (auto simp: f F s split: option.splits)
qed



text \<open>The bodies are the sender's memory: a host of the other order reads their numbers reversed.\<close>

lemma load32_other: "is_little_endian E \<noteq> is_little_endian E1 \<Longrightarrow> load32 E1 (mem32 E x) = bswap32 x"
proof -
  assume "is_little_endian E \<noteq> is_little_endian E1"
  then have "mem32 E x = mem32 E1 (bswap32 x)"
    unfolding mem32_bswap by (auto simp: mem32_def Let_def)
  then show ?thesis by simp
qed

lemma bswap_small:
  assumes "0 < k" "k < 120"
  shows "sint (bswap32 (of_nat k)) \<notin> {- 120 <..< 120}"
proof -
  have "list_all (\<lambda>k. 120 \<le> sint (bswap32 (of_nat k)) \<or> sint (bswap32 (of_nat k)) \<le> - 120) [1 ..< 120]"
    by code_simp
  then have "120 \<le> sint (bswap32 (of_nat k)) \<or> sint (bswap32 (of_nat k)) \<le> - 120"
    using assms by (auto simp: list_all_iff)
  then show ?thesis by auto
qed

text \<open>
  C37. The library converts headers only: a client whose byte order is not the server's exits at the
  first message of the feed whose instrument is not 0, wherever it counts from.
\<close>

theorem foreign_byte_order_exits:
  assumes "is_little_endian E \<noteq> is_little_endian E1" "feed_msg E i m" "i mod 120 \<noteq> 0"
  shows "take_frames E1 G [frame_of E m] mc w = None"
proof -
  obtain h body where f: "frame_of E m = (h, body)" by (cases "frame_of E m")
  note F = feed_frame_body [OF assms(2) f]
  have len: "4 \<le> length body"
    using assms(2) f by (cases rule: feed_types [of i]) (auto simp: feed_msg_def frame_of_def)
  define w4 where "w4 = load32 E (take 4 body)"
  have b: "take 4 body = mem32 E w4" using len by (simp add: w4_def mem32_load32)
  have s4: "sint w4 = int (i mod 120)" using F(3) by (simp add: body_id_def get_int_def w4_def seg_def)
  have "w4 = of_int (sint w4)" by simp
  then have w4: "w4 = of_nat (i mod 120)" unfolding s4 by simp
  then have id: "body_id E1 body = sint (bswap32 (of_nat (i mod 120)))"
    using load32_other [OF assms(1), of w4] b w4 by (simp add: body_id_def get_int_def seg_def)
  have "body_id E1 body \<notin> {- 120 <..< 120}"
    unfolding id by (rule bswap_small) (use assms(3) in simp_all)
  moreover have "recv_num mc smod 120 \<in> {- 120 <..< 120}"
    by (auto simp: signed_modulo_int_def sgn_if)
  ultimately have ne: "body_id E1 body \<noteq> recv_num mc smod 120" by metis
  obtain sh where s: "handle_body E1 G (feed_type i) body = accept_msg G (feed_type i) (body_id E1 body) sh"
    by (rule handle_feed_body)
  show ?thesis using ne accept_msg_none [of G "feed_type i" "body_id E1 body" sh mc w] by (simp add: f F(1,2) s)
qed

theorem foreign_byte_order_exits_witness:
  "take_frames \<lparr>ToLittle = True, is_little_endian = False\<rparr> still_source [frame_of le_host second_msg] second_client () = None"
  by (rule foreign_byte_order_exits [OF _ second_feed]) (simp_all add: le_host_def)

text \<open>An open TCP connection whose queue has room for the next message of the feed.\<close>

definition feedable :: "'e os \<Rightarrow> conf \<Rightarrow> 'e source \<Rightarrow> nat \<Rightarrow> tconn \<Rightarrow> bool" where
  "feedable N cf G i c \<longleftrightarrow> shm_sendq c = None \<and> \<not> tconn_IsClosed c \<and>
     (\<exists>q (log :: _ \<Rightarrow> u8 list). q_ptr (ptcp_conn c) = Some q \<and> ptcpq_inv (TcpQueueSize cf) (c_order cf) q \<and>
        send_log N (sockfd (ptcp_conn c)) log \<and> quiet G log \<and> body_size (feed_type i) + 8 \<le> 8 * ptcpq_free q)"

text \<open>What a connection has still to deliver.\<close>

definition queued :: "conf \<Rightarrow> tconn \<Rightarrow> pmsg list" where
  "queued cf c = (case q_ptr (ptcp_conn c) of None \<Rightarrow> [] | Some q \<Rightarrow> pending (c_order cf) q)"

lemma feedable_posts:
  assumes "feedable N cf G i c"
  obtains m c1 a1 e1 where "send_next N cf F G i c a e = Some (ok (c1, a1), e1)" "feed_msg (c_order cf) i m"
    "queued cf c1 = queued cf c @ [m]"
proof -
  obtain q and log :: "'a \<Rightarrow> u8 list" where q: "shm_sendq c = None" "q_ptr (ptcp_conn c) = Some q" "ptcpq_inv (TcpQueueSize cf) (c_order cf) q"
      "send_log N (sockfd (ptcp_conn c)) log" "quiet G log" "body_size (feed_type i) + 8 \<le> 8 * ptcpq_free q"
    using assms by (auto simp: feedable_def)
  have opn: "IsClosed (ptcp_conn c) \<or> send_log N (sockfd (ptcp_conn c)) log" using q(4) by blast
  show thesis
  proof (cases rule: send_next_tcp [where F = F and i = i and a = a and e = e and n = "ack_seq_num q", OF q(1-3) opn q(5)])
    case 1
    then show thesis using q(6) by linarith
  next
    case (2 us body q1 b pc2 e1 e2 a2)
    have us: "unat us \<le> 65527" using 2(2) feed_type_facts(2) [of i] by simp
    have room: "msg_blocks us \<le> ptcpq_free q" using 2(1-3) 2(5) by (simp add: feed_msg_def)
    obtain q1' where p: "ptcpq_post (TcpQueueSize cf) (c_order cf) us (feed_type i) body q = ok (True, q1')"
        "ptcpq_inv (TcpQueueSize cf) (c_order cf) q1'"
        "pending (c_order cf) q1' = pending (c_order cf) q @
           [(\<lparr>hdr_size = us + 8, msg_type = feed_type i, ack_seq = ack_seq_num q\<rparr>, body)]"
      by (rule post_ok [OF q(3) us room 2(3)])
    have eq: "q1' = q1" using p(1) 2(4) by simp
    obtain b2 pc3 e3 n where sp: "SendPending N cf ((ptcp_conn c)\<lparr>q_ptr := Some q1\<rparr>) e1 = Some (ok (b2, pc3), e3)"
        "q_ptr pc3 = Some (q1\<lparr>send_idx := n\<rparr>)"
      by (rule SendPending_blocks [where c = "(ptcp_conn c)\<lparr>q_ptr := Some q1\<rparr>" and q = q1 and cf = cf and N = N and log = log and e = e1])
        (use p(2) eq q(4) in \<open>simp_all add: IsClosed_def\<close>)
    have "pc3 = pc2" using sp(1) 2(7) by simp
    then have "queued cf (c\<lparr>ptcp_conn := pc2\<rparr>) = queued cf c @
        [(\<lparr>hdr_size = us + 8, msg_type = feed_type i, ack_seq = ack_seq_num q\<rparr>, body)]"
      using p(3) sp(2) q(2) eq by (simp add: queued_def pending_def live_def)
    then show thesis using that 2(5) 2(8) by blast
  qed
qed

text \<open>
  C36. The feed is shared by all connections: a pass over two of them gives the first the \<open>i\<close>-th
  message and the second the one after it.  Of two clients that both wait for the \<open>i\<close>-th message
  the first takes its own and the second exits.
\<close>

theorem second_client_exits:
  assumes "feedable N cf G i c0" "feedable N cf G (Suc i) c1" "Suc i < max_msgs_to_send"
    and "recv_num mc = int i" "msg_sent_time mc = Map.empty"
  shows "\<exists>c0' c1' a' e' m0 m1.
    send_round N cf F G [0, 1] ([c0, c1], i, a) e = Some (ok ([c0', c1'], Suc (Suc i), a'), e') \<and>
    queued cf c0' = queued cf c0 @ [m0] \<and> queued cf c1' = queued cf c1 @ [m1] \<and>
    (\<exists>mc1 w1. take_frames (c_order cf) G1 [frame_of (c_order cf) m0] mc w = Some (mc1, w1) \<and> recv_num mc1 = int (Suc i)) \<and>
    take_frames (c_order cf) G1 [frame_of (c_order cf) m1] mc w = None"
proof -
  obtain m0 c0' a1 e1 where 0: "send_next N cf F G i c0 a e = Some (ok (c0', a1), e1)" "feed_msg (c_order cf) i m0"
      "queued cf c0' = queued cf c0 @ [m0]"
    by (rule feedable_posts [OF assms(1)])
  obtain m1 c1' a2 e2 where 1: "send_next N cf F G (Suc i) c1 a1 e1 = Some (ok (c1', a2), e2)" "feed_msg (c_order cf) (Suc i) m1"
      "queued cf c1' = queued cf c1 @ [m1]"
    by (rule feedable_posts [OF assms(2)])
  have opn: "\<not> tconn_IsClosed c0" "\<not> tconn_IsClosed c1" using assms(1,2) by (simp_all add: feedable_def)
  have "send_round N cf F G [1] ([c0', c1], Suc i, a1) e1 = Some (ok ([c0', c1'], Suc (Suc i), a2), e2)"
    using 1(1) opn by (simp add: and_then_def Let_def)
  then have r: "send_round N cf F G [0, 1] ([c0, c1], i, a) e = Some (ok ([c0', c1'], Suc (Suc i), a2), e2)"
    using 0(1) opn assms(3) by (simp add: and_then_def Let_def)
  have "\<forall>j < length [m0]. feed_msg (c_order cf) (i + j) ([m0] ! j)" using 0(2) by simp
  from take_feed [OF this assms(4,5), of G1 w] obtain mc1 w1 where
    t: "take_frames (c_order cf) G1 [frame_of (c_order cf) m0] mc w = Some (mc1, w1)" "recv_num mc1 = int (Suc i)"
    by auto
  have n: "take_frames (c_order cf) G1 [frame_of (c_order cf) m1] mc w = None"
    by (rule feed_frame_refused [OF 1(2) assms(4), THEN iffD2, OF suc_mod_120])
  show ?thesis
    by (intro exI conjI) (rule r, rule 0(3), rule 1(3), rule t(1), rule t(2), rule n)
qed

theorem second_client_exits_witness:
  "\<exists>c0' c1' a' e' m0 m1.
    send_round (stream_os []) small_conf zero_fpu still_source [0, 1] ([second_conn, second_conn], 1, market_server_new) (0, []) =
      Some (ok ([c0', c1'], 3, a'), e') \<and>
    queued small_conf c0' = [m0] \<and> queued small_conf c1' = [m1] \<and>
    take_frames le_host still_source [frame_of le_host m1] second_client () = None"
proof -
  have sz: "body_size (feed_type 1) = 40" "body_size (feed_type (Suc 1)) = 40"
    by (simp_all add: feed_type_def body_size_def MarketDepthMsg_type_def TradeMsg_type_def VolatilityMsg_type_def sizeof_defs)
  have o: "\<not> tconn_IsClosed second_conn" "sockfd (ptcp_conn second_conn) = 5"
    by (simp_all add: tconn_IsClosed_def IsClosed_def second_conn_def open_conn_def)
  have l: "send_log (stream_os [] :: (nat \<times> u8 list) os) (sockfd (ptcp_conn second_conn)) snd"
    unfolding o(2) by (rule stream_os_send)
  have f: "feedable (stream_os []) small_conf still_source n second_conn" if "body_size (feed_type n) = 40" for n
    unfolding feedable_def that second_conn_queue(4)
    by (intro conjI exI [of _ new_queue] exI [of _ snd] second_conn_queue o(1) l still_quiet)
      (simp add: second_conn_queue(4))
  have c: "recv_num second_client = int 1" "msg_sent_time second_client = Map.empty" "Suc 1 < max_msgs_to_send"
    by (simp_all add: second_client_def max_msgs_to_send_def)
  have q: "queued small_conf second_conn = []"
    by (simp add: queued_def second_conn_queue(2) new_queue_pending)
  have e: "Suc (Suc 1) = 3" "c_order small_conf = le_host" by simp_all
  from second_client_exits [OF f [OF sz(1)] f [OF sz(2)] c(3,1,2), of zero_fpu market_server_new "(0, [])" still_source "()"]
  show ?thesis unfolding q append_Nil e by blast
qed

lemma start_run_unmeasured:
  assumes "start_run N M c mc w = (True, mc1, w1)" "msg_sent mc = 0"
  shows "unmeasured mc1"
  using assms by (auto simp: start_run_def unmeasured_def latency_stats_new_def upto.simps lookup_update' split: prod.splits sum.splits if_splits)

text \<open>
  C38. The client measures nothing: it never counts or records a message it sent, so whatever the
  server and the system do, the statistics printed at the end of a run are the number received,
  an average of zero and no line for any type of message.
\<close>

theorem latency_never_measured:
  assumes "market_Run N M S F G J ip port cl (w, mc) = Some (ok (cl1, printed), (w1, mc1))" and "msg_sent mc = 0"
  shows "printed = [] \<or>
    printed = [LogStats [ShowInt 0, ShowInt (recv_num mc1), ShowNat (stop_time mc1 - start_time mc1)],
      LogStats [ShowDouble (fp_lit F 0 0), ShowDouble (fp_div F (fp_lit F 0 0) (fp_lit F 1000000 0))]]"
proof -
  let ?app = "market_client_app (s_conf S) G"
  have login: "snd e1 = snd e" if "OnLoginSuccess ?app rsp e = (t, e1)" for rsp e t e1
    using that by (auto simp: market_client_app_def split: prod.splits)
  obtain b cl0 w0 mc0 where C: "Connect (lift_os N) S ?app J False ip port [0] cl (w, mc) = Some (ok (b, cl0), (w0, mc0))"
    using assms(1) by (auto simp: market_Run_def and_then_def split: option.splits sum.splits)
  have mc0: "mc0 = mc" using own.Connect_env [OF login C] by simp
  obtain started mc2 w2 where st: "start_run N M (cli_conn cl0) mc w0 = (started, mc2, w2)" by (metis surj_pair)
  show ?thesis
  proof (cases "b \<and> started")
    case False
    then have "printed = []" using assms(1) C mc0 st by (cases b; cases started) (auto simp: market_Run_def and_then_def)
    then show ?thesis ..
  next
    case True
    obtain t w3 where t: "now G w2 = (t, w3)" by fastforce
    obtain cl2 w4 mc4 where R: "run_tcp N S G cl0 (w3, mc2\<lparr>start_time := t\<rparr>) = Some (ok cl2, (w4, mc4))"
      using assms(1) C mc0 st t True by (auto simp: market_Run_def and_then_def split: option.splits sum.splits)
    obtain cl3 w5 mc5 where Z: "client_Stop (lift_os N) cl2 (w4, mc4) = (cl3, (w5, mc5))" by (metis surj_pair)
    have u2: "unmeasured mc2" by (rule start_run_unmeasured [OF _ assms(2)]) (use st True in simp)
    have "unmeasured (mc2\<lparr>start_time := t\<rparr>)" by (rule unmeasured_cong [OF _ _ _ _ u2]) simp_all
    then have "unmeasured mc4" using run_tcp_unmeasured [OF R] by simp
    moreover have "mc5 = mc4" using own.client_Stop_env [OF Z] by simp
    moreover have "mc1 = mc5" "printed = PrintLatencyStats F (stop_time mc5 - start_time mc5) mc5"
      using assms(1) C mc0 st t True R Z by (auto simp: market_Run_def and_then_def)
    ultimately show ?thesis by (simp add: PrintLatencyStats_unmeasured)
  qed
qed

text \<open>A run against a server that accepts the login and leaves; the environment counts the reads.\<close>

definition leaving_os :: "nat os" where
  "leaving_os =
     \<lparr>os_open = \<lambda>f k. (Inr 3, k), os_shm_open = \<lambda>f k. (Inr 3, k), os_ftruncate = \<lambda>fd n k. (Inr (), k),
      os_mmap_ptcp = \<lambda>fd n k. (Inr (ptcpq_new (replicate 8 zero_header)), k),
      os_mmap_ring = \<lambda>fd n k. (Inl 12, k), os_mmap_name = \<lambda>fd n k. (Inr (replicate n NUL), k),
      os_munmap_ptcp = \<lambda>q k. k, os_munmap_ring = \<lambda>q k. k, os_munmap_name = \<lambda>q k. k, os_close = \<lambda>fd k. k,
      os_send = \<lambda>fd bs k. (Inr (length bs), k),
      os_read = \<lambda>fd n k. (Inr (if k = 0 then take n rsp_bytes else []), Suc k), os_socket = \<lambda>k. (Inr 5, k),
      os_setsockopt = \<lambda>fd opt k. (Inr (), k), os_nonblock = \<lambda>fd k. k, os_connect = \<lambda>fd a p k. (Inr (), k),
      os_bind = \<lambda>fd a p k. (Inr (), k), os_listen = \<lambda>fd k. (Inr (), k), os_accept = \<lambda>fd k. (Inl EAGAIN, k)\<rparr>"

lemma leaving_run:
  "case market_Run leaving_os (\<lambda>fd n k. (Inr 0, k)) small_sconf zero_fpu still_source small_cjunk ''ip'' 1234
      small_client (0, second_client) of
    Some (Inr (cl1, printed), e) \<Rightarrow> printed \<noteq> [] | _ \<Rightarrow> False"
  by code_simp

theorem latency_never_measured_witness:
  "\<exists>cl1 mc1 k. market_Run leaving_os (\<lambda>fd n k. (Inr 0, k)) small_sconf zero_fpu still_source small_cjunk ''ip'' 1234
      small_client (0, second_client) =
    Some (ok (cl1, [LogStats [ShowInt 0, ShowInt (recv_num mc1), ShowNat (stop_time mc1 - start_time mc1)],
      LogStats [ShowDouble 0, ShowDouble 0]]), (k, mc1))"
proof -
  obtain cl1 printed e where r: "market_Run leaving_os (\<lambda>fd n k. (Inr 0, k)) small_sconf zero_fpu still_source small_cjunk
      ''ip'' 1234 small_client (0, second_client) = Some (ok (cl1, printed), e)" and p: "printed \<noteq> []"
    using leaving_run by (rule ranE)
  obtain k mc1 where e: "e = (k, mc1)" by (cases e)
  have "msg_sent second_client = 0" by (simp add: second_client_def)
  from latency_never_measured [OF r [unfolded e] this] p r e show ?thesis by (auto simp: zero_fpu_def)
qed

text \<open>
  C40. The callbacks of the server fit the library: the reaction to a message keeps the connection as
  the server needs it, so every reachable state of the server that runs them is well formed; and
  a login gets a group that exists, the same for the same name, or is refused with a reason when
  there is no group of the kind.
\<close>

theorem market_callbacks_fit:
  assumes app: "app = market_app H S" and "reach (good_start S app) (srv_step N S app) srv"
    and "OnNewConnection app addr login rsp e = ((g, rsp1), e1)"
    and "13 \<le> length (error_msg rsp)"
  shows "app_ok app \<and>
    (if 0 < length (grps_of (use_shm login \<noteq> 0) srv)
     then 0 \<le> g \<and> nat g < length (grps_of (use_shm login \<noteq> 0) srv) \<and> rsp1 = rsp
     else g = - 1 \<and> c_str (error_msg rsp1) = (if use_shm login \<noteq> 0 then ''Shm disabled'' else ''Tcp disabled'')) \<and>
    (\<forall>login2 addr2 rsp2 e2. c_str (client_name login2) = c_str (client_name login) \<longrightarrow>
       (use_shm login2 \<noteq> 0) = (use_shm login \<noteq> 0) \<longrightarrow>
       fst (fst (OnNewConnection app addr2 login2 rsp2 e2)) = g)"
proof -
  have "srv_inv S srv" using reach_srv_inv [OF assms(2)] by simp
  then have len: "length (grps_of shm srv) = (if shm then MaxShmGrps S else MaxTcpGrps S)" for shm
    using caps_sel by (simp add: srv_inv_def)
  have "app_ok app" unfolding app by (rule market_app_ok)
  then show ?thesis
    using assms(3,4) by (auto simp: len app market_app_def market_OnNewConnection_def Let_def c_str_def blit_def split: if_splits)
qed

lemma new_small_market: "reach (good_start small_sconf (market_app H small_sconf)) (srv_step N small_sconf (market_app H small_sconf)) new_small"
proof (rule reach_start)
  show "good_start small_sconf (market_app H small_sconf) new_small"
    using new_small_start market_app_ok by (simp add: good_start_def)
qed

theorem market_callbacks_fit_witness:
  "fst (fst (OnNewConnection (market_app (\<lambda>_. 7) small_sconf) ''ip'' sample_login sample_rsp ((), market_server_new))) = 0"
proof -
  let ?app = "market_app (\<lambda>_. 7) small_sconf :: (unit \<times> market_server) server_app"
  obtain g rsp1 e1 where r: "OnNewConnection ?app ''ip'' sample_login sample_rsp ((), market_server_new) = ((g, rsp1), e1)"
    by (metis surj_pair)
  have "length (grps_of (use_shm sample_login \<noteq> 0) new_small) = 1"
    by (simp add: grps_of_def new_small_def server_new_def make_grps_def small_sconf_def sample_login_def Let_def)
  then show ?thesis using market_callbacks_fit [OF refl new_small_market r] r by (simp add: sample_rsp_def)
qed

lemma feed_nblk:
  assumes "feed_msg E i m"
  shows "nblk (fst m) = Suc (body_size (feed_type i) div 8)" "body_size (feed_type i) = 8 * length (snd m)"
proof -
  have h: "hdr_size (fst m) = of_nat (body_size (feed_type i) + 8)" and l: "8 * length (snd m) = body_size (feed_type i)"
    using assms by (simp_all only: feed_msg_def)
  have "unat (hdr_size (fst m)) = body_size (feed_type i) + 8"
    unfolding h unat_of_nat using feed_type_facts(2) [of i] by simp
  then show "nblk (fst m) = Suc (body_size (feed_type i) div 8)" "body_size (feed_type i) = 8 * length (snd m)"
    by (simp_all add: nblk_def l [symmetric])
qed

text \<open>
  The configurations of the two programs satisfy the assertions of the library and fit each
  other, whatever the byte orders of the hosts, and each message of the feed, 176 bytes at most,
  fits the receive buffer of the client and an empty queue of the server.
\<close>

theorem market_configurations_fit:
  assumes "feed_msg E i m"
  shows "sides_fit (market_cconf little) (market_sconf little1) \<and>
    conf_ok (s_conf (market_cconf little)) \<and> conf_ok (s_conf (market_sconf little1)) \<and>
    shmq_static_assert (ShmQueueSize (s_conf (market_sconf little1))) \<and>
    fits (s_conf (market_cconf little)) m \<and> 8 * nblk (fst m) \<le> 176 \<and>
    nblk (fst m) \<le> unat (ptcpq_BLK_CNT (TcpQueueSize (s_conf (market_sconf little1))))"
proof -
  note n = feed_nblk [OF assms]
  have b: "8 * nblk (fst m) \<le> 176" using n feed_type_facts(2) [of i] by simp
  have "sides_fit (market_cconf little) (market_sconf little1)"
    by (simp add: sides_fit_def market_cconf_def market_sconf_def market_conf_def sizeof_LoginMsg_def sizeof_LoginRspMsg_def round_to_def)
  moreover have "conf_ok (s_conf (market_cconf little))" "conf_ok (s_conf (market_sconf little1))"
    by (simp_all add: conf_ok_def market_cconf_def market_sconf_def market_conf_def)
  moreover have "shmq_static_assert (ShmQueueSize (s_conf (market_sconf little1)))"
    by (simp add: shmq_static_assert_def shmq_BLK_CNT_def market_sconf_def market_conf_def)
  moreover have "fits (s_conf (market_cconf little)) m"
    using b by (simp add: fits_def market_cconf_def market_conf_def)
  moreover have "nblk (fst m) \<le> unat (ptcpq_BLK_CNT (TcpQueueSize (s_conf (market_sconf little1))))"
    using b by (simp add: ptcpq_BLK_CNT_def market_sconf_def market_conf_def)
  ultimately show ?thesis using b by simp
qed

theorem market_configurations_fit_witness:
  "fits (s_conf (market_cconf True)) second_msg \<and> 8 * nblk (fst second_msg) \<le> 176"
  using market_configurations_fit [OF second_feed] by simp

text \<open>The second message of the feed, posted, sent and popped.\<close>

lemma second_msg_sent:
  "\<exists>c q1 n. tx_run (stream_os []) small_conf 5 snd new_queue 0 [second_msg] 0 c (n, second_stream) \<and> q_ptr c = Some q1"
proof -
  let ?N = "stream_os [] :: (nat \<times> u8 list) os" and ?c = "ptcp_conn second_conn"
  have "case ptcpq_post 64 le_host 40 6 (snd second_msg) new_queue of
      Inr y \<Rightarrow> fst y \<and> (case SendPending ?N small_conf (?c\<lparr>q_ptr := Some (snd y)\<rparr>) (0, []) of
        Some (Inr (b, c1), e1) \<Rightarrow> snd e1 = second_stream \<and> q_ptr c1 \<noteq> None | _ \<Rightarrow> False) | Inl _ \<Rightarrow> False"
    by code_simp
  then obtain y where y: "ptcpq_post 64 le_host 40 6 (snd second_msg) new_queue = ok y" "fst y"
    and s: "case SendPending ?N small_conf (?c\<lparr>q_ptr := Some (snd y)\<rparr>) (0, []) of
        Some (Inr (b, c1), e1) \<Rightarrow> snd e1 = second_stream \<and> q_ptr c1 \<noteq> None | _ \<Rightarrow> False"
    by (rule okE) simp
  define q1 where "q1 = snd y"
  have post: "ptcpq_post 64 le_host 40 6 (snd second_msg) new_queue = ok (True, q1)"
    using y by (cases y) (simp add: q1_def)
  from s obtain b c1 e1 where sp: "SendPending ?N small_conf (?c\<lparr>q_ptr := Some q1\<rparr>) (0, []) = Some (ok (b, c1), e1)"
      "snd e1 = second_stream \<and> q_ptr c1 \<noteq> None"
    unfolding q1_def by (rule ranE)
  then obtain n where send: "SendPending ?N small_conf (?c\<lparr>q_ptr := Some q1\<rparr>) (0, []) = Some (ok (b, c1), (n, second_stream))"
    and q: "q_ptr c1 \<noteq> None" by (cases e1) auto
  have "tx_run ?N small_conf 5 snd new_queue 0 ([] @ [(\<lparr>hdr_size = 40 + 8, msg_type = 6, ack_seq = ack_seq_num new_queue\<rparr>, snd second_msg)])
      0 (?c\<lparr>q_ptr := Some q1\<rparr>) (0, [])"
    by (rule tx_post [OF second_tx_open second_conn_queue(2)])
      (use post in \<open>simp_all add: HeartbeatMsg_type_def msg_blocks_def second_msg_def small_conf_def unat_blk_size\<close>)
  then have "tx_run ?N small_conf 5 snd new_queue 0 [second_msg] 0 (?c\<lparr>q_ptr := Some q1\<rparr>) (0, [])"
    by (simp add: second_msg_def ptcpq_new_def)
  from tx_send [OF this send] q show ?thesis by blast
qed

lemma second_msg_popped:
  "\<exists>got c e. pop_run (burst_os second_stream) small_conf 5 (delivered second_stream) 0 got c e \<and> length got = 1 \<and> my_ack c = Some 1"
proof -
  let ?M = "burst_os second_stream" and ?log = "delivered second_stream"
  have a: "my_ack small_conn = Some 0" by (simp add: my_ack_def small_conn_def ptcpq_new_def ptcpq_MyAck_def)
  have 0: "pop_run ?M small_conf 5 ?log 0 [] open_conn (0, [])"
    by (rule pop_open [OF small_shape(1) a burst_open]) (simp add: delivered_def)
  have "case pconn_Front ?M small_conf open_conn (0, []) of
      Some (Inr (r1, c1), e1) \<Rightarrow> (case pconn_Front ?M small_conf c1 e1 of
        Some (Inr (r2, c2), e2) \<Rightarrow> front_result c2 = Some 0 \<and>
          (case load_at le_host 0 c2 of Inr h \<Rightarrow> msg_type h = 6 | Inl _ \<Rightarrow> False) \<and>
          (case pconn_Pop small_conf c2 of Inr c3 \<Rightarrow> True | Inl _ \<Rightarrow> False)
      | _ \<Rightarrow> False) | _ \<Rightarrow> False"
    by code_simp
  then obtain r1 c1 e1 where f1: "pconn_Front ?M small_conf open_conn (0, []) = Some (ok (r1, c1), e1)"
    and s: "case pconn_Front ?M small_conf c1 e1 of
        Some (Inr (r2, c2), e2) \<Rightarrow> front_result c2 = Some 0 \<and>
          (case load_at le_host 0 c2 of Inr h \<Rightarrow> msg_type h = 6 | Inl _ \<Rightarrow> False) \<and>
          (case pconn_Pop small_conf c2 of Inr c3 \<Rightarrow> True | Inl _ \<Rightarrow> False)
      | _ \<Rightarrow> False" by (rule ranE)
  from s obtain r2 c2 e2 where f2: "pconn_Front ?M small_conf c1 e1 = Some (ok (r2, c2), e2)"
    and fr: "front_result c2 = Some 0 \<and>
          (case load_at le_host 0 c2 of Inr h \<Rightarrow> msg_type h = 6 | Inl _ \<Rightarrow> False) \<and>
          (case pconn_Pop small_conf c2 of Inr c3 \<Rightarrow> True | Inl _ \<Rightarrow> False)" by (rule ranE)
  obtain h where h: "load_at le_host 0 c2 = ok h" "msg_type h = 6" using fr by (blast elim: okE)
  obtain c3 where c3: "pconn_Pop small_conf c2 = ok c3" using fr by (blast elim: okE)
  have p: "front_result c2 = Some 0" "load_at (c_order small_conf) 0 c2 = ok h" "msg_type h \<noteq> HeartbeatMsg_type"
    using fr h by (simp_all add: HeartbeatMsg_type_def)
  note r = pop_pop [OF pop_front [OF pop_front [OF 0 f1] f2] p(1,2,3) refl c3]
  from r pop_run_rx(2) [OF r] show ?thesis by (intro exI conjI) (assumption, simp_all)
qed


end
