(* ===== verification/Spec2Isabelle.thy ===== *)
theory Spec2Isabelle
  imports PTCPConn SPSCVarQueue LoginExchange MarketProps
begin

text \<open>
  Verification of tcpshm, a header-only C++ library for persistent message connections between
  one server and many clients, over TCP or over shared memory.

  \<^bold>\<open>The program.\<close>  A server polls a listening socket and a table of sockets that have not
  logged in yet; a login gives a client a place in a connection group, which a thread of the
  user polls from then on.  A client connects, logs in and polls its one connection.  Both
  sides see a connection through the facade of \<^verbatim>\<open>tcpshm_conn.h\<close>: messages go through a pair
  of shared memory rings when the login asked for them, otherwise through a TCP connection
  with a persistent send queue in a mapped file.  A message stays in that queue until the peer
  acknowledges it, so a new connection sends again what the old one lost; both sides tell each
  other in the login what they have.  The directory \<^verbatim>\<open>crypto_market_example\<close> has a server and a
  client on top of the library: the server sends a feed of market data to all its connections,
  the client checks that the messages follow each other and counts them.

  \<^bold>\<open>Theories and sources.\<close>
  \<^item> \<open>Prelude\<close>: words, faults, slices of lists, sequence numbers, and the locale
    \<open>state_invariant\<close> for invariants of step relations.
  \<^item> \<open>MsgHeader\<close> (\<^verbatim>\<open>msg_header.h\<close>): byte swaps, \<open>Endian\<close>, the header and its layout in
    memory; the locale \<open>involution\<close> for conversions that undo themselves.
  \<^item> \<open>PTCPQueue\<close> (\<^verbatim>\<open>ptcp_queue.h\<close>): the class \<open>PTCPQueue\<close> as the record \<open>ptcpq\<close> (block array,
    three indices, two numbers) and its nine operations.  The abstraction \<open>pending\<close> reads the
    messages off the blocks; the locale \<open>persistent_queue\<close> is the contract.
  \<^item> \<open>SPSCVarQueue\<close> (\<^verbatim>\<open>spsc_varq.h\<close>): the shared memory ring as the record \<open>shmq\<close>, its
    operations, and the step system of a producer and a consumer process.
  \<^item> \<open>System\<close> (\<^verbatim>\<open>mmap.h\<close>): the system calls as a record \<open>os\<close> of functions on an unknown
    environment \<open>'e\<close>, a parameter of everything that makes one; \<open>my_mmap\<close>, \<open>my_munmap\<close>.
  \<^item> \<open>PTCPConn\<close> (\<^verbatim>\<open>ptcp_conn.h\<close>): the class \<open>PTCPConnection\<close> as the record \<open>pconn\<close>: opening,
    the receive buffer and \<open>Front\<close>, sending, heartbeats, closing.
  \<^item> \<open>ConnKept\<close>: what every operation of an open connection keeps, as the locale \<open>step_kept\<close>.
  \<^item> \<open>TcpShmConn\<close> (\<^verbatim>\<open>tcpshm_conn.h\<close>): the facade \<open>TcpShmConnection\<close> as the record \<open>tconn\<close>.
  \<^item> \<open>Login\<close> (\<^verbatim>\<open>ptcp_conn.h\<close>): the two login structs, their layout and conversion.
  \<^item> \<open>TcpShmServer\<close> (\<^verbatim>\<open>tcpshm_server.h\<close>): the record \<open>server\<close>, \<open>Start\<close>, \<open>PollCtl\<close>,
    \<open>HandleLogin\<close>, \<open>PollTcp\<close>, \<open>PollShm\<close>, \<open>Stop\<close>.  \<open>ServerSlots\<close> holds its abstract specification,
    connection groups with four moves, \<open>ServerInv\<close> the simulation, \<open>ServerProps\<close> the results.
  \<^item> \<open>TcpShmClient\<close> (\<^verbatim>\<open>tcpshm_client.h\<close>): the record \<open>client\<close>, \<open>Connect\<close>, polling, \<open>Stop\<close>;
    its results are in \<open>ClientProps\<close>.
  \<^item> \<open>LoginExchange\<close>: client and server together; \<open>Delivery\<close>: sender and receiver together.
  \<^item> \<open>MarketData\<close> (\<^verbatim>\<open>crypto_market_example/common.h\<close>, \<^verbatim>\<open>timestamp.h\<close>): the five message structs and
    their layout in memory, the memory behind a message pointer, the names of the instruments.
  \<^item> \<open>MarketServer\<close> (\<^verbatim>\<open>echo_server.cpp\<close>): the five functions that send a message as instances of
    \<open>send_msg\<close>, the sending thread (\<open>send_next\<close>, \<open>send_round\<close>, \<open>send_turn\<close>), the callbacks;
    \<open>MarketActive\<close> shows that its list of connections is the live ones, \<open>MarketRun\<close> runs the turns
    of its threads as the relation \<open>market_step\<close>.
  \<^item> \<open>MarketClient\<close> (\<^verbatim>\<open>echo_client.cpp\<close>): the handlers as instances of \<open>accept_msg\<close>, \<open>OnServerMsg\<close>,
    the statistics and \<open>Run\<close>.  \<open>EnvKept\<close> is the locale of a part of the environment that no
    system call touches; the client's variables are an instance.
  \<^item> \<open>MarketFeed\<close> has the facts on both programs, \<open>MarketProps\<close> the results on the feed.

  Members keep their names (a pointer that may be null is an option, an array a list, an
  \<open>int\<close> compared with a difference of counters the signed value of a 32-bit word).  An
  operation that may access an array out of range or a null pointer returns a sum with the
  fault on the left; a theorem that an operation returns a value also says that it does not
  fault.  Callbacks of the user are arguments when the library uses their result and events
  in a log otherwise.  In the example a \<open>double\<close> is its bit pattern; the arithmetic on doubles
  (record \<open>fpu\<close>), the random numbers and the clock (record \<open>source\<close>) are parameters, of which only
  that they leave the socket alone is assumed.  A handler that calls \<open>exit\<close> is \<open>None\<close>; the
  assertion on an unknown type is off, as in the release build.

  \<^bold>\<open>What is shown.\<close>
  \<^item> Queues: posting appends one message or changes nothing, acknowledging drops the oldest,
    a login makes the rest sendable again; the sanity check accepts exactly the well-formed
    files; the ring delivers each message once and in order under every interleaving.
  \<^item> Connections: for every behaviour of the socket \<open>Front\<close> hands out the frames of the bytes
    received, \<open>SendPending\<close> sends whole blocks or closes, nothing writes outside a buffer.
  \<^item> Server and client: reachable states are well formed and hold at most one live connection
    of a name in a group; logins, polling, failures and stopping release what they must.
  \<^item> Together: both sides decide alike whether a connection starts afresh, and over any number
    of connections the receiver pops exactly the first messages posted, each once, in order.
  \<^item> The example: the server posts the feed message by message, a single client takes all of it
    over any number of connections, and its threads keep the invariants of the library.  A full
    queue, a second client or a client of the other byte order make a client exit, and its
    latency statistics are always empty.
  \<^item> Deviations the model exposed in the library: headers of size 0 hang \<open>Front\<close> and the sanity check,
    large messages starve on an empty ring or wrap around in \<open>Alloc\<close>, the transport of a
    connection and the places of a group stick, names with underscores share files.

  \<^bold>\<open>Bounds and loops.\<close>  The loops over received frames, over blocks to send and over the queue
  file may not end for all inputs; they are \<open>partial_function (option)\<close>, so that not returning
  is the value \<open>None\<close>, and termination is proved (or refuted) as such; no fuel is used.  The
  loop of the client's run is another of them: nothing bounds it while the server is silent.  The
  other loops recurse on an index bounded by the length of an array.  Theorems about
  configurations assume the conditions that the comments and assertions of the code state.

  \<^bold>\<open>Not modelled.\<close>
  \<^item> The operations of the serving threads and of the control thread are steps; they are not
    interleaved inside an operation.  Atomics of the ring are sequentially consistent.
  \<^item> The results of \<^verbatim>\<open>mkdir\<close> and \<^verbatim>\<open>inet_pton\<close>, which the code ignores.
  \<^item> The echo programs under \<^verbatim>\<open>test\<close>.
  \<^item> Of the market data example: \<open>main\<close>, the signal handler, the creation and pinning of threads and
    their sleeping, the wording of the log, and the callbacks that only log.
\<close>

end
